(* ===== verification/Prelude.thy ===== *)
theory Prelude
  imports Main "HOL-Library.Word"
begin

text \<open>
  The generic part of the development: the collections the component proofs draw on, searches
  in fixed-size tables (the shape of the job table and of a process's descriptor table), the
  suffix of a list that a ring buffer keeps, and simple facts on lists updated by index.
  Nothing here is specific to the shell.
\<close>

named_theorems table_simps
  \<open>lookups and updates of fixed-size tables\<close>

named_theorems frame_simps
  \<open>what an operation leaves unchanged\<close>

section \<open>First matching slot of a table\<close>

text \<open>
  The C code scans an array from slot 0 and stops at the first slot that satisfies a test.
\<close>

fun first_index :: "('a \<Rightarrow> bool) \<Rightarrow> 'a list \<Rightarrow> nat option" where
  "first_index P [] = None"
| "first_index P (x # xs) = (if P x then Some 0 else map_option Suc (first_index P xs))"

lemma first_index_None [simp]: "first_index P xs = None \<longleftrightarrow> (\<forall>x \<in> set xs. \<not> P x)"
  by (induction xs) auto

lemma first_index_SomeD:
  "first_index P xs = Some i \<Longrightarrow> i < length xs \<and> P (xs ! i) \<and> (\<forall>j < i. \<not> P (xs ! j))"
proof (induction xs arbitrary: i)
  case Nil
  then show ?case by simp
next
  case (Cons x xs)
  then show ?case
    by (cases i) (auto simp: nth_Cons less_Suc_eq_0_disj split: if_splits)
qed

lemma first_indexI:
  "i < length xs \<Longrightarrow> P (xs ! i) \<Longrightarrow> (\<And>j. j < i \<Longrightarrow> \<not> P (xs ! j)) \<Longrightarrow> first_index P xs = Some i"
proof (induction xs arbitrary: i)
  case Nil
  then show ?case by simp
next
  case (Cons x xs)
  show ?case
  proof (cases i)
    case 0
    with Cons.prems show ?thesis by simp
  next
    case (Suc k)
    have "\<not> P x" using Cons.prems(3)[of 0] Suc by simp
    moreover have "first_index P xs = Some k"
    proof (rule Cons.IH)
      show "k < length xs" "P (xs ! k)" using Cons.prems(1,2) Suc by simp_all
      show "\<not> P (xs ! j)" if "j < k" for j using Cons.prems(3)[of "Suc j"] Suc that by simp
    qed
    ultimately show ?thesis using Suc by simp
  qed
qed

lemma first_index_lt: "first_index P xs = Some i \<Longrightarrow> i < length xs"
  by (simp add: first_index_SomeD)

lemma first_index_ex: "x \<in> set xs \<Longrightarrow> P x \<Longrightarrow> \<exists>i. first_index P xs = Some i"
  by (cases "first_index P xs") auto

lemma first_index_cong:
  "(\<And>x. x \<in> set xs \<Longrightarrow> P x = Q x) \<Longrightarrow> first_index P xs = first_index Q xs"
  by (induction xs) auto

text \<open>An update that does not change whether the slot matches does not change the search.\<close>

lemma first_index_update: "P v = P (xs ! i) \<Longrightarrow> first_index P (xs[i := v]) = first_index P xs"
proof (induction xs arbitrary: i)
  case (Cons x xs)
  then show ?case by (cases i) auto
qed simp

text \<open>A slot that is the only one to match is the one found.\<close>

lemma first_index_unique:
  assumes "i < length xs" "P (xs ! i)" "\<And>j. j < length xs \<Longrightarrow> P (xs ! j) \<Longrightarrow> j = i"
  shows "first_index P xs = Some i"
  using assms(1,2)
proof (rule first_indexI)
  show "\<not> P (xs ! j)" if "j < i" for j using that assms(1) assms(3)[of j] by auto
qed

section \<open>Results\<close>

text \<open>A failing computation is a sum with the error on the left.\<close>

lemma map_sum_id_Inr [simp]: "map_sum id f r = Inr y \<longleftrightarrow> (\<exists>x. r = Inr x \<and> y = f x)"
  by (cases r) auto

lemma map_sum_id_Inl [simp]: "map_sum id f r = Inl e \<longleftrightarrow> r = Inl e"
  by (cases r) auto

section \<open>The last n elements\<close>

definition last_n :: "nat \<Rightarrow> 'a list \<Rightarrow> 'a list" where
  "last_n n xs = drop (length xs - n) xs"

lemma length_last_n [simp]: "length (last_n n xs) = min n (length xs)"
  by (simp add: last_n_def min_def)

lemma last_n_short: "length xs \<le> n \<Longrightarrow> last_n n xs = xs"
  by (simp add: last_n_def)

lemma last_n_Nil [simp]: "last_n n [] = []"
  by (simp add: last_n_def)

lemma last_n_last_n_append [simp]: "last_n n (last_n n xs @ ys) = last_n n (xs @ ys)"
proof (cases "length xs \<le> n")
  case True
  then show ?thesis by (simp add: last_n_short)
next
  case False
  then show ?thesis by (simp add: last_n_def add.commute)
qed

section \<open>Lists updated by index\<close>

lemma nth_list_update_if:
  "j < length xs \<Longrightarrow> xs[i := v] ! j = (if i = j then v else xs ! j)"
  by (simp add: nth_list_update)

lemma list_eq_nthI:
  "length xs = length ys \<Longrightarrow> (\<And>i. i < length xs \<Longrightarrow> xs ! i = ys ! i) \<Longrightarrow> xs = ys"
  by (simp add: nth_equalityI)

lemma list_update_same_conv2: "i < length xs \<Longrightarrow> (xs = xs[i := x]) = (xs ! i = x)"
  using list_update_same_conv [of i xs x] by auto

lemma list_update_undo: "i < length xs \<Longrightarrow> xs ! i = v \<Longrightarrow> xs[i := w, i := v] = xs"
  by (simp add: list_update_same_conv)

lemma take_Suc_update: "n < length xs \<Longrightarrow> take (Suc n) (xs[n := x]) = take n xs @ [x]"
  by (simp add: take_Suc_conv_app_nth)

lemma last_take: "0 < n \<Longrightarrow> n \<le> length xs \<Longrightarrow> last (take n xs) = xs ! (n - 1)"
  by (subst last_conv_nth) auto

lemma update_last_slot: "Suc n = length xs \<Longrightarrow> xs[n := x] = take n xs @ [x]"
  using take_Suc_update [of n xs x] by simp

lemma drop_update_take:
  assumes "n < length xs"
  shows "drop (Suc n) (xs[n := x]) @ take (Suc n) (xs[n := x]) = tl (drop n xs) @ take n xs @ [x]"
proof -
  have "drop (Suc n) (xs[n := x]) = drop (Suc n) xs" by simp
  also have "\<dots> = tl (drop n xs)" by (simp add: drop_Suc tl_drop)
  finally show ?thesis using assms by (simp add: take_Suc_update del: drop_update_cancel)
qed

lemma mod_wrap:
  "n < (l::nat) \<Longrightarrow> i < l \<Longrightarrow> (n + i) mod l = (if n + i < l then n + i else n + i - l)"
  by (simp add: le_mod_geq)

lemma rotate_nth:
  assumes "n < length xs" "i < length xs"
  shows "(drop n xs @ take n xs) ! i = xs ! (if n + i < length xs then n + i else n + i - length xs)"
proof (cases "n + i < length xs")
  case True
  then have "i < length xs - n" by simp
  then show ?thesis using True by (simp add: nth_append)
next
  case False
  then have "\<not> i < length xs - n" "i - (length xs - n) = n + i - length xs"
    using assms by arith+
  then show ?thesis using False assms by (simp add: nth_append)
qed

lemma in_set_update_cases: "x \<in> set (xs[i := v]) \<Longrightarrow> x = v \<or> x \<in> set xs"
  using set_update_subset_insert [of xs i v] by auto

lemma filter_list_update_same:
  "i < length xs \<Longrightarrow> \<not> P (xs ! i) \<Longrightarrow> \<not> P v \<Longrightarrow> filter P (xs[i := v]) = filter P xs"
proof -
  assume i: "i < length xs" and old: "\<not> P (xs ! i)" and new: "\<not> P v"
  have "filter P xs = filter P (take i xs) @ filter P (drop (Suc i) xs)"
    using old by (subst id_take_nth_drop [OF i]) simp
  then show ?thesis using i new by (simp add: upd_conv_take_nth_drop)
qed

section \<open>Systems of steps\<close>

text \<open>
  What every stateful component here is: operations that preserve an invariant, so that any
  sequence of them does.
\<close>

locale step_system =
  fixes step :: "'s \<Rightarrow> 'o \<Rightarrow> 's"
    and inv :: "'s \<Rightarrow> bool"
  assumes step_inv: "inv s \<Longrightarrow> inv (step s x)"
begin

lemma steps_inv: "inv s \<Longrightarrow> inv (foldl step s xs)"
  by (induction xs arbitrary: s) (auto intro: step_inv)

text \<open>A quantity that no step lowers is not lowered by any sequence.\<close>

lemma steps_mono:
  assumes "\<And>s x. inv s \<Longrightarrow> (bound s :: int) \<le> bound (step s x)" "inv s"
  shows "bound s \<le> bound (foldl step s xs)"
  using assms(2)
proof (induction xs arbitrary: s)
  case (Cons x xs)
  then show ?case using assms(1) [OF Cons.prems, of x] Cons.IH [OF step_inv [OF Cons.prems], of x] by simp
qed simp

end

end
