(* ===== verification/Clib.thy ===== *)
theory Clib
  imports Prelude
begin

text \<open>
  The parts of the C standard library the shell computes with: character classes in the C
  locale (the shell never calls setlocale), C strings, \<open>strtok_r\<close>, \<open>strchr\<close>, decimal
  printing, \<open>atoi\<close>, \<open>snprintf\<close> into a bounded buffer, and the padding of \<open>printf\<close>.
  A C string is the list of its bytes before the terminating NUL. A C \<open>int\<close> is an
  \<open>int\<close> in the range of \<open>is_int32\<close>; only the history's total and the next job id grow without
  end, by one for each line or job, and leave the range after 2147483647 of them.
\<close>

section \<open>Characters and strings\<close>

abbreviation NUL :: char where "NUL \<equiv> CHR 0x00"
abbreviation NL :: char where "NL \<equiv> CHR 0x0A"
abbreviation TAB :: char where "TAB \<equiv> CHR 0x09"
abbreviation CR :: char where "CR \<equiv> CHR 0x0D"

definition isspace :: "char \<Rightarrow> bool" where
  "isspace c = (let n = of_char c :: nat in n = 32 \<or> (9 \<le> n \<and> n \<le> 13))"

definition isalpha :: "char \<Rightarrow> bool" where
  "isalpha c = (let n = of_char c :: nat in (65 \<le> n \<and> n \<le> 90) \<or> (97 \<le> n \<and> n \<le> 122))"

definition isdigit :: "char \<Rightarrow> bool" where
  "isdigit c = (let n = of_char c :: nat in 48 \<le> n \<and> n \<le> 57)"

definition isalnum :: "char \<Rightarrow> bool" where
  "isalnum c = (isalpha c \<or> isdigit c)"

text \<open>The C string that starts at a buffer: the bytes before the first NUL.\<close>

definition cstr :: "char list \<Rightarrow> string" where
  "cstr bs = takeWhile (\<lambda>c. c \<noteq> NUL) bs"

definition is_cstr :: "string \<Rightarrow> bool" where
  "is_cstr s = (NUL \<notin> set s)"

lemma is_cstr_cstr [simp]: "is_cstr (cstr bs)"
  by (auto simp: is_cstr_def cstr_def dest: set_takeWhileD)

lemma cstr_id [simp]: "is_cstr s \<Longrightarrow> cstr s = s"
  by (auto simp: is_cstr_def cstr_def takeWhile_eq_all_conv)

lemma cstr_snoc_NUL [simp]: "is_cstr s \<Longrightarrow> cstr (s @ NUL # bs) = s"
  by (auto simp: is_cstr_def cstr_def takeWhile_append)

lemma is_cstr_append [simp]: "is_cstr (s @ t) \<longleftrightarrow> is_cstr s \<and> is_cstr t"
  by (auto simp: is_cstr_def)

lemma is_cstr_simps [simp]: "is_cstr []" "is_cstr (c # s) \<longleftrightarrow> c \<noteq> NUL \<and> is_cstr s"
  by (auto simp: is_cstr_def)

lemma is_cstr_mono: "set t \<subseteq> set s \<Longrightarrow> is_cstr s \<Longrightarrow> is_cstr t"
  by (auto simp: is_cstr_def)

section \<open>strtok\_r\<close>

text \<open>
  \<open>strtok_r\<close> skips leading delimiters, returns the maximal run of other characters and keeps
  in the save pointer what follows the delimiter that ends the run; it returns NULL when only
  delimiters are left. Here the save pointer is the string it points at.
\<close>

definition strtok_r :: "string \<Rightarrow> string \<Rightarrow> (string \<times> string) option" where
  "strtok_r delims s =
     (let s' = dropWhile (\<lambda>c. c \<in> set delims) s
      in if s' = [] then None
         else Some (takeWhile (\<lambda>c. c \<notin> set delims) s', drop 1 (dropWhile (\<lambda>c. c \<notin> set delims) s')))"

lemma strtok_r_None: "strtok_r delims s = None \<longleftrightarrow> set s \<subseteq> set delims"
  by (auto simp: strtok_r_def Let_def dropWhile_eq_Nil_conv)

lemma strtok_r_token:
  assumes "strtok_r delims s = Some (t, rest)"
  shows "t \<noteq> []" "set t \<inter> set delims = {}" "set t \<subseteq> set s"
proof -
  define s' where "s' = dropWhile (\<lambda>c. c \<in> set delims) s"
  have s': "s' \<noteq> []" "t = takeWhile (\<lambda>c. c \<notin> set delims) s'"
    using assms by (auto simp: strtok_r_def Let_def s'_def split: if_splits)
  have "hd s' \<notin> set delims" using s'(1) unfolding s'_def by (rule hd_dropWhile)
  with s' show "t \<noteq> []" by (cases s') auto
  show "set t \<inter> set delims = {}" using s'(2) by (auto dest: set_takeWhileD)
  show "set t \<subseteq> set s" using s'(2)
    by (auto simp: s'_def dest!: set_takeWhileD set_dropWhileD)
qed

lemma set_strtok_r_rest: "strtok_r delims s = Some (t, rest) \<Longrightarrow> set rest \<subseteq> set s"
  by (auto simp: strtok_r_def Let_def split: if_splits
      dest!: set_mp[OF set_drop_subset] set_dropWhileD)

text \<open>Every token is taken from the front: the save pointer moves forward.\<close>

lemma strtok_r_shorter:
  assumes "strtok_r delims s = Some (t, rest)"
  shows "length rest + length t \<le> length s" "length rest < length s"
proof -
  define s' where "s' = dropWhile (\<lambda>c. c \<in> set delims) s"
  have t: "t = takeWhile (\<lambda>c. c \<notin> set delims) s'"
    and r: "rest = drop 1 (dropWhile (\<lambda>c. c \<notin> set delims) s')"
    using assms by (auto simp: strtok_r_def Let_def s'_def split: if_splits)
  have "length s' = length t + length (dropWhile (\<lambda>c. c \<notin> set delims) s')"
    unfolding t by (metis length_append takeWhile_dropWhile_id)
  moreover have "length s' \<le> length s" unfolding s'_def by (rule length_dropWhile_le)
  ultimately show "length rest + length t \<le> length s" using r by simp
  moreover have "t \<noteq> []" by (rule strtok_r_token [OF assms])
  ultimately show "length rest < length s" by (cases t) auto
qed

text \<open>All tokens of a string, by repeated calls.\<close>

function strtok_all :: "string \<Rightarrow> string \<Rightarrow> string list" where
  "strtok_all delims s =
     (case strtok_r delims s of None \<Rightarrow> [] | Some (t, rest) \<Rightarrow> t # strtok_all delims rest)"
  by pat_completeness auto
termination
  by (relation "measure (\<lambda>(d, s). length s)") (auto dest: strtok_r_shorter)

declare strtok_all.simps [simp del]

lemma strtok_all_None [simp]: "strtok_r delims s = None \<Longrightarrow> strtok_all delims s = []"
  by (subst strtok_all.simps) simp

lemma strtok_all_Some [simp]:
  "strtok_r delims s = Some (t, rest) \<Longrightarrow> strtok_all delims s = t # strtok_all delims rest"
  by (subst strtok_all.simps) simp

lemma strtok_all_token:
  "t \<in> set (strtok_all delims s) \<Longrightarrow> t \<noteq> [] \<and> set t \<inter> set delims = {} \<and> set t \<subseteq> set s"
proof (induction delims s rule: strtok_all.induct)
  case (1 delims s)
  show ?case
  proof (cases "strtok_r delims s")
    case None
    with "1.prems" show ?thesis by simp
  next
    case (Some p)
    obtain u rest where p: "p = (u, rest)" by (cases p)
    note tok = strtok_r_token [OF Some [unfolded p]] set_strtok_r_rest [OF Some [unfolded p]]
    show ?thesis
    proof (cases "t = u")
      case True
      with tok show ?thesis by simp
    next
      case False
      with "1.prems" Some p have "t \<in> set (strtok_all delims rest)" by simp
      then show ?thesis using "1.IH" [OF Some p [symmetric]] tok(4) by blast
    qed
  qed
qed

text \<open>A word, one delimiter, and the rest: the scanner finds exactly the word.\<close>

lemma strtok_r_word:
  assumes "w \<noteq> []" "set w \<inter> set delims = {}" "d \<in> set delims"
  shows "strtok_r delims (w @ d # rest) = Some (w, rest)"
proof -
  have "hd w \<notin> set delims" using assms(1,2) by (cases w) auto
  then have "dropWhile (\<lambda>c. c \<in> set delims) (w @ d # rest) = w @ d # rest"
    using assms(1) by (cases w) auto
  moreover have "takeWhile (\<lambda>c. c \<notin> set delims) (w @ d # rest) = w"
    using assms(2,3) by (auto simp: takeWhile_append)
  moreover have "dropWhile (\<lambda>c. c \<notin> set delims) (w @ d # rest) = d # rest"
    using assms(2,3) by (auto simp: dropWhile_append)
  ultimately show ?thesis using assms(1) by (simp add: strtok_r_def)
qed

lemma strtok_r_last_word:
  assumes "w \<noteq> []" "set w \<inter> set delims = {}"
  shows "strtok_r delims w = Some (w, [])"
proof -
  have "dropWhile (\<lambda>c. c \<in> set delims) w = w" using assms by (cases w) auto
  moreover have "takeWhile (\<lambda>c. c \<notin> set delims) w = w" "dropWhile (\<lambda>c. c \<notin> set delims) w = []"
    using assms(2) by (auto simp: takeWhile_eq_all_conv dropWhile_eq_Nil_conv)
  ultimately show ?thesis using assms(1) by (simp only: strtok_r_def Let_def) simp
qed

text \<open>Words with a separator between them.\<close>

fun join :: "string \<Rightarrow> string list \<Rightarrow> string" where
  "join sep [] = []"
| "join sep (x # xs) = x @ concat (map (\<lambda>y. sep @ y) xs)"

lemma join_Cons: "join sep (x # y # ys) = x @ sep @ join sep (y # ys)"
  by simp

lemma strtok_r_skip: "d \<in> set delims \<Longrightarrow> strtok_r delims (d # s) = strtok_r delims s"
  by (simp add: strtok_r_def)

lemma strtok_all_skip [simp]: "d \<in> set delims \<Longrightarrow> strtok_all delims (d # s) = strtok_all delims s"
  by (cases "strtok_r delims s") (auto simp: strtok_r_skip)

lemma strtok_all_Nil [simp]: "strtok_all delims [] = []"
  by (simp add: strtok_r_def)

text \<open>
  The scanner undoes a join: words joined by separators that start with a delimiter and
  otherwise hold delimiters only.
\<close>

lemma strtok_all_skip_all: "set s \<subseteq> set delims \<Longrightarrow> strtok_all delims (s @ r) = strtok_all delims r"
  by (induction s) simp_all

lemma strtok_all_words:
  assumes "\<forall>w \<in> set ws. w \<noteq> [] \<and> set w \<inter> set delims = {}" "d \<in> set delims" "set tail \<subseteq> set delims"
  shows "strtok_all delims (join [d] ws @ tail) = ws"
  using assms(1)
proof (induction ws)
  case Nil
  show ?case using strtok_all_skip_all [OF assms(3), of "[]"] by simp
next
  case (Cons w ws)
  have w: "w \<noteq> []" "set w \<inter> set delims = {}" using Cons.prems by simp_all
  show ?case
  proof (cases ws)
    case Nil
    show ?thesis
    proof (cases tail)
      case t: Nil
      then show ?thesis using strtok_all_Some [OF strtok_r_last_word [OF w]] Nil by simp
    next
      case t: (Cons e es)
      then have "strtok_all delims (w @ e # es) = w # strtok_all delims es"
        using strtok_all_Some [OF strtok_r_word [OF w, of e es]] assms(3) by simp
      then show ?thesis using strtok_all_skip_all [of es delims "[]"] assms(3) t Nil by simp
    qed
  next
    case ws: (Cons v vs)
    have "join [d] (w # ws) @ tail = w @ d # (join [d] ws @ tail)" by (simp add: ws)
    then have "strtok_all delims (join [d] (w # ws) @ tail) = w # strtok_all delims (join [d] ws @ tail)"
      using strtok_all_Some [OF strtok_r_word [OF w assms(2)]] by simp
    then show ?thesis using Cons.IH Cons.prems by simp
  qed
qed

section \<open>Integers as text\<close>

definition is_int32 :: "int \<Rightarrow> bool" where
  "is_int32 i = (-(2^31) \<le> i \<and> i < 2^31)"

text \<open>The conversion of a long to an int keeps the low 32 bits.\<close>

definition to_int32 :: "int \<Rightarrow> int" where
  "to_int32 i = sint (word_of_int i :: 32 word)"

lemma to_int32_id [simp]: "is_int32 i \<Longrightarrow> to_int32 i = i"
  by (simp add: to_int32_def is_int32_def sint_sbintrunc' signed_take_bit_int_eq_self)

lemma is_int32_to_int32 [simp]: "is_int32 (to_int32 i)"
  using sint_ge [of "word_of_int i :: 32 word"] sint_lt [of "word_of_int i :: 32 word"]
  by (simp add: to_int32_def is_int32_def)

definition digit :: "nat \<Rightarrow> char" where
  "digit n = char_of (48 + n)"

fun dec_nat :: "nat \<Rightarrow> string" where
  "dec_nat n = (if n < 10 then [digit n] else dec_nat (n div 10) @ [digit (n mod 10)])"

declare dec_nat.simps [simp del]

text \<open>The conversion \<open>%d\<close> of printf.\<close>

definition dec_int :: "int \<Rightarrow> string" where
  "dec_int i = (if i < 0 then CHR ''-'' # dec_nat (nat (- i)) else dec_nat (nat i))"

definition digit_value :: "char \<Rightarrow> int" where
  "digit_value c = int (of_char c) - 48"

fun digits_value :: "int \<Rightarrow> string \<Rightarrow> int" where
  "digits_value acc [] = acc"
| "digits_value acc (c # cs) = digits_value (acc * 10 + digit_value c) cs"

text \<open>
  \<open>atoi\<close> skips white space, reads an optional sign and the digits that follow, and stops at the
  first other character; with no digit it is 0. Its value out of the range of int is what
  \<open>(int) strtol(s, NULL, 10)\<close> gives: clamped to a 64-bit long, then the low 32 bits.
\<close>

definition atoi :: "string \<Rightarrow> int" where
  "atoi s =
     (let s1 = dropWhile isspace s;
          neg = (s1 \<noteq> [] \<and> hd s1 = CHR ''-'');
          s2 = (if s1 \<noteq> [] \<and> (hd s1 = CHR ''-'' \<or> hd s1 = CHR ''+'') then tl s1 else s1);
          v = digits_value 0 (takeWhile isdigit s2)
      in to_int32 (if neg then max (-(2^63)) (- v) else min (2^63 - 1) v))"

lemma isdigit_digit [simp]: "n < 10 \<Longrightarrow> isdigit (digit n)"
  by (simp add: isdigit_def digit_def)

lemma digit_value_digit [simp]: "n < 10 \<Longrightarrow> digit_value (digit n) = int n"
  by (simp add: digit_value_def digit_def)

lemma dec_nat_digits: "\<forall>c \<in> set (dec_nat n). isdigit c"
proof (induction n rule: dec_nat.induct)
  case (1 n)
  then show ?case by (subst dec_nat.simps) auto
qed

lemma dec_nat_not_Nil [simp]: "dec_nat n \<noteq> []"
  by (subst dec_nat.simps) simp

lemma digits_value_append: "digits_value acc (s @ t) = digits_value (digits_value acc s) t"
  by (induction s arbitrary: acc) auto

lemma digits_value_dec_nat: "digits_value 0 (dec_nat n) = int n"
proof (induction n rule: dec_nat.induct)
  case (1 n)
  show ?case
  proof (cases "n < 10")
    case True
    then show ?thesis by (subst dec_nat.simps) simp
  next
    case False
    then show ?thesis
      using "1.IH" by (subst dec_nat.simps) (simp add: digits_value_append, presburger)
  qed
qed

lemma isdigit_not_special:
  "isdigit c \<Longrightarrow> \<not> isspace c \<and> c \<noteq> CHR ''-'' \<and> c \<noteq> CHR ''+'' \<and> c \<noteq> CHR ''%'' \<and> c \<noteq> NUL"
  by (auto simp: isdigit_def isspace_def Let_def)

lemma dec_nat_cons: "\<exists>c cs. dec_nat n = c # cs \<and> isdigit c \<and> (\<forall>d \<in> set cs. isdigit d)"
  using dec_nat_digits [of n] by (cases "dec_nat n") auto

lemma takeWhile_dec_nat [simp]: "takeWhile isdigit (dec_nat n) = dec_nat n"
  using dec_nat_digits by (simp add: takeWhile_eq_all_conv)

lemma atoi_dec_int: "is_int32 i \<Longrightarrow> atoi (dec_int i) = i"
proof (cases "i < 0")
  case True
  assume r: "is_int32 i"
  have "\<not> isspace (CHR ''-'')" by (simp add: isspace_def)
  then have "atoi (dec_int i) = to_int32 (max (-(2^63)) i)"
    using True by (simp add: atoi_def dec_int_def Let_def digits_value_dec_nat)
  also have "max (-(2^63)) i = i" using r by (simp add: is_int32_def)
  finally show ?thesis using r by simp
next
  case False
  assume r: "is_int32 i"
  obtain c cs where c: "dec_nat (nat i) = c # cs" "isdigit c" "\<forall>d \<in> set cs. isdigit d"
    using dec_nat_cons by blast
  have tw: "takeWhile isdigit cs = cs" using c(3) by (simp add: takeWhile_eq_all_conv)
  have "atoi (dec_int i) = to_int32 (min (2^63 - 1) (digits_value 0 (dec_nat (nat i))))"
    using False isdigit_not_special [OF c(2)] c
    by (simp add: atoi_def dec_int_def Let_def tw)
  also have "min (2^63 - 1) (digits_value 0 (dec_nat (nat i))) = i"
    using False r by (simp add: digits_value_dec_nat is_int32_def)
  finally show ?thesis using r by simp
qed

lemma length_dec_nat: "n < 10 ^ k \<Longrightarrow> 0 < k \<Longrightarrow> length (dec_nat n) \<le> k"
proof (induction n arbitrary: k rule: dec_nat.induct)
  case (1 n)
  show ?case
  proof (cases "n < 10")
    case True
    then show ?thesis using "1.prems" by (subst dec_nat.simps) simp
  next
    case False
    then obtain m where k: "k = Suc m" "0 < m"
      using "1.prems" by (cases k; cases "k - 1") auto
    then have "n div 10 < 10 ^ m" using "1.prems" by (simp add: div_less_iff_less_mult mult.commute)
    then have "length (dec_nat (n div 10)) \<le> m" using "1.IH" False k by simp
    then show ?thesis using False k by (subst dec_nat.simps) simp
  qed
qed

lemma length_dec_int: "is_int32 i \<Longrightarrow> length (dec_int i) \<le> 11"
proof -
  assume "is_int32 i"
  then have "nat (- i) < 10 ^ 10" "nat i < 10 ^ 10" by (auto simp: is_int32_def)
  then show ?thesis using length_dec_nat [of _ 10] by (fastforce simp: dec_int_def)
qed

lemma is_cstr_dec_int [simp]: "is_cstr (dec_int i)"
  using dec_nat_digits isdigit_not_special by (fastforce simp: dec_int_def is_cstr_def)

section \<open>snprintf and printf padding\<close>

text \<open>
  \<open>snprintf\<close> into a buffer of the given size writes at most size - 1 bytes and a NUL, and
  returns the length of the whole text; with size 0 it writes nothing.
\<close>

definition snprintf :: "nat \<Rightarrow> string \<Rightarrow> string \<times> nat" where
  "snprintf n text = (take (n - 1) text, length text)"

definition pad_left :: "nat \<Rightarrow> string \<Rightarrow> string" where
  "pad_left w s = replicate (w - length s) (CHR '' '') @ s"

definition pad_right :: "nat \<Rightarrow> string \<Rightarrow> string" where
  "pad_right w s = s @ replicate (w - length s) (CHR '' '')"

end
