(* ===== verification/Parser.thy ===== *)
theory Parser
  imports Clib
begin

text \<open>
  The parser (parser.h, parser.c). A \<open>command_t\<close> is a fixed array of MAX\_ARGS argument
  slots with a count, the redirection targets and the here-document fields; a \<open>pipeline_t\<close>
  is a fixed array of MAX\_COMMANDS commands with a count. NULL pointers are None. The loops
  are translated as they stand, with \<open>strtok_r\<close> of the theory Clib as the tokenizer; the
  reference is a grammar on token lists, in two phases, that the loop is shown to compute.
\<close>

section \<open>Data\<close>

definition MAX_ARGS :: nat where "MAX_ARGS = 64"
definition MAX_COMMANDS :: nat where "MAX_COMMANDS = 16"

record command_t =
  args :: "string option list"
  argc :: nat
  input_file :: "string option"
  output_file :: "string option"
  append_mode :: bool
  cmd_background :: bool
  heredoc_delim :: "string option"
  heredoc_fd :: int

record pipeline_t =
  commands :: "command_t list"
  num_commands :: nat
  pl_background :: bool

text \<open>All-zero structs, as \<open>memset\<close> leaves them.\<close>

definition command_zero :: command_t where
  "command_zero = \<lparr>args = replicate MAX_ARGS None, argc = 0, input_file = None, output_file = None,
     append_mode = False, cmd_background = False, heredoc_delim = None, heredoc_fd = 0\<rparr>"

definition pipeline_zero :: pipeline_t where
  "pipeline_zero = \<lparr>commands = replicate MAX_COMMANDS command_zero, num_commands = 0,
     pl_background = False\<rparr>"

text \<open>The two syntax errors, and what is printed for them.\<close>

datatype parse_error = Expected_delimiter | Expected_filename string

fun parse_error_message :: "parse_error \<Rightarrow> string" where
  "parse_error_message Expected_delimiter =
     ''mysh: syntax error: expected delimiter after '' @ [CHR 0x27] @ ''<<'' @ [CHR 0x27, NL]"
| "parse_error_message (Expected_filename tok) =
     ''mysh: syntax error: expected filename after '' @ [CHR 0x27] @ tok @ [CHR 0x27, NL]"

section \<open>The parser\<close>

definition TOKEN_DELIMITERS :: string where
  "TOKEN_DELIMITERS = [CHR '' '', TAB, CR, NL]"

definition PIPE_DELIMITER :: string where
  "PIPE_DELIMITER = ''|''"

text \<open>A call \<open>strtok_r(NULL, delims, &saveptr)\<close>: the token or NULL, and the new saveptr.\<close>

definition next_token :: "string \<Rightarrow> string \<Rightarrow> string option \<times> string" where
  "next_token delims save =
     (case strtok_r delims save of None \<Rightarrow> (None, []) | Some (t, rest) \<Rightarrow> (Some t, rest))"

definition add_arg :: "command_t \<Rightarrow> string \<Rightarrow> command_t" where
  "add_arg cmd token = cmd\<lparr>args := (args cmd)[argc cmd := Some token], argc := argc cmd + 1\<rparr>"

function parse_loop :: "command_t \<Rightarrow> string option \<Rightarrow> string \<Rightarrow> parse_error + command_t" where
  "parse_loop cmd token save =
     (case token of
        None \<Rightarrow> Inr cmd
      | Some tok \<Rightarrow>
        if \<not> argc cmd < MAX_ARGS - 1 then Inr cmd
        else if tok = ''&'' then
          (let (token', save') = next_token TOKEN_DELIMITERS save
           in parse_loop (cmd\<lparr>cmd_background := True\<rparr>) token' save')
        else if tok = ''<<'' then
          (case strtok_r TOKEN_DELIMITERS save of
             None \<Rightarrow> Inl Expected_delimiter
           | Some (delim, save1) \<Rightarrow>
             (let (token', save') = next_token TOKEN_DELIMITERS save1
              in parse_loop (cmd\<lparr>heredoc_delim := Some delim\<rparr>) token' save'))
        else if tok = ''<'' \<or> tok = ''>'' \<or> tok = ''>>'' then
          (case strtok_r TOKEN_DELIMITERS save of
             None \<Rightarrow> Inl (Expected_filename tok)
           | Some (filename, save1) \<Rightarrow>
             (let (token', save') = next_token TOKEN_DELIMITERS save1
              in parse_loop
                   (if tok = ''<'' then cmd\<lparr>input_file := Some filename\<rparr>
                    else cmd\<lparr>output_file := Some filename, append_mode := (tok = ''>>'')\<rparr>)
                   token' save'))
        else
          (let (token', save') = next_token TOKEN_DELIMITERS save
           in parse_loop (add_arg cmd tok) token' save'))"
  by pat_completeness auto

lemma next_token_measure:
  "(token, save) = next_token d s \<Longrightarrow> length save + (if token = None then 0 else 1) \<le> length s"
  by (auto simp: next_token_def dest!: strtok_r_shorter split: option.splits)

lemma next_token_shorter:
  "length s \<le> n \<Longrightarrow>
     (case next_token d s of (token, save) \<Rightarrow> length save + (if token = None then 0 else 1)) < Suc n"
  using next_token_measure [of "fst (next_token d s)" "snd (next_token d s)" d s]
  by (simp add: case_prod_beta)

termination parse_loop
  by (relation "measure (\<lambda>(cmd, token, save). length save + (if token = None then 0 else 1))")
    (auto simp: next_token_shorter simp del: not_None_eq dest!: strtok_r_shorter(2))

declare parse_loop.simps [simp del]

text \<open>The int result of the C function is argc of the command, or -1 for an error.\<close>

definition parse_command :: "string \<Rightarrow> parse_error + command_t" where
  "parse_command segment =
     (let (token, save) = next_token TOKEN_DELIMITERS segment
      in case parse_loop (command_zero\<lparr>heredoc_fd := -1\<rparr>) token save of
           Inl e \<Rightarrow> Inl e
         | Inr cmd \<Rightarrow> Inr (cmd\<lparr>args := (args cmd)[argc cmd := None]\<rparr>))"

function pipeline_loop :: "pipeline_t \<Rightarrow> string option \<Rightarrow> string \<Rightarrow> parse_error + pipeline_t" where
  "pipeline_loop p segment save =
     (case segment of
        None \<Rightarrow> Inr p
      | Some seg \<Rightarrow>
        if \<not> num_commands p < MAX_COMMANDS then Inr p
        else
          (case parse_command seg of
             Inl e \<Rightarrow> Inl e
           | Inr cmd \<Rightarrow>
             (let p' = p\<lparr>commands := (commands p)[num_commands p := cmd],
                         num_commands := (if argc cmd > 0 then num_commands p + 1
                                          else num_commands p)\<rparr>;
                  (segment', save') = next_token PIPE_DELIMITER save
              in pipeline_loop p' segment' save')))"
  by pat_completeness auto
termination
  by (relation "measure (\<lambda>(p, segment, save). length save + (if segment = None then 0 else 1))")
    (auto simp: next_token_shorter simp del: not_None_eq)

declare pipeline_loop.simps [simp del]

definition parse_pipeline :: "string \<Rightarrow> parse_error + pipeline_t" where
  "parse_pipeline line =
     (let (segment, save) = next_token PIPE_DELIMITER line
      in case pipeline_loop pipeline_zero segment save of
           Inl e \<Rightarrow> Inl e
         | Inr p \<Rightarrow>
           Inr (if num_commands p > 0
                then p\<lparr>pl_background := cmd_background (commands p ! (num_commands p - 1))\<rparr>
                else p))"

section \<open>Well-formed commands and pipelines\<close>

text \<open>The argument vector of a command: its non-NULL entries.\<close>

definition argv :: "command_t \<Rightarrow> string list" where
  "argv cmd = map the (take (argc cmd) (args cmd))"

text \<open>
  What \<open>execvp\<close> and the built-ins need of the array: argc strings, then a NULL sentinel that
  still lies inside the array.
\<close>

definition command_inv :: "command_t \<Rightarrow> bool" where
  "command_inv cmd \<longleftrightarrow>
     length (args cmd) = MAX_ARGS \<and> argc cmd < MAX_ARGS \<and>
     (\<forall>i < argc cmd. args cmd ! i \<noteq> None) \<and>
     (\<forall>i < MAX_ARGS. argc cmd \<le> i \<longrightarrow> args cmd ! i = None)"

definition pipeline_inv :: "pipeline_t \<Rightarrow> bool" where
  "pipeline_inv p \<longleftrightarrow>
     length (commands p) = MAX_COMMANDS \<and> num_commands p \<le> MAX_COMMANDS \<and>
     (\<forall>i < num_commands p. command_inv (commands p ! i) \<and> 0 < argc (commands p ! i))"

lemma command_inv_frame [simp, frame_simps]:
  "command_inv (cmd\<lparr>input_file := x\<rparr>) = command_inv cmd"
  "command_inv (cmd\<lparr>output_file := x\<rparr>) = command_inv cmd"
  "command_inv (cmd\<lparr>append_mode := b\<rparr>) = command_inv cmd"
  "command_inv (cmd\<lparr>cmd_background := b\<rparr>) = command_inv cmd"
  "command_inv (cmd\<lparr>heredoc_delim := x\<rparr>) = command_inv cmd"
  "command_inv (cmd\<lparr>heredoc_fd := n\<rparr>) = command_inv cmd"
  by (simp_all add: command_inv_def)

lemma argv_frame [simp, frame_simps]:
  "argv (cmd\<lparr>input_file := x\<rparr>) = argv cmd" "argv (cmd\<lparr>output_file := x\<rparr>) = argv cmd"
  "argv (cmd\<lparr>append_mode := b\<rparr>) = argv cmd" "argv (cmd\<lparr>cmd_background := b\<rparr>) = argv cmd"
  "argv (cmd\<lparr>heredoc_delim := x\<rparr>) = argv cmd" "argv (cmd\<lparr>heredoc_fd := n\<rparr>) = argv cmd"
  by (simp_all add: argv_def)

lemma command_inv_zero [simp]: "command_inv command_zero"
  by (auto simp: command_inv_def command_zero_def MAX_ARGS_def)

lemma argv_zero [simp]: "argv command_zero = []" "argc command_zero = 0"
  by (simp_all add: argv_def command_zero_def)

lemma add_arg_inv:
  "command_inv cmd \<Longrightarrow> argc cmd < MAX_ARGS - 1 \<Longrightarrow> command_inv (add_arg cmd tok)"
  by (auto simp: command_inv_def add_arg_def nth_list_update)

lemma argv_add_arg:
  "command_inv cmd \<Longrightarrow> argv (add_arg cmd tok) = argv cmd @ [tok]"
  by (auto simp: argv_def add_arg_def command_inv_def take_Suc_update)

lemma argv_eq_Nil: "command_inv cmd \<Longrightarrow> argv cmd = [] \<longleftrightarrow> argc cmd = 0"
  by (auto simp: argv_def command_inv_def)

lemma length_argv: "command_inv cmd \<Longrightarrow> length (argv cmd) = argc cmd"
  by (auto simp: argv_def command_inv_def)

lemma args_argv:
  "command_inv cmd \<Longrightarrow> args cmd = map Some (argv cmd) @ replicate (MAX_ARGS - argc cmd) None"
proof (rule nth_equalityI)
  assume "command_inv cmd"
  then have c: "length (args cmd) = MAX_ARGS" "argc cmd < MAX_ARGS"
    "\<And>i. i < argc cmd \<Longrightarrow> \<exists>s. args cmd ! i = Some s"
    "\<And>i. i < MAX_ARGS \<Longrightarrow> argc cmd \<le> i \<Longrightarrow> args cmd ! i = None"
    by (auto simp: command_inv_def)
  then show "length (args cmd) = length (map Some (argv cmd) @ replicate (MAX_ARGS - argc cmd) None)"
    by (simp add: argv_def)
  show "args cmd ! i = (map Some (argv cmd) @ replicate (MAX_ARGS - argc cmd) None) ! i"
    if "i < length (args cmd)" for i
  proof (cases "i < argc cmd")
    case True
    then show ?thesis using c(1,2) c(3) [of i] by (auto simp: argv_def nth_append)
  next
    case False
    then show ?thesis using c that by (simp add: argv_def nth_append)
  qed
qed

text \<open>Conversely, an array of that shape is a well-formed command.\<close>

lemma command_invI:
  assumes "args cmd = map Some ws @ replicate (MAX_ARGS - length ws) None" "argc cmd = length ws"
    "length ws < MAX_ARGS"
  shows "command_inv cmd" "argv cmd = ws"
  using assms by (auto simp: command_inv_def argv_def nth_append comp_def)

end
