(* ===== verification/Grammar.thy ===== *)
theory Grammar
  imports Parser
begin

text \<open>
  The reference for the parser: the language of command lines as a grammar on words, and what
  the loops over \<open>strtok_r\<close> compute. A line is its '|'-separated segments; a segment is its
  white-space separated words; the words are read as items (an argument, the background mark, a
  redirection with its target, a here-document with its delimiter); a command is assembled from
  its items. The last redirection of a kind wins.
\<close>

section \<open>Items\<close>

datatype item =
    Arg string
  | Background
  | Heredoc string
  | Input string
  | Output string bool

definition operators :: "string set" where
  "operators = {''&'', ''<<'', ''<'', ''>'', ''>>''}"

text \<open>
  Reading words as items. The number is how many arguments the command can still take: once it
  is 0 the rest of the segment is not read.
\<close>

fun read_items :: "nat \<Rightarrow> string list \<Rightarrow> parse_error + item list" where
  "read_items n [] = Inr []"
| "read_items n (w # ws) =
     (if n = 0 then Inr []
      else if w = ''&'' then map_sum id (Cons Background) (read_items n ws)
      else if w = ''<<'' then
        (case ws of [] \<Rightarrow> Inl Expected_delimiter
         | d # ws' \<Rightarrow> map_sum id (Cons (Heredoc d)) (read_items n ws'))
      else if w = ''<'' then
        (case ws of [] \<Rightarrow> Inl (Expected_filename w)
         | f # ws' \<Rightarrow> map_sum id (Cons (Input f)) (read_items n ws'))
      else if w = ''>'' \<or> w = ''>>'' then
        (case ws of [] \<Rightarrow> Inl (Expected_filename w)
         | f # ws' \<Rightarrow> map_sum id (Cons (Output f (w = ''>>''))) (read_items n ws'))
      else map_sum id (Cons (Arg w)) (read_items (n - 1) ws))"

definition put_item :: "command_t \<Rightarrow> item \<Rightarrow> command_t" where
  "put_item cmd it =
     (case it of
        Arg w \<Rightarrow> add_arg cmd w
      | Background \<Rightarrow> cmd\<lparr>cmd_background := True\<rparr>
      | Heredoc d \<Rightarrow> cmd\<lparr>heredoc_delim := Some d\<rparr>
      | Input f \<Rightarrow> cmd\<lparr>input_file := Some f\<rparr>
      | Output f app \<Rightarrow> cmd\<lparr>output_file := Some f, append_mode := app\<rparr>)"

definition empty_command :: command_t where
  "empty_command = command_zero\<lparr>heredoc_fd := -1\<rparr>"

definition spec_command :: "string list \<Rightarrow> parse_error + command_t" where
  "spec_command ws = map_sum id (foldl put_item empty_command) (read_items (MAX_ARGS - 1) ws)"

text \<open>The commands of a line: those of its segments that have an argument, at most MAX\_COMMANDS.\<close>

fun spec_stages :: "nat \<Rightarrow> string list \<Rightarrow> parse_error + command_t list" where
  "spec_stages n [] = Inr []"
| "spec_stages n (seg # segs) =
     (if n = 0 then Inr []
      else case spec_command (strtok_all TOKEN_DELIMITERS seg) of
             Inl e \<Rightarrow> Inl e
           | Inr cmd \<Rightarrow> if argc cmd > 0 then map_sum id (Cons cmd) (spec_stages (n - 1) segs)
                       else spec_stages n segs)"

definition spec_pipeline :: "string \<Rightarrow> parse_error + command_t list" where
  "spec_pipeline line = spec_stages MAX_COMMANDS (strtok_all PIPE_DELIMITER line)"

definition stages :: "pipeline_t \<Rightarrow> command_t list" where
  "stages p = take (num_commands p) (commands p)"

section \<open>The token loop computes the grammar\<close>

definition pending :: "string \<Rightarrow> string option \<Rightarrow> string \<Rightarrow> string list" where
  "pending d token save = (case token of None \<Rightarrow> [] | Some t \<Rightarrow> t # strtok_all d save)"

lemma pending_None [simp]: "pending d None save = []"
  by (simp add: pending_def)

lemma pending_Some [simp]: "pending d (Some t) save = t # strtok_all d save"
  by (simp add: pending_def)

lemma pending_next_token [simp]:
  "(token, save) = next_token d s \<Longrightarrow> pending d token save = strtok_all d s"
  by (auto simp: next_token_def split: option.splits)

lemma add_arg_frame [simp]:
  "argc (add_arg cmd t) = argc cmd + 1"
  by (simp add: add_arg_def)

text \<open>
  One turn of the loop: an operator without its word, or an item, after which the loop goes on
  with the words behind it.
\<close>

abbreviation room :: "command_t \<Rightarrow> nat" where
  "room cmd \<equiv> MAX_ARGS - 1 - argc cmd"

definition rest_words :: "string option \<Rightarrow> string \<Rightarrow> nat" where
  "rest_words token save = length save + (if token = None then 0 else 1)"

lemma next_token_pending:
  assumes "next_token TOKEN_DELIMITERS save = (t, s)"
  shows "pending TOKEN_DELIMITERS t s = strtok_all TOKEN_DELIMITERS save" "rest_words t s \<le> length save"
  using pending_next_token [OF assms [symmetric]] next_token_measure [OF assms [symmetric]]
  by (auto simp: rest_words_def)

lemma parse_loop_turn:
  assumes "argc cmd < MAX_ARGS - 1"
  obtains
    (bare) e where "parse_loop cmd (Some tok) save = Inl e"
      "read_items (room cmd) (tok # strtok_all TOKEN_DELIMITERS save) = Inl e"
  | (item) it t s where "parse_loop cmd (Some tok) save = parse_loop (put_item cmd it) t s"
      "read_items (room cmd) (tok # strtok_all TOKEN_DELIMITERS save) =
         map_sum id (Cons it) (read_items (room (put_item cmd it)) (pending TOKEN_DELIMITERS t s))"
      "argc (put_item cmd it) \<le> MAX_ARGS - 1" "rest_words t s \<le> length save"
proof -
  obtain t1 s1 where nt: "next_token TOKEN_DELIMITERS save = (t1, s1)" by fastforce
  note n1 = next_token_pending [OF nt] and step = parse_loop.simps [of cmd "Some tok" save]
  have room: "\<not> MAX_ARGS \<le> Suc (argc cmd)" using assms by simp
  consider (amp) "tok = ''&''" | (opr) "tok = ''<<'' \<or> tok = ''<'' \<or> tok = ''>'' \<or> tok = ''>>''"
    | (arg) "tok \<notin> operators" by (auto simp: operators_def)
  then show ?thesis
  proof cases
    case amp
    then show ?thesis
      using item [of Background t1 s1] step room assms nt n1 by (simp add: put_item_def)
  next
    case arg
    then show ?thesis
      using item [of "Arg tok" t1 s1] room assms nt n1 by (simp add: step put_item_def operators_def)
  next
    case opr
    show ?thesis
    proof (cases "strtok_r TOKEN_DELIMITERS save")
      case None
      then show ?thesis using bare opr room assms by (auto simp: step)
    next
      case (Some p)
      obtain f s2 where p: "p = (f, s2)" by (cases p)
      obtain t3 s3 where nt3: "next_token TOKEN_DELIMITERS s2 = (t3, s3)" by fastforce
      define it where "it = (if tok = ''<<'' then Heredoc f else if tok = ''<'' then Input f else Output f (tok = ''>>''))"
      have "rest_words t3 s3 \<le> length save"
        using next_token_pending(2) [OF nt3] strtok_r_shorter(2) [OF Some [unfolded p]] by simp
      then show ?thesis
        using item [of it t3 s3] opr room assms Some p nt3 next_token_pending(1) [OF nt3] unfolding it_def
        by (auto simp: step put_item_def)
    qed
  qed
qed

lemma parse_loop_words:
  "argc cmd \<le> MAX_ARGS - 1 \<Longrightarrow>
   parse_loop cmd token save =
     map_sum id (foldl put_item cmd) (read_items (room cmd) (pending TOKEN_DELIMITERS token save))"
proof (induction "rest_words token save" arbitrary: cmd token save rule: less_induct)
  case less
  consider (none) "token = None" | (full) tok where "token = Some tok" "\<not> argc cmd < MAX_ARGS - 1"
    | (more) tok where "token = Some tok" "argc cmd < MAX_ARGS - 1" by fastforce
  then show ?case
  proof cases
    case (more tok)
    from more(2) show ?thesis
    proof (cases rule: parse_loop_turn [where tok = tok and save = save])
      case (item it t s)
      have "rest_words t s < rest_words token save" using item(4) more(1) by (simp add: rest_words_def)
      from less.hyps [OF this item(3)] show ?thesis
        using item(1,2) more(1) by (simp add: sum.map_comp comp_def id_def)
    qed (use more in simp)
  qed (use less.prems in \<open>subst parse_loop.simps; simp\<close>)+
qed

section \<open>What the items make of a command\<close>

fun item_args :: "item list \<Rightarrow> string list" where
  "item_args [] = []"
| "item_args (Arg w # its) = w # item_args its"
| "item_args (_ # its) = item_args its"

text \<open>The ways to read a first word.\<close>

lemma read_items_cases:
  assumes "read_items n (w # ws) = Inr its"
  obtains (full) "n = 0" "its = []"
  | (flag) more where "w = ''&''" "read_items n ws = Inr more" "its = Background # more"
  | (pair) f ws' it more where "w \<in> operators" "ws = f # ws'" "read_items n ws' = Inr more" "its = it # more"
      "it = Heredoc f \<or> it = Input f \<or> it = Output f (w = ''>>'')"
  | (word) more where "n \<noteq> 0" "w \<notin> operators" "read_items (n - 1) ws = Inr more" "its = Arg w # more"
proof -
  consider (zero) "n = 0" | (amp) "n \<noteq> 0" "w = ''&''" | (opr) "n \<noteq> 0" "w \<in> operators" "w \<noteq> ''&''"
    | (plain) "n \<noteq> 0" "w \<notin> operators" by blast
  then show ?thesis
  proof cases
    case zero
    then show ?thesis using assms full by simp
  next
    case amp
    then show ?thesis using assms flag by (auto simp: map_sum_id_Inr)
  next
    case opr
    then have w: "w = ''<<'' \<or> w = ''<'' \<or> w = ''>'' \<or> w = ''>>''" by (auto simp: operators_def)
    obtain f ws' where ws: "ws = f # ws'" using assms opr(1) w by (cases ws) auto
    obtain it more where "read_items n ws' = Inr more" "its = it # more"
      "it = Heredoc f \<or> it = Input f \<or> it = Output f (w = ''>>'')"
      using assms opr(1) w unfolding ws by (elim disjE) (auto simp: map_sum_id_Inr)
    then show ?thesis using pair [OF opr(2) ws] by blast
  next
    case plain
    then have "w \<noteq> ''&''" "w \<noteq> ''<<''" "w \<noteq> ''<''" "w \<noteq> ''>''" "w \<noteq> ''>>''" by (auto simp: operators_def)
    then obtain more where "read_items (n - 1) ws = Inr more" "its = Arg w # more"
      using assms plain(1) by (auto simp: map_sum_id_Inr)
    then show ?thesis using word plain by blast
  qed
qed

lemma read_items_args:
  "read_items n ws = Inr its \<Longrightarrow> length (item_args its) \<le> n \<and>
     set (item_args its) \<subseteq> set ws - operators"
proof (induction ws arbitrary: n its rule: length_induct)
  case (1 ws)
  show ?case
  proof (cases ws)
    case (Cons w ws')
    from "1.prems" [unfolded Cons] show ?thesis
    proof (cases rule: read_items_cases)
      case (flag more)
      then show ?thesis using "1.IH" Cons by fastforce
    next
      case (pair f ws'' it more)
      have "length (item_args more) \<le> n \<and> set (item_args more) \<subseteq> set ws'' - operators"
        using "1.IH" [rule_format, OF _ pair(3)] Cons pair(2) by simp
      then show ?thesis using Cons pair by auto
    next
      case (word more)
      have "length (item_args more) \<le> n - 1 \<and> set (item_args more) \<subseteq> set ws' - operators"
        using "1.IH" [rule_format, OF _ word(3)] Cons by simp
      then show ?thesis using Cons word by auto
    qed simp
  qed (use "1.prems" in simp)
qed

lemma put_items_inv:
  "command_inv cmd \<Longrightarrow> argc cmd + length (item_args its) < MAX_ARGS \<Longrightarrow>
     command_inv (foldl put_item cmd its) \<and> argv (foldl put_item cmd its) = argv cmd @ item_args its"
proof (induction its arbitrary: cmd rule: item_args.induct)
  case (2 w its)
  then show ?case by (simp add: put_item_def add_arg_inv argv_add_arg)
qed (simp_all add: put_item_def)

lemma empty_command_simps [simp]:
  "command_inv empty_command" "argc empty_command = 0" "argv empty_command = []"
  by (simp add: empty_command_def) (simp_all add: empty_command_def argv_def command_zero_def)

lemma spec_command_facts:
  assumes "spec_command ws = Inr cmd"
  shows "command_inv cmd" "set (argv cmd) \<subseteq> set ws - operators"
proof -
  obtain its where its: "read_items (MAX_ARGS - 1) ws = Inr its" "cmd = foldl put_item empty_command its"
    using assms unfolding spec_command_def by (cases "read_items (MAX_ARGS - 1) ws") auto
  have "length (item_args its) < MAX_ARGS"
    using read_items_args [OF its(1)] by (simp add: MAX_ARGS_def)
  then show "command_inv cmd" "set (argv cmd) \<subseteq> set ws - operators"
    using put_items_inv [of empty_command its] read_items_args [OF its(1)] its(2) by auto
qed

text \<open>The sentinel is already NULL when the loop ends, so writing it changes nothing.\<close>

lemma command_inv_sentinel: "command_inv cmd \<Longrightarrow> cmd\<lparr>args := (args cmd)[argc cmd := None]\<rparr> = cmd"
  by (simp add: command_inv_def list_update_same_conv)

lemma parse_command_spec:
  "parse_command seg = spec_command (strtok_all TOKEN_DELIMITERS seg)"
proof -
  obtain token save where nt: "next_token TOKEN_DELIMITERS seg = (token, save)"
    by (cases "next_token TOKEN_DELIMITERS seg")
  have loop: "parse_loop empty_command token save = spec_command (strtok_all TOKEN_DELIMITERS seg)"
    using parse_loop_words [of empty_command token save] pending_next_token [OF nt [symmetric]]
    by (simp add: spec_command_def)
  show ?thesis
  proof (cases "spec_command (strtok_all TOKEN_DELIMITERS seg)")
    case (Inl e)
    then show ?thesis using loop nt by (simp add: parse_command_def empty_command_def)
  next
    case (Inr cmd)
    then show ?thesis
      using loop nt command_inv_sentinel [OF spec_command_facts(1) [OF Inr]]
      by (simp add: parse_command_def empty_command_def)
  qed
qed

lemma parse_command_inv: "parse_command seg = Inr cmd \<Longrightarrow> command_inv cmd"
  unfolding parse_command_spec by (rule spec_command_facts)

section \<open>Pipelines\<close>

lemma pipeline_inv_zero: "pipeline_inv pipeline_zero"
  by (simp add: pipeline_inv_def pipeline_zero_def)

lemma stages_zero: "stages pipeline_zero = []"
  by (simp add: stages_def pipeline_zero_def)

text \<open>One segment: a command with an argument is appended, one without only scribbles on the
  slot behind the last command.\<close>

definition put_command :: "pipeline_t \<Rightarrow> command_t \<Rightarrow> pipeline_t" where
  "put_command p cmd = p\<lparr>commands := (commands p)[num_commands p := cmd],
     num_commands := (if argc cmd > 0 then num_commands p + 1 else num_commands p)\<rparr>"

lemma put_command_facts:
  assumes "pipeline_inv p" "num_commands p < MAX_COMMANDS" "command_inv cmd"
  shows "pipeline_inv (put_command p cmd)"
    "stages (put_command p cmd) = stages p @ (if argc cmd > 0 then [cmd] else [])"
    "num_commands (put_command p cmd) = num_commands p + (if argc cmd > 0 then 1 else 0)"
    "pl_background (put_command p cmd) = pl_background p"
  using assms by (auto simp: pipeline_inv_def put_command_def stages_def nth_list_update take_Suc_update)

text \<open>What the loop from p returns, in terms of the stages that the remaining segments give.\<close>

definition extends_by :: "pipeline_t \<Rightarrow> parse_error + command_t list \<Rightarrow> parse_error + pipeline_t \<Rightarrow> bool" where
  "extends_by p spec r \<longleftrightarrow>
     (case r of
        Inl e \<Rightarrow> spec = Inl e
      | Inr p' \<Rightarrow> pipeline_inv p' \<and> pl_background p' = pl_background p \<and>
          (\<exists>cs. spec = Inr cs \<and> stages p' = stages p @ cs))"

lemma pipeline_loop_segments:
  "pipeline_inv p \<Longrightarrow>
     extends_by p (spec_stages (MAX_COMMANDS - num_commands p) (pending PIPE_DELIMITER segment save))
       (pipeline_loop p segment save)"
proof (induction p segment save rule: pipeline_loop.induct)
  case (1 p segment save)
  show ?case
  proof (cases segment)
    case None
    then show ?thesis using "1.prems" by (subst pipeline_loop.simps) (simp add: extends_by_def)
  next
    case (Some seg)
    show ?thesis
    proof (cases "num_commands p < MAX_COMMANDS")
      case False
      then show ?thesis using Some "1.prems"
        by (subst pipeline_loop.simps) (simp add: extends_by_def)
    next
      case True
      show ?thesis
      proof (cases "parse_command seg")
        case (Inl e)
        then show ?thesis using Some True
          by (subst pipeline_loop.simps) (simp add: parse_command_spec extends_by_def)
      next
        case (Inr cmd)
        obtain seg' save' where nt: "next_token PIPE_DELIMITER save = (seg', save')"
          by (cases "next_token PIPE_DELIMITER save")
        note put = put_command_facts [OF "1.prems" True parse_command_inv [OF Inr]]
        have loop: "pipeline_loop p segment save = pipeline_loop (put_command p cmd) seg' save'"
          using Some True Inr nt by (subst pipeline_loop.simps) (simp add: put_command_def)
        have "extends_by (put_command p cmd)
            (spec_stages (MAX_COMMANDS - num_commands (put_command p cmd)) (strtok_all PIPE_DELIMITER save))
            (pipeline_loop (put_command p cmd) seg' save')"
          using "1.IH" [OF Some _ Inr refl refl nt [symmetric]] True put(1)
            pending_next_token [OF nt [symmetric]]
          by (simp add: put_command_def)
        then show ?thesis
          using True put Some Inr unfolding loop
          by (auto simp: parse_command_spec [symmetric] extends_by_def split: sum.splits if_splits)
      qed
    qed
  qed
qed

lemma parse_pipeline_facts:
  "map_sum id stages (parse_pipeline line) = spec_pipeline line"
  "parse_pipeline line = Inr p \<Longrightarrow> pipeline_inv p"
  "parse_pipeline line = Inr p \<Longrightarrow>
     pl_background p = (stages p \<noteq> [] \<and> cmd_background (last (stages p)))"
proof -
  obtain seg save where nt: "next_token PIPE_DELIMITER line = (seg, save)"
    by (cases "next_token PIPE_DELIMITER line")
  define r where "r = pipeline_loop pipeline_zero seg save"
  have r: "extends_by pipeline_zero (spec_pipeline line) r"
    using pipeline_loop_segments [OF pipeline_inv_zero, of seg save] pending_next_token [OF nt [symmetric]]
    by (simp add: spec_pipeline_def r_def pipeline_zero_def)
  have pp: "parse_pipeline line = map_sum id (\<lambda>p. if num_commands p > 0
      then p\<lparr>pl_background := cmd_background (commands p ! (num_commands p - 1))\<rparr> else p) r"
    using nt by (cases r) (simp_all add: parse_pipeline_def r_def)
  show "map_sum id stages (parse_pipeline line) = spec_pipeline line"
    using r by (cases r) (auto simp: pp extends_by_def stages_def pipeline_zero_def)
  show "pipeline_inv p" if "parse_pipeline line = Inr p"
    using that r by (auto simp: pp extends_by_def pipeline_inv_def split: if_splits)
  show "pl_background p = (stages p \<noteq> [] \<and> cmd_background (last (stages p)))"
    if "parse_pipeline line = Inr p"
  proof -
    note eq = that
    obtain p0 where p0: "r = Inr p0" "p = (if num_commands p0 > 0
      then p0\<lparr>pl_background := cmd_background (commands p0 ! (num_commands p0 - 1))\<rparr> else p0)"
      using eq unfolding pp map_sum_id_Inr by blast
    then have "pipeline_inv p0" "\<not> pl_background p0" using r by (auto simp: extends_by_def pipeline_zero_def)
    then show ?thesis
      using p0(2) by (auto simp: stages_def pipeline_inv_def last_take)
  qed
qed

lemma length_stages: "pipeline_inv p \<Longrightarrow> length (stages p) = num_commands p"
  by (simp add: stages_def pipeline_inv_def)

lemma stages_inv: "pipeline_inv p \<Longrightarrow> cmd \<in> set (stages p) \<Longrightarrow> command_inv cmd \<and> 0 < argc cmd"
  by (auto simp: stages_def pipeline_inv_def in_set_conv_nth)

lemma stages_update:
  "length cmds = length (stages p) \<Longrightarrow>
     stages (p\<lparr>commands := cmds @ drop (num_commands p) (commands p)\<rparr>) = cmds"
  by (auto simp: stages_def min_def)

text \<open>The parser leaves the here-document descriptor at -1.\<close>

lemma put_item_heredoc: "heredoc_fd (put_item cmd it) = heredoc_fd cmd"
  by (cases it) (simp_all add: put_item_def add_arg_def)

lemma spec_command_heredoc: "spec_command ws = Inr cmd \<Longrightarrow> heredoc_fd cmd = -1"
proof -
  have "heredoc_fd (foldl put_item c its) = heredoc_fd c" for c its
    by (induction its arbitrary: c) (simp_all add: put_item_heredoc)
  then show "spec_command ws = Inr cmd \<Longrightarrow> heredoc_fd cmd = -1"
    by (auto simp: spec_command_def empty_command_def)
qed

lemma spec_stages_heredoc: "spec_stages n segs = Inr cmds \<Longrightarrow> \<forall>c \<in> set cmds. heredoc_fd c = -1"
proof (induction segs arbitrary: n cmds)
  case (Cons seg segs)
  show ?case
  proof (cases "n = 0")
    case False
    obtain cmd where cmd: "spec_command (strtok_all TOKEN_DELIMITERS seg) = Inr cmd"
      using Cons.prems False by (cases "spec_command (strtok_all TOKEN_DELIMITERS seg)") simp_all
    show ?thesis
      using Cons.prems Cons.IH spec_command_heredoc [OF cmd] False cmd
      by (cases "argc cmd > 0") auto
  qed (use Cons.prems in simp)
qed simp

lemma parse_pipeline_heredoc: "parse_pipeline line = Inr p \<Longrightarrow> \<forall>c \<in> set (stages p). heredoc_fd c = -1"
proof -
  assume "parse_pipeline line = Inr p"
  then have "spec_stages MAX_COMMANDS (strtok_all PIPE_DELIMITER line) = Inr (stages p)"
    using parse_pipeline_facts(1) [of line] by (simp add: spec_pipeline_def)
  then show ?thesis by (rule spec_stages_heredoc)
qed

section \<open>Parsing what was printed\<close>

text \<open>A word that reads as itself: not empty, without white space or bar, and no operator.\<close>

definition plain_word :: "string \<Rightarrow> bool" where
  "plain_word w \<longleftrightarrow> w \<noteq> [] \<and> set w \<inter> set TOKEN_DELIMITERS = {} \<and> CHR ''|'' \<notin> set w \<and> w \<notin> operators"

lemma read_items_plain:
  "\<forall>w \<in> set ws. w \<notin> operators \<Longrightarrow> length ws \<le> n \<Longrightarrow> read_items n ws = Inr (map Arg ws)"
proof (induction ws arbitrary: n)
  case (Cons w ws)
  then show ?case by (cases n) (auto simp: operators_def)
qed simp

lemma put_args: "argv cmd = vs \<Longrightarrow> command_inv cmd \<Longrightarrow> length vs + length ws < MAX_ARGS \<Longrightarrow>
  argv (foldl put_item cmd (map Arg ws)) = vs @ ws"
proof (induction ws arbitrary: cmd vs)
  case (Cons w ws)
  have "argc cmd < MAX_ARGS - 1" using Cons.prems length_argv by auto
  then have "command_inv (add_arg cmd w)" by (rule add_arg_inv [OF Cons.prems(2)])
  moreover have "argv (add_arg cmd w) = vs @ [w]" using argv_add_arg [OF Cons.prems(2)] Cons.prems(1) by simp
  ultimately show ?case using Cons.IH [of "add_arg cmd w" "vs @ [w]"] Cons.prems by (simp add: put_item_def)
qed simp

text \<open>The command of a segment of such words.\<close>

definition words_command :: "string list \<Rightarrow> command_t" where
  "words_command ws = foldl put_item empty_command (map Arg ws)"

lemma words_command_frame [simp]:
  "input_file (words_command ws) = None" "output_file (words_command ws) = None"
  "heredoc_delim (words_command ws) = None" "heredoc_fd (words_command ws) = -1"
  "\<not> cmd_background (words_command ws)"
proof -
  have "input_file (foldl put_item c (map Arg ws)) = input_file c \<and>
      output_file (foldl put_item c (map Arg ws)) = output_file c \<and>
      heredoc_delim (foldl put_item c (map Arg ws)) = heredoc_delim c \<and>
      heredoc_fd (foldl put_item c (map Arg ws)) = heredoc_fd c \<and>
      cmd_background (foldl put_item c (map Arg ws)) = cmd_background c" for c
    by (induction ws arbitrary: c) (simp_all add: put_item_def add_arg_def)
  then show "input_file (words_command ws) = None" "output_file (words_command ws) = None"
    "heredoc_delim (words_command ws) = None" "heredoc_fd (words_command ws) = -1"
    "\<not> cmd_background (words_command ws)"
    by (simp_all add: words_command_def empty_command_def command_zero_def)
qed

lemma spec_command_plain:
  assumes "\<forall>w \<in> set ws. plain_word w" "length ws < MAX_ARGS"
  shows "spec_command ws = Inr (words_command ws)" "argv (words_command ws) = ws"
    "command_inv (words_command ws)"
proof -
  show r: "spec_command ws = Inr (words_command ws)"
    using read_items_plain [of ws "MAX_ARGS - 1"] assms
    by (auto simp: spec_command_def plain_word_def words_command_def)
  show "argv (words_command ws) = ws"
    using put_args [of empty_command "[]" ws] assms(2) by (simp add: words_command_def)
  show "command_inv (words_command ws)" by (rule spec_command_facts(1) [OF r])
qed

lemma spec_stages_plain:
  assumes "map (strtok_all TOKEN_DELIMITERS) segs = wss" "length wss \<le> n"
    and "\<forall>ws \<in> set wss. ws \<noteq> [] \<and> length ws < MAX_ARGS \<and> (\<forall>w \<in> set ws. plain_word w)"
  shows "spec_stages n segs = Inr (map words_command wss)"
  using assms
proof (induction segs arbitrary: n wss)
  case (Cons seg segs)
  obtain ws wss' where wss: "wss = ws # wss'" "strtok_all TOKEN_DELIMITERS seg = ws"
    "map (strtok_all TOKEN_DELIMITERS) segs = wss'" using Cons.prems(1) by auto
  have ws: "\<forall>w \<in> set ws. plain_word w" "length ws < MAX_ARGS" "ws \<noteq> []"
    using Cons.prems(3) wss(1) by simp_all
  note cmd = spec_command_plain [OF ws(1,2)]
  have ne: "argc (words_command ws) > 0"
    using cmd(2) argv_eq_Nil [OF cmd(3)] ws(3) by (cases "argc (words_command ws) = 0") auto
  obtain m where m: "n = Suc m" "length wss' \<le> m" using Cons.prems(2) wss(1) by (cases n) auto
  have "spec_stages m segs = Inr (map words_command wss')"
    using Cons.IH [OF wss(3) m(2)] Cons.prems(3) wss(1) by auto
  then show ?case using cmd ne m(1) wss(1,2) by simp
qed simp

text \<open>A line of stages joined by a bar between blanks, with or without a blank in front.\<close>

lemma bar_tokens:
  assumes "wss \<noteq> []" "\<forall>ws \<in> set wss. ws \<noteq> [] \<and> (\<forall>w \<in> set ws. plain_word w)" "set pre \<subseteq> {CHR '' ''}"
    and "set post \<subseteq> set TOKEN_DELIMITERS"
  shows "map (strtok_all TOKEN_DELIMITERS)
      (strtok_all PIPE_DELIMITER (pre @ join '' | '' (map (join '' '') wss) @ post)) = wss"
  using assms(1-3)
proof (induction wss arbitrary: pre)
  case (Cons ws wss)
  have ws: "ws \<noteq> []" "\<forall>w \<in> set ws. plain_word w" using Cons.prems(2) by simp_all
  have blank: "CHR '' '' \<in> set TOKEN_DELIMITERS" "set pre \<subseteq> set TOKEN_DELIMITERS"
    using Cons.prems(3) by (auto simp: TOKEN_DELIMITERS_def)
  have words: "strtok_all TOKEN_DELIMITERS (pre @ join '' '' ws @ tail) = ws"
    if "set tail \<subseteq> set TOKEN_DELIMITERS" for tail
    using strtok_all_words [of ws TOKEN_DELIMITERS "CHR '' ''" tail] ws(2) blank that
    by (simp add: strtok_all_skip_all plain_word_def)
  have bar: "set (pre @ join '' '' ws) \<inter> set PIPE_DELIMITER = {}"
  proof -
    have "CHR ''|'' \<notin> set (join '' '' vs)" if "\<forall>w \<in> set vs. plain_word w" for vs
      using that by (cases vs) (auto simp: plain_word_def)
    then show ?thesis using ws(2) Cons.prems(3) by (auto simp: PIPE_DELIMITER_def)
  qed
  have post: "set post \<inter> set PIPE_DELIMITER = {}"
    using assms(4) by (auto simp: PIPE_DELIMITER_def TOKEN_DELIMITERS_def)
  have ne: "join '' '' ws \<noteq> []" using ws by (cases ws) (auto simp: plain_word_def)
  show ?case
  proof (cases wss)
    case Nil
    have "set (pre @ join '' '' ws @ post) \<inter> set PIPE_DELIMITER = {}" using bar post by auto
    from strtok_all_Some [OF strtok_r_last_word [OF _ this]]
    have "strtok_all PIPE_DELIMITER (pre @ join '' '' ws @ post) = [pre @ join '' '' ws @ post]"
      using ne by simp
    then show ?thesis using Nil words [OF assms(4)] by simp
  next
    case (Cons vs vss)
    let ?rest = "'' '' @ join '' | '' (map (join '' '') wss) @ post"
    have line: "pre @ join '' | '' (map (join '' '') (ws # wss)) @ post =
        (pre @ join '' '' ws @ '' '') @ CHR ''|'' # ?rest"
      by (simp add: Cons)
    have "set (pre @ join '' '' ws @ '' '') \<inter> set PIPE_DELIMITER = {}"
      using bar by (auto simp: PIPE_DELIMITER_def)
    then have "strtok_all PIPE_DELIMITER ((pre @ join '' '' ws @ '' '') @ CHR ''|'' # ?rest) =
        (pre @ join '' '' ws @ '' '') # strtok_all PIPE_DELIMITER ?rest"
      by (intro strtok_all_Some strtok_r_word) (simp_all add: PIPE_DELIMITER_def)
    moreover have "map (strtok_all TOKEN_DELIMITERS) (strtok_all PIPE_DELIMITER ?rest) = wss"
      using Cons.IH [of "'' ''"] Cons.prems(2) Cons by simp
    ultimately show ?thesis unfolding line using words [of "'' ''"] blank(1) by simp
  qed
qed simp

text \<open>
  Words joined by blanks into stages and the stages by bars, white space behind them: the line
  parses back to the commands of those words.
\<close>

lemma parse_words:
  assumes "wss \<noteq> []" "length wss \<le> MAX_COMMANDS"
    and "\<forall>ws \<in> set wss. ws \<noteq> [] \<and> length ws < MAX_ARGS \<and> (\<forall>w \<in> set ws. plain_word w)"
    and "set post \<subseteq> set TOKEN_DELIMITERS"
  obtains p where "parse_pipeline (join '' | '' (map (join '' '') wss) @ post) = Inr p"
    "stages p = map words_command wss" "map argv (stages p) = wss"
    "pipeline_inv p" "\<not> pl_background p"
proof -
  let ?line = "join '' | '' (map (join '' '') wss) @ post"
  have "map (strtok_all TOKEN_DELIMITERS) (strtok_all PIPE_DELIMITER ?line) = wss"
    using bar_tokens [OF assms(1) _ _ assms(4), of "[]"] assms(3) by simp
  then have "spec_pipeline ?line = Inr (map words_command wss)"
    using spec_stages_plain [OF _ assms(2,3)] by (simp add: spec_pipeline_def)
  then obtain p where p: "parse_pipeline ?line = Inr p" "stages p = map words_command wss"
    using parse_pipeline_facts(1) [of ?line] by (auto simp: map_sum_id_Inr)
  moreover have "map argv (map words_command wss) = wss"
    using assms(3) spec_command_plain(2) by (induction wss) auto
  moreover have "\<not> pl_background p"
    using parse_pipeline_facts(3) [OF p(1)] p(2) by (cases wss rule: rev_cases) auto
  ultimately show ?thesis using that parse_pipeline_facts(2) [OF p(1)] by simp
qed

section \<open>The correctness of the parser\<close>

text \<open>C5: on every line the parser computes the grammar: the line is split at the bars, each
  segment at its white space, the words of a segment are read as arguments, redirections,
  here-documents and background marks, and the commands with an argument are the stages; it
  reports a syntax error exactly when the grammar has one, and the same one.\<close>

theorem parse_pipeline_grammar: "map_sum id stages (parse_pipeline line) = spec_pipeline line"
  by (rule parse_pipeline_facts)

text \<open>C34: a parsed pipeline is within its arrays: at most 16 stages, each with at least one
  and at most 63 arguments followed by a NULL inside the array, none of which is an operator, with
  no here-document open yet; and it is in the background exactly when its last stage had an
  ampersand.\<close>

theorem parse_pipeline_wf:
  assumes "parse_pipeline line = Inr p"
  shows "pipeline_inv p \<and> length (stages p) \<le> 16 \<and>
    (\<forall>cmd \<in> set (stages p). 0 < argc cmd \<and> argc cmd \<le> 63 \<and> args cmd ! argc cmd = None \<and>
       length (args cmd) = 64 \<and> set (argv cmd) \<inter> operators = {} \<and> heredoc_fd cmd = -1) \<and>
    pl_background p = (stages p \<noteq> [] \<and> cmd_background (last (stages p)))"
proof -
  have inv: "pipeline_inv p" by (rule parse_pipeline_facts(2) [OF assms])
  have ops: "set (argv cmd) \<inter> operators = {}" if "cmd \<in> set (stages p)" for cmd
  proof -
    have "spec_stages n segs = Inr cmds \<Longrightarrow> cmd \<in> set cmds \<Longrightarrow> \<exists>ws. spec_command ws = Inr cmd" for n segs cmds
    proof (induction segs arbitrary: n cmds)
      case (Cons seg segs)
      then show ?case
        by (auto split: if_splits sum.splits)
    qed simp
    moreover have "spec_stages MAX_COMMANDS (strtok_all PIPE_DELIMITER line) = Inr (stages p)"
      using parse_pipeline_facts(1) [of line] assms by (simp add: spec_pipeline_def)
    ultimately show ?thesis using spec_command_facts(2) that by blast
  qed
  have "args cmd ! argc cmd = None" "length (args cmd) = 64" "0 < argc cmd" "argc cmd \<le> 63"
    if "cmd \<in> set (stages p)" for cmd
    using stages_inv [OF inv that] by (auto simp: command_inv_def MAX_ARGS_def)
  moreover have "length (stages p) \<le> 16"
    using inv by (auto simp: length_stages pipeline_inv_def MAX_COMMANDS_def)
  ultimately show ?thesis
    using inv ops parse_pipeline_heredoc [OF assms] parse_pipeline_facts(3) [OF assms] by simp
qed

theorem parse_pipeline_wf_witness:
  "\<exists>p. parse_pipeline ''ls'' = Inr p \<and> length (stages p) \<le> 16"
proof -
  have "isl (parse_pipeline ''ls'') = False" by code_simp
  then obtain p where "parse_pipeline ''ls'' = Inr p" by (cases "parse_pipeline ''ls''") auto
  then show ?thesis using parse_pipeline_wf by blast
qed

end
