(* ===== verification/History.thy ===== *)
theory History
  imports Clib "HOL-Library.Signed_Division"
begin

text \<open>
  The command history (history.h, history.c): a ring buffer of the last HISTORY\_CAPACITY
  command lines with a running total for the displayed numbers. The record has the fields of
  \<open>history_t\<close>; a slot is the malloc'd copy or NULL, and the counters are C ints. The
  abstraction of a ring is the list of its lines, oldest first, and the laws of that list are
  the locale \<open>recent_log\<close>, which the record model is shown to satisfy.
\<close>

section \<open>The ring buffer\<close>

definition HISTORY_CAPACITY :: int where
  "HISTORY_CAPACITY = 1000"

record history_t =
  entries :: "string option list"
  hist_size :: int
  hist_next :: int
  hist_total :: int

text \<open>The all-zero struct of \<open>shell_state_t state = {0}\<close>.\<close>

definition history_zero :: history_t where
  "history_zero = \<lparr>entries = replicate (nat HISTORY_CAPACITY) None,
     hist_size = 0, hist_next = 0, hist_total = 0\<rparr>"

fun is_blank :: "string \<Rightarrow> bool" where
  "is_blank [] = True"
| "is_blank (c # cs) = (if \<not> isspace c then False else is_blank cs)"

text \<open>The loop that shortens the copy while its last character is white space.\<close>

fun trim_len :: "string \<Rightarrow> nat \<Rightarrow> nat" where
  "trim_len s 0 = 0"
| "trim_len s (Suc n) = (if isspace (s ! n) then trim_len s n else Suc n)"

definition trim_trailing :: "string \<Rightarrow> string" where
  "trim_trailing s = take (trim_len s (length s)) s"

text \<open>The flag says whether \<open>strdup\<close> gets its memory.\<close>

definition history_add :: "bool \<Rightarrow> history_t \<Rightarrow> string option \<Rightarrow> history_t" where
  "history_add strdup_ok h line =
     (case line of
        None \<Rightarrow> h
      | Some s \<Rightarrow>
          if is_blank s then h
          else if \<not> strdup_ok then h
          else h\<lparr>entries := (entries h)[nat (hist_next h) := Some (trim_trailing s)],
                 hist_next := (hist_next h + 1) smod HISTORY_CAPACITY,
                 hist_size := (if hist_size h < HISTORY_CAPACITY then hist_size h + 1
                               else hist_size h),
                 hist_total := hist_total h + 1\<rparr>)"

definition history_format :: "int \<Rightarrow> string \<Rightarrow> string" where
  "history_format number entry = pad_left 5 (dec_int number) @ ''  '' @ entry @ [NL]"

text \<open>
  One line of the listing; printing a NULL entry would be undefined, which is None here.
\<close>

definition history_line :: "history_t \<Rightarrow> nat \<Rightarrow> string option" where
  "history_line h i =
     (let oldest = (hist_next h - hist_size h + HISTORY_CAPACITY) smod HISTORY_CAPACITY;
          first_number = hist_total h - hist_size h + 1;
          idx = (oldest + int i) smod HISTORY_CAPACITY
      in map_option (history_format (first_number + int i)) (entries h ! nat idx))"

definition history_print :: "history_t \<Rightarrow> string list option" where
  "history_print h = those (map (history_line h) [0..<nat (hist_size h)])"

definition history_free :: "history_t \<Rightarrow> history_t" where
  "history_free h = h\<lparr>entries := map (\<lambda>_. None) (entries h),
     hist_size := 0, hist_next := 0, hist_total := 0\<rparr>"

section \<open>Invariant and abstraction\<close>

text \<open>
  The ring is either not yet full, with the cursor behind the last line, or full, with the
  cursor on the oldest line.
\<close>

definition history_inv :: "history_t \<Rightarrow> bool" where
  "history_inv h \<longleftrightarrow>
     length (entries h) = nat HISTORY_CAPACITY \<and>
     0 \<le> hist_next h \<and> hist_next h < HISTORY_CAPACITY \<and>
     0 \<le> hist_size h \<and> hist_size h \<le> HISTORY_CAPACITY \<and>
     hist_size h \<le> hist_total h \<and>
     (hist_size h < HISTORY_CAPACITY \<longrightarrow> hist_next h = hist_size h) \<and>
     (\<forall>i < nat (hist_size h). entries h ! i \<noteq> None) \<and>
     (\<forall>i < nat HISTORY_CAPACITY. nat (hist_size h) \<le> i \<longrightarrow> entries h ! i = None)"

definition history_list :: "history_t \<Rightarrow> string list" where
  "history_list h = map the
     (if hist_size h < HISTORY_CAPACITY then take (nat (hist_size h)) (entries h)
      else drop (nat (hist_next h)) (entries h) @ take (nat (hist_next h)) (entries h))"

definition history_keep :: "string \<Rightarrow> string list" where
  "history_keep s = (if is_blank s then [] else [trim_trailing s])"

lemma capacity_pos [simp]: "0 < HISTORY_CAPACITY" "0 \<le> HISTORY_CAPACITY"
  by (simp_all add: HISTORY_CAPACITY_def)

lemma capacity_nat_pos [simp]: "Suc 0 \<le> nat HISTORY_CAPACITY" "Suc 0 - nat HISTORY_CAPACITY = 0"
  by (simp_all add: HISTORY_CAPACITY_def)

lemma smod_nonneg: "0 \<le> (a::int) \<Longrightarrow> 0 < b \<Longrightarrow> a smod b = a mod b"
  by (cases "a = 0") (simp_all add: signed_modulo_int_def signed_divide_int_def minus_div_mult_eq_mod)

lemma is_blank_iff: "is_blank s \<longleftrightarrow> (\<forall>c \<in> set s. isspace c)"
  by (induction s) auto

lemma trim_len_le: "trim_len s n \<le> n"
  by (induction n) auto

lemma trim_trailing_eq: "trim_trailing s = rev (dropWhile isspace (rev s))"
proof -
  have "n \<le> length s \<Longrightarrow> take (trim_len s n) s = rev (dropWhile isspace (rev (take n s)))" for n
    by (induction n) (auto simp: take_Suc_conv_app_nth)
  then show ?thesis by (simp add: trim_trailing_def)
qed

lemma history_inv_zero: "history_inv history_zero"
  by (simp add: history_inv_def history_zero_def)

lemma history_list_zero: "history_list history_zero = []"
  by (simp add: history_list_def history_zero_def)

lemma history_add_blank: "is_blank s \<Longrightarrow> history_add ok h (Some s) = h"
  by (simp add: history_add_def)

lemma history_next_mod:
  "history_inv h \<Longrightarrow> (hist_next h + 1) smod HISTORY_CAPACITY =
     (if hist_next h + 1 = HISTORY_CAPACITY then 0 else hist_next h + 1)"
  by (auto simp: history_inv_def smod_nonneg)

lemma history_add_inv:
  assumes inv: "history_inv h"
  shows "history_inv (history_add ok h line)"
proof (cases line)
  case None
  with inv show ?thesis by (simp add: history_add_def)
next
  case (Some s)
  have slots: "(entries h)[nat (hist_next h) := Some t] ! i \<noteq> None"
    if "i < nat (if hist_size h < HISTORY_CAPACITY then hist_size h + 1 else hist_size h)" for i t
    using that inv by (cases "i = nat (hist_next h)") (auto simp: history_inv_def split: if_splits)
  have empty: "(entries h)[nat (hist_next h) := Some t] ! i = None"
    if "i < nat HISTORY_CAPACITY"
       "nat (if hist_size h < HISTORY_CAPACITY then hist_size h + 1 else hist_size h) \<le> i" for i t
    using that inv by (cases "i = nat (hist_next h)") (auto simp: history_inv_def split: if_splits)
  show ?thesis
    using Some inv slots empty history_next_mod [OF inv]
    by (auto simp: history_add_def history_inv_def)
qed

text \<open>A line that is kept, in a ring that is not full and in one that is.\<close>

lemma history_add_growing:
  assumes inv: "history_inv h" and "\<not> is_blank s" and less: "hist_size h < HISTORY_CAPACITY"
  shows "history_list (history_add True h (Some s)) = history_list h @ [trim_trailing s]"
proof -
  let ?es = "entries h" and ?n = "nat (hist_next h)" and ?t = "Some (trim_trailing s)"
  have len: "length ?es = nat HISTORY_CAPACITY" and n: "?n < length ?es"
    and size: "hist_size h = hist_next h" using inv less by (auto simp: history_inv_def)
  have m: "nat (hist_next h + 1) = Suc ?n" using inv by (simp add: history_inv_def nat_add_distrib)
  have old: "history_list h = map the (take ?n ?es)" using less size by (simp add: history_list_def)
  show ?thesis
  proof (cases "hist_next h + 1 = HISTORY_CAPACITY")
    case True
    then have "Suc ?n = length ?es" using len m by simp
    then show ?thesis
      using True size assms(2,3) m history_next_mod [OF inv] update_last_slot [of ?n ?es ?t] old
      by (simp add: history_list_def history_add_def)
  next
    case False
    then have "hist_size h + 1 < HISTORY_CAPACITY" using less size by simp
    then show ?thesis
      using assms(2,3) size m take_Suc_update [OF n, of ?t] old
      by (simp add: history_list_def history_add_def)
  qed
qed

lemma history_add_full:
  assumes inv: "history_inv h" and "\<not> is_blank s" and full: "\<not> hist_size h < HISTORY_CAPACITY"
  shows "history_list (history_add True h (Some s)) = tl (history_list h) @ [trim_trailing s]"
proof -
  let ?es = "entries h" and ?n = "nat (hist_next h)" and ?t = "Some (trim_trailing s)"
  have len: "length ?es = nat HISTORY_CAPACITY" and n: "?n < length ?es"
    and size: "hist_size h = HISTORY_CAPACITY" using inv full by (auto simp: history_inv_def)
  have old: "history_list h = map the (drop ?n ?es @ take ?n ?es)" using full by (simp add: history_list_def)
  have "history_list (history_add True h (Some s)) = map the (tl (drop ?n ?es) @ take ?n ?es @ [?t])"
  proof (cases "hist_next h + 1 = HISTORY_CAPACITY")
    case True
    then have "Suc ?n = length ?es" using len inv by (auto simp: history_inv_def)
    then show ?thesis
      using assms(2) full True size history_next_mod [OF inv] update_last_slot [of ?n ?es ?t]
      by (simp add: history_list_def history_add_def tl_drop)
  next
    case False
    have "nat (hist_next h + 1) = Suc ?n" using inv by (simp add: history_inv_def nat_add_distrib)
    then show ?thesis
      using assms(2) full False size history_next_mod [OF inv] drop_update_take [OF n, of ?t]
      by (simp add: history_list_def history_add_def flip: map_append)
  qed
  also have "\<dots> = tl (history_list h) @ [trim_trailing s]"
    using n unfolding old by (cases "drop ?n ?es") auto
  finally show ?thesis .
qed

lemma history_add_list:
  assumes inv: "history_inv h"
  shows "history_list (history_add True h (Some s)) =
           last_n (nat HISTORY_CAPACITY) (history_list h @ history_keep s)"
proof (cases "is_blank s")
  case True
  have "length (history_list h) \<le> nat HISTORY_CAPACITY"
    using inv by (auto simp: history_list_def history_inv_def)
  with True show ?thesis by (simp add: history_add_def history_keep_def last_n_short)
next
  case kept: False
  have len: "length (history_list h) = nat (hist_size h)"
    using inv by (auto simp: history_list_def history_inv_def)
  show ?thesis
  proof (cases "hist_size h < HISTORY_CAPACITY")
    case True
    then have "length (history_list h @ [trim_trailing s]) \<le> nat HISTORY_CAPACITY"
      using len inv by (simp add: history_inv_def Suc_le_eq nat_less_eq_zless)
    then show ?thesis
      using history_add_growing [OF inv kept True] kept by (simp add: history_keep_def last_n_short)
  next
    case False
    then have "length (history_list h) = nat HISTORY_CAPACITY" using len inv by (simp add: history_inv_def)
    then show ?thesis
      using history_add_full [OF inv kept False] kept capacity_pos(1) by (cases "history_list h") (simp_all add: history_keep_def last_n_def)
  qed
qed

lemma history_total_add:
  "hist_total (history_add True h (Some s)) = hist_total h + int (length (history_keep s))"
  by (simp add: history_add_def history_keep_def)

lemma length_history_list: "history_inv h \<Longrightarrow> length (history_list h) = nat (hist_size h)"
  by (auto simp: history_list_def history_inv_def)

section \<open>The listing\<close>

lemma wrapped_slot:
  assumes "i < length es" "n < length es"
  shows "nat ((int n + int i) mod int (length es)) = (if n + i < length es then n + i else n + i - length es)"
proof -
  have "(int n + int i) mod int (length es) = int ((n + i) mod length es)" by (simp add: zmod_int)
  then show ?thesis using assms by (simp add: mod_wrap)
qed

lemma history_slot:
  assumes inv: "history_inv h" and i: "i < nat (hist_size h)"
  shows "entries h ! nat (((hist_next h - hist_size h + HISTORY_CAPACITY) smod HISTORY_CAPACITY
           + int i) smod HISTORY_CAPACITY) = Some (history_list h ! i)"
proof -
  let ?es = "entries h"
  have len: "length ?es = nat HISTORY_CAPACITY" using inv by (simp add: history_inv_def)
  have some: "?es ! k \<noteq> None" if "k < nat (hist_size h)" for k
    using that inv by (simp add: history_inv_def)
  define old where "old = (hist_next h - hist_size h + HISTORY_CAPACITY) mod HISTORY_CAPACITY"
  have old: "(hist_next h - hist_size h + HISTORY_CAPACITY) smod HISTORY_CAPACITY = old"
    using inv by (auto simp: old_def history_inv_def smod_nonneg)
  have idx: "(old + int i) smod HISTORY_CAPACITY = (old + int i) mod HISTORY_CAPACITY"
    by (simp add: smod_nonneg old_def)
  show ?thesis
  proof (cases "hist_size h < HISTORY_CAPACITY")
    case True
    then have "old = 0" using inv by (simp add: old_def history_inv_def)
    then have "nat ((old + int i) mod HISTORY_CAPACITY) = i"
      using i True by (simp add: mod_pos_pos_trivial)
    then show ?thesis
      using True i len some [OF i] unfolding old idx by (auto simp: history_list_def)
  next
    case False
    define n where "n = nat (hist_next h)"
    have size: "hist_size h = HISTORY_CAPACITY" and nx: "hist_next h = int n" "n < length ?es"
      using inv False len by (auto simp: history_inv_def n_def)
    have i': "i < length ?es" using i size len by simp
    have "old = int n" using nx len by (simp add: old_def size mod_pos_pos_trivial nat_less_iff)
    moreover have "HISTORY_CAPACITY = int (length ?es)" using len by simp
    ultimately have wrap: "nat ((old + int i) mod HISTORY_CAPACITY) =
        (if n + i < length ?es then n + i else n + i - length ?es)"
      using wrapped_slot [OF i' nx(2)] by simp
    have "history_list h ! i = (drop n (map the ?es) @ take n (map the ?es)) ! i"
      using False by (simp add: history_list_def n_def drop_map take_map)
    also have "\<dots> = the (?es ! nat ((old + int i) mod HISTORY_CAPACITY))"
      using rotate_nth [of n "map the ?es" i] nx(2) i' unfolding wrap by (cases "n + i < length ?es") simp_all
    finally have "history_list h ! i = the (?es ! nat ((old + int i) mod HISTORY_CAPACITY))" .
    moreover have "?es ! nat ((old + int i) mod HISTORY_CAPACITY) \<noteq> None"
      by (rule some) (simp add: size nat_less_iff)
    ultimately show ?thesis unfolding old idx by simp
  qed
qed

lemma those_map_Some: "(\<And>x. x \<in> set xs \<Longrightarrow> f x = Some (g x)) \<Longrightarrow> those (map f xs) = Some (map g xs)"
  by (induction xs) auto

lemma history_print_list:
  assumes inv: "history_inv h"
  shows "history_print h = Some (map
           (\<lambda>i. history_format (hist_total h - hist_size h + 1 + int i) (history_list h ! i))
           [0..<length (history_list h)])"
proof -
  have "history_line h i =
          Some (history_format (hist_total h - hist_size h + 1 + int i) (history_list h ! i))"
    if "i < nat (hist_size h)" for i
    using history_slot [OF inv that] by (simp add: history_line_def Let_def)
  then show ?thesis
    unfolding history_print_def length_history_list [OF inv]
    by (intro those_map_Some) simp
qed

lemma history_free_zero:
  "length (entries h) = nat HISTORY_CAPACITY \<Longrightarrow> history_free h = history_zero"
  by (simp add: history_free_def history_zero_def map_replicate_const)

section \<open>The interface of a bounded log\<close>

text \<open>
  A client that only appends sees a log through the list of what it holds: an append adds what
  the log keeps of the item and drops the oldest beyond the capacity. From the two laws, the
  contents after any sequence of appends are the last \<open>cap\<close> kept items ever given.
\<close>

locale recent_log = step_system add inv
  for add :: "'s \<Rightarrow> 'a \<Rightarrow> 's"
    and inv :: "'s \<Rightarrow> bool" +
  fixes contents :: "'s \<Rightarrow> 'b list"
    and keep :: "'a \<Rightarrow> 'b list"
    and cap :: nat
    and count :: "'s \<Rightarrow> int"
  assumes contents_add: "inv s \<Longrightarrow> contents (add s x) = last_n cap (contents s @ keep x)"
    and count_add: "inv s \<Longrightarrow> count (add s x) = count s + int (length (keep x))"
begin

lemma contents_adds:
  "inv s \<Longrightarrow> contents s = last_n cap (contents s) \<Longrightarrow>
     contents (foldl add s xs) = last_n cap (contents s @ concat (map keep xs))"
proof (induction xs arbitrary: s)
  case Nil
  then show ?case by simp
next
  case (Cons x xs)
  have "contents (add s x) = last_n cap (contents (add s x))"
    using last_n_last_n_append [of cap "contents s @ keep x" "[]"] Cons.prems(1)
    by (simp add: contents_add)
  then have "contents (foldl add s (x # xs)) =
      last_n cap (contents (add s x) @ concat (map keep xs))"
    using Cons.IH [of "add s x"] Cons.prems(1) by (simp add: step_inv)
  then show ?case using Cons.prems(1) by (simp add: contents_add)
qed

lemma count_adds: "inv s \<Longrightarrow> count (foldl add s xs) = count s + int (length (concat (map keep xs)))"
proof (induction xs arbitrary: s)
  case (Cons x xs)
  then show ?case using step_inv [OF Cons.prems, of x] by (simp add: count_add)
qed simp

end

definition history_record :: "history_t \<Rightarrow> string \<Rightarrow> history_t" where
  "history_record h s = history_add True h (Some s)"

interpretation hist: recent_log history_record history_inv history_list history_keep
    "nat HISTORY_CAPACITY" hist_total
  by unfold_locales
    (simp_all add: history_record_def history_add_inv history_add_list history_total_add)

section \<open>The correctness of the history\<close>


text \<open>
  The listing numbers the lines by their position among all lines ever recorded.
\<close>

lemma last_n_nth: "i < min n (length xs) \<Longrightarrow> last_n n xs ! i = xs ! (length xs - min n (length xs) + i)"
  by (auto simp: last_n_def min_def)

lemma listing_enumerate:
  assumes inv: "history_inv h"
    and xs: "history_list h = last_n (nat HISTORY_CAPACITY) xs" "hist_total h = int (length xs)"
  shows "history_print h = Some (map (\<lambda>(k, s). history_format (int k) s)
           (last_n (nat HISTORY_CAPACITY) (enumerate 1 xs)))"
proof -
  let ?n = "nat HISTORY_CAPACITY"
  define d where "d = length xs - min ?n (length xs)"
  have sz: "hist_size h = int (min ?n (length xs))"
    using length_history_list [OF inv] xs(1) inv by (simp add: history_inv_def)
  then have first: "hist_total h - hist_size h = int d" using xs(2) by (simp add: d_def of_nat_diff)
  have "map (\<lambda>i. history_format (hist_total h - hist_size h + 1 + int i) (history_list h ! i))
          [0..<length (history_list h)] =
        map (\<lambda>(k, s). history_format (int k) s) (last_n ?n (enumerate 1 xs))" (is "?l = ?r")
  proof (rule nth_equalityI)
    show "length ?l = length ?r" using xs(1) by simp
    fix i assume "i < length ?l"
    then have i: "i < min ?n (length xs)" using xs(1) by simp
    then have "last_n ?n (enumerate 1 xs) ! i = (1 + (d + i), xs ! (d + i))"
      using last_n_nth [of i ?n "enumerate 1 xs"] nth_enumerate_eq [of "d + i" xs 1]
      by (auto simp: d_def)
    moreover have "last_n ?n xs ! i = xs ! (d + i)" using last_n_nth [OF i] by (simp add: d_def)
    ultimately show "?l ! i = ?r ! i" using i xs(1) first by (simp add: ac_simps)
  qed
  then show ?thesis using history_print_list [OF inv] by simp
qed

text \<open>The \<open>history\<close> command prints those lines, and the number in front of each is its
  position among all lines recorded since the shell started, counted from 1, also after the ring
  has wrapped; no empty slot is read.\<close>

lemma history_listing:
  "let kept = map trim_trailing (filter (\<lambda>s. \<not> is_blank s) lines)
   in history_print (foldl history_record history_zero lines) =
        Some (map (\<lambda>(k, s). history_format (int k) s)
                (last_n (nat HISTORY_CAPACITY) (enumerate 1 kept)))"
proof -
  have keep: "concat (map history_keep lines) = map trim_trailing (filter (\<lambda>s. \<not> is_blank s) lines)"
    by (induction lines) (simp_all add: history_keep_def)
  show ?thesis
    using listing_enumerate [OF hist.steps_inv [OF history_inv_zero], of lines]
      hist.contents_adds [OF history_inv_zero, of lines] hist.count_adds [OF history_inv_zero, of lines]
    by (simp add: keep history_list_zero history_zero_def [THEN arg_cong, of hist_total])
qed

end
