(* ===== verification/Posix.thy ===== *)
theory Posix
  imports Clib
begin

unbundle bit_operations_syntax

text \<open>
  The system interface the shell runs on. What a process owns (descriptor table, environment,
  working directory, signal mask and dispositions, the terminal's foreground group) is explicit
  state in the record \<open>world\<close>, changed the way POSIX documents each call. What the
  kernel decides (whether a call succeeds, the pids it hands out, the statuses it reports, the
  names a pattern matches) is a parameter: the record \<open>kernel\<close> of answers. An answer may
  depend on everything the process did so far, because every call is appended to the trace that
  the answers are given.
\<close>

section \<open>Signals\<close>

datatype signal =
  SIGINT | SIGQUIT | SIGTERM | SIGCHLD | SIGCONT | SIGTSTP | SIGTTIN | SIGTTOU

text \<open>The numbers of the Linux ABI.\<close>

primrec signum :: "signal \<Rightarrow> int" where
  "signum SIGINT = 2"
| "signum SIGQUIT = 3"
| "signum SIGTERM = 15"
| "signum SIGCHLD = 17"
| "signum SIGCONT = 18"
| "signum SIGTSTP = 20"
| "signum SIGTTIN = 21"
| "signum SIGTTOU = 22"

lemma signum_inj: "signum s = signum t \<longleftrightarrow> s = t"
  by (cases s; cases t) simp_all

text \<open>Signals are ordered by their number, so that sets of signals are finite linear orders.\<close>

instantiation signal :: linorder
begin

definition less_eq_signal :: "signal \<Rightarrow> signal \<Rightarrow> bool" where
  "less_eq_signal s t \<longleftrightarrow> signum s \<le> signum t"

definition less_signal :: "signal \<Rightarrow> signal \<Rightarrow> bool" where
  "less_signal s t \<longleftrightarrow> signum s < signum t"

instance
  by standard (auto simp: less_eq_signal_def less_signal_def signum_inj)

end

text \<open>A handler is installed with the flags of its \<open>struct sigaction\<close>.\<close>

datatype sa_flag = SA_RESTART | SA_NOCLDSTOP

datatype disposition = SIG_DFL | SIG_IGN | SIG_HANDLER "sa_flag list"

section \<open>The status word of waitpid\<close>

text \<open>The macros of sys/wait.h on the packed word, as glibc defines them.\<close>

type_synonym wstatus = "32 word"

definition WTERMSIG :: "wstatus \<Rightarrow> int" where
  "WTERMSIG s = uint (s AND 0x7F)"

definition WIFEXITED :: "wstatus \<Rightarrow> bool" where
  "WIFEXITED s = (WTERMSIG s = 0)"

definition WEXITSTATUS :: "wstatus \<Rightarrow> int" where
  "WEXITSTATUS s = uint (drop_bit 8 (s AND 0xFF00))"

definition WIFSIGNALED :: "wstatus \<Rightarrow> bool" where
  "WIFSIGNALED s = (0 < sint (word_of_int (uint (s AND 0x7F) + 1) :: 8 word) div 2)"

definition WIFSTOPPED :: "wstatus \<Rightarrow> bool" where
  "WIFSTOPPED s = (s AND 0xFF = 0x7F)"

definition WSTOPSIG :: "wstatus \<Rightarrow> int" where
  "WSTOPSIG s = WEXITSTATUS s"

text \<open>How the kernel packs the three kinds of status.\<close>

definition exit_word :: "nat \<Rightarrow> wstatus" where
  "exit_word code = push_bit 8 (of_nat code)"

definition signal_word :: "nat \<Rightarrow> wstatus" where
  "signal_word sig = of_nat sig"

definition stop_word :: "nat \<Rightarrow> wstatus" where
  "stop_word sig = push_bit 8 (of_nat sig) OR 0x7F"

section \<open>Open files\<close>

text \<open>
  An open file description: what the process was started with, an end of a numbered pipe, a
  file opened for reading or for writing with its flags, or a here-document's unlinked file.
\<close>

datatype open_flag = O_RDONLY | O_WRONLY | O_CREAT | O_APPEND | O_TRUNC

datatype ofile =
    Inherited nat
  | PipeR nat
  | PipeW nat
  | OpenFile string "open_flag list"
  | TempFile string nat

text \<open>A slot of the descriptor table: an open file and its close-on-exec flag.\<close>

type_synonym fdtab = "(ofile \<times> bool) option list"

section \<open>Calls, the kernel's answers, and a process\<close>

datatype event =
    Print string
  | Flush
  | PrintErr string
  | SysRead
  | SysPipe
  | SysFork int
  | SysSetpgid int int
  | SysTcsetpgrp int int
  | SysWait int
  | SysReaped "(int \<times> wstatus) list"
  | SysKill int signal
  | SysOpen string "open_flag list" "nat option"
  | SysMkstemp
  | SysWrite string
  | SysChdir string
  | SysExec "string list"
  | SysSigaction signal disposition

text \<open>
  The answers. A failing call gives the text \<open>strerror\<close> has for its errno. \<open>k_wait\<close> is the
  sequence of (pid, status) pairs that repeated calls \<open>waitpid(-pgid, ., WUNTRACED)\<close> return
  before they fail with ECHILD, \<open>k_reap\<close> the sequence that repeated calls
  \<open>waitpid(-1, ., WNOHANG)\<close> return before they give 0 or fail; both are finite, since each
  child's termination is reported once. \<open>k_malloc\<close> says whether an allocation succeeds.
\<close>

record kernel =
  k_malloc :: "event list \<Rightarrow> nat \<Rightarrow> bool"
  k_pipe :: "event list \<Rightarrow> string option"
  k_fork :: "event list \<Rightarrow> string + int"
  k_wait :: "event list \<Rightarrow> int \<Rightarrow> (int \<times> wstatus) list"
  k_reap :: "event list \<Rightarrow> (int \<times> wstatus) list"
  k_kill :: "event list \<Rightarrow> int \<Rightarrow> signal \<Rightarrow> string option"
  k_open :: "event list \<Rightarrow> string \<Rightarrow> open_flag list \<Rightarrow> string option"
  k_mkstemp :: "event list \<Rightarrow> string option"
  k_write :: "event list \<Rightarrow> string \<Rightarrow> string + nat"
  k_chdir :: "event list \<Rightarrow> string \<Rightarrow> string + string"
  k_exec :: "event list \<Rightarrow> string list \<Rightarrow> string option"
  k_glob :: "event list \<Rightarrow> string \<Rightarrow> string list option"
  k_isatty :: "int \<Rightarrow> bool"
  k_getpid :: int
  k_getpgrp :: int

record world =
  w_fds :: fdtab
  w_pipes :: nat
  w_env :: "string \<rightharpoonup> string"
  w_cwd :: string
  w_mask :: "signal set"
  w_disp :: "signal \<Rightarrow> disposition"
  w_tty :: int
  w_stdin :: "string list"
  w_trace :: "event list"

definition emit :: "event \<Rightarrow> world \<Rightarrow> world" where
  "emit e w = w\<lparr>w_trace := w_trace w @ [e]\<rparr>"

definition print_lines :: "string list \<Rightarrow> world \<Rightarrow> world" where
  "print_lines ls w = foldl (\<lambda>w l. emit (Print l) w) w ls"

section \<open>Descriptors\<close>

definition lowest_free :: "fdtab \<Rightarrow> nat option" where
  "lowest_free t = first_index (\<lambda>e. e = None) t"

definition valid_fd :: "int \<Rightarrow> fdtab \<Rightarrow> bool" where
  "valid_fd fd t = (0 \<le> fd \<and> nat fd < length t \<and> t ! nat fd \<noteq> None)"

definition fd_close :: "int \<Rightarrow> fdtab \<Rightarrow> fdtab" where
  "fd_close fd t = (if valid_fd fd t then t[nat fd := None] else t)"

text \<open>
  \<open>dup2\<close>: nothing on a bad descriptor or when the two are equal; otherwise the new descriptor
  is closed first if open, and refers to the same file without close-on-exec.
\<close>

definition fd_dup2 :: "int \<Rightarrow> int \<Rightarrow> fdtab \<Rightarrow> fdtab" where
  "fd_dup2 old new t =
     (if valid_fd old t \<and> 0 \<le> new \<and> nat new < length t \<and> old \<noteq> new
      then t[nat new := Some (fst (the (t ! nat old)), False)] else t)"

definition sys_close :: "int \<Rightarrow> world \<Rightarrow> world" where
  "sys_close fd w = w\<lparr>w_fds := fd_close fd (w_fds w)\<rparr>"

definition sys_dup2 :: "int \<Rightarrow> int \<Rightarrow> world \<Rightarrow> world" where
  "sys_dup2 old new w = w\<lparr>w_fds := fd_dup2 old new (w_fds w)\<rparr>"

text \<open>\<open>fcntl(fd, F_SETFD, FD_CLOEXEC)\<close>.\<close>

definition sys_set_cloexec :: "int \<Rightarrow> world \<Rightarrow> world" where
  "sys_set_cloexec fd w =
     (if valid_fd fd (w_fds w)
      then w\<lparr>w_fds := (w_fds w)[nat fd := Some (fst (the (w_fds w ! nat fd)), True)]\<rparr> else w)"

text \<open>The errno text of a full descriptor table.\<close>

definition EMFILE :: string where
  "EMFILE = ''Too many open files''"

text \<open>A pipe takes the two lowest free descriptors, read end first.\<close>

definition sys_pipe :: "kernel \<Rightarrow> world \<Rightarrow> (string + int \<times> int) \<times> world" where
  "sys_pipe K w =
     (let w1 = emit SysPipe w
      in case k_pipe K (w_trace w) of
           Some err \<Rightarrow> (Inl err, w1)
         | None \<Rightarrow>
           (case lowest_free (w_fds w) of
              None \<Rightarrow> (Inl EMFILE, w1)
            | Some r \<Rightarrow>
              (let t1 = (w_fds w)[r := Some (PipeR (w_pipes w), False)]
               in case lowest_free t1 of
                    None \<Rightarrow> (Inl EMFILE, w1)
                  | Some s \<Rightarrow>
                    (Inr (int r, int s),
                     w1\<lparr>w_fds := t1[s := Some (PipeW (w_pipes w), False)],
                        w_pipes := Suc (w_pipes w)\<rparr>))))"

text \<open>\<open>open\<close>, with the mode of a file it creates where the call gives one.\<close>

definition sys_open ::
  "kernel \<Rightarrow> string \<Rightarrow> open_flag list \<Rightarrow> nat option \<Rightarrow> world \<Rightarrow> (string + int) \<times> world" where
  "sys_open K path flags mode w =
     (let w1 = emit (SysOpen path flags mode) w
      in case k_open K (w_trace w) path flags of
           Some err \<Rightarrow> (Inl err, w1)
         | None \<Rightarrow>
           (case lowest_free (w_fds w) of
              None \<Rightarrow> (Inl EMFILE, w1)
            | Some n \<Rightarrow>
              (Inr (int n), w1\<lparr>w_fds := (w_fds w)[n := Some (OpenFile path flags, False)]\<rparr>)))"

text \<open>A successful exec closes the descriptors marked close-on-exec.\<close>

definition exec_fds :: "fdtab \<Rightarrow> fdtab" where
  "exec_fds t = map (\<lambda>e. case e of Some (f, True) \<Rightarrow> None | _ \<Rightarrow> e) t"

section \<open>Signal mask, dispositions, terminal, standard input\<close>

definition sys_sigaction :: "signal \<Rightarrow> disposition \<Rightarrow> world \<Rightarrow> world" where
  "sys_sigaction s d w =
     emit (SysSigaction s d) (w\<lparr>w_disp := (w_disp w)(s := d)\<rparr>)"

definition sys_tcsetpgrp :: "int \<Rightarrow> int \<Rightarrow> world \<Rightarrow> world" where
  "sys_tcsetpgrp fd pgid w = emit (SysTcsetpgrp fd pgid) (w\<lparr>w_tty := pgid\<rparr>)"

text \<open>
  A read fails with EINTR when a signal's handler runs meanwhile and was installed without
  SA_RESTART. Here that signal is SIGCHLD, the only one the shell handles.
\<close>

definition interrupts :: "kernel \<Rightarrow> world \<Rightarrow> bool" where
  "interrupts K w \<longleftrightarrow> SIGCHLD \<notin> w_mask w \<and> k_reap K (w_trace w) \<noteq> [] \<and>
     (case w_disp w SIGCHLD of SIG_HANDLER flags \<Rightarrow> SA_RESTART \<notin> set flags | _ \<Rightarrow> False)"

text \<open>\<open>getline\<close>: the next line with its newline, None at end of file and when interrupted.\<close>

definition sys_getline :: "bool \<Rightarrow> world \<Rightarrow> string option \<times> world" where
  "sys_getline interrupted w =
     (let w1 = emit SysRead w
      in if interrupted then (None, w1)
         else case w_stdin w of
           [] \<Rightarrow> (None, w1)
         | l # ls \<Rightarrow> (Some l, w1\<lparr>w_stdin := ls\<rparr>))"

text \<open>
  \<open>setenv\<close> with overwriting: it refuses an empty name and one with '=', and fails without memory
  for the new \<open>NAME=VALUE\<close>.
\<close>

definition sys_setenv :: "kernel \<Rightarrow> string \<Rightarrow> string \<Rightarrow> world \<Rightarrow> string option \<times> world" where
  "sys_setenv K name val w =
     (if name = [] \<or> CHR ''='' \<in> set name then (Some ''Invalid argument'', w)
      else if \<not> k_malloc K (w_trace w) (length name + length val + 2)
      then (Some ''Cannot allocate memory'', w)
      else (None, w\<lparr>w_env := (w_env w)(name \<mapsto> val)\<rparr>))"

section \<open>Facts\<close>

text \<open>The read of a process whose handler, if it has one, restarts it.\<close>

definition restarts :: "world \<Rightarrow> bool" where
  "restarts w \<longleftrightarrow> (\<forall>flags. w_disp w SIGCHLD = SIG_HANDLER flags \<longrightarrow> SA_RESTART \<in> set flags)"

lemma restarts_cong: "w_disp w' = w_disp w \<Longrightarrow> restarts w' = restarts w"
  by (simp add: restarts_def)

lemma restarts_read [simp]: "restarts w \<Longrightarrow> \<not> interrupts K w"
  by (auto simp: interrupts_def restarts_def split: disposition.splits)

lemma emit_frame [simp, frame_simps]:
  "w_fds (emit e w) = w_fds w" "w_pipes (emit e w) = w_pipes w" "w_env (emit e w) = w_env w"
  "w_cwd (emit e w) = w_cwd w" "w_mask (emit e w) = w_mask w" "w_disp (emit e w) = w_disp w"
  "w_tty (emit e w) = w_tty w" "w_stdin (emit e w) = w_stdin w"
  "w_trace (emit e w) = w_trace w @ [e]"
  by (simp_all add: emit_def)

lemma print_lines_frame [simp, frame_simps]:
  "w_fds (print_lines ls w) = w_fds w" "w_pipes (print_lines ls w) = w_pipes w"
  "w_env (print_lines ls w) = w_env w" "w_cwd (print_lines ls w) = w_cwd w"
  "w_mask (print_lines ls w) = w_mask w" "w_disp (print_lines ls w) = w_disp w"
  "w_tty (print_lines ls w) = w_tty w" "w_stdin (print_lines ls w) = w_stdin w"
  "w_trace (print_lines ls w) = w_trace w @ map Print ls"
  by (induction ls arbitrary: w) (simp_all add: print_lines_def)

lemma print_lines_Nil [simp]: "print_lines [] w = w"
  by (simp add: print_lines_def)

text \<open>
  Most calls leave the environment, the directory, the signal state and the terminal alone:
  what is not a descriptor, the input or the trace is the same.
\<close>

definition same_context :: "world \<Rightarrow> world \<Rightarrow> bool" where
  "same_context w w' \<longleftrightarrow>
     w_pipes w' = w_pipes w \<and> w_env w' = w_env w \<and> w_cwd w' = w_cwd w \<and> w_mask w' = w_mask w \<and>
     w_disp w' = w_disp w \<and> w_tty w' = w_tty w"

lemma same_context_refl [simp]: "same_context w w"
  by (simp add: same_context_def)

lemma same_context_trans [trans]: "same_context a b \<Longrightarrow> same_context b c \<Longrightarrow> same_context a c"
  by (simp add: same_context_def)

lemma same_context_updates [simp]:
  "same_context w (w'\<lparr>w_fds := t\<rparr>) = same_context w w'"
  "same_context w (w'\<lparr>w_stdin := ls\<rparr>) = same_context w w'"
  "same_context w (w'\<lparr>w_trace := tr\<rparr>) = same_context w w'"
  "same_context w (emit e w') = same_context w w'"
  "same_context w (print_lines ls w') = same_context w w'"
  "same_context w (sys_close fd w') = same_context w w'"
  "same_context w (sys_dup2 a b w') = same_context w w'"
  by (simp_all add: same_context_def sys_close_def sys_dup2_def)

lemma same_context_pipes: "same_context w w' \<Longrightarrow> w_pipes w' = w_pipes w"
  by (simp add: same_context_def)

lemma lowest_free_SomeD:
  "lowest_free t = Some n \<Longrightarrow> n < length t \<and> t ! n = None \<and> (\<forall>j < n. t ! j \<noteq> None)"
  unfolding lowest_free_def by (drule first_index_SomeD) simp

lemma fd_close_None [simp, table_simps]: "fd_close (-1) t = t"
  by (simp add: fd_close_def valid_fd_def)

lemma fd_close_nth:
  "n < length t \<Longrightarrow> fd_close (int n) t = t[n := None]"
  using list_update_id [of t n] by (cases "t ! n") (auto simp: fd_close_def valid_fd_def)

lemma fd_close_at: "i < length t \<Longrightarrow> fd_close fd t ! i = (if fd = int i then None else t ! i)"
  by (cases "t ! i") (auto simp: fd_close_def valid_fd_def nth_list_update)

lemma length_fd_close [simp]: "length (fd_close fd t) = length t"
  by (simp add: fd_close_def)

lemma length_fd_dup2 [simp]: "length (fd_dup2 old new t) = length t"
  by (simp add: fd_dup2_def)

lemma fd_dup2_nth:
  assumes "r < length t" "n < length t" "t ! r = Some (f, c)" "r \<noteq> n"
  shows "fd_dup2 (int r) (int n) t = t[n := Some (f, False)]"
  using assms by (simp add: fd_dup2_def valid_fd_def)

lemma close_frame [simp, frame_simps]:
  "w_pipes (sys_close fd w) = w_pipes w" "w_env (sys_close fd w) = w_env w"
  "w_cwd (sys_close fd w) = w_cwd w" "w_mask (sys_close fd w) = w_mask w"
  "w_disp (sys_close fd w) = w_disp w" "w_tty (sys_close fd w) = w_tty w"
  "w_stdin (sys_close fd w) = w_stdin w" "w_trace (sys_close fd w) = w_trace w"
  "w_fds (sys_close fd w) = fd_close fd (w_fds w)"
  by (simp_all add: sys_close_def)

lemma dup2_frame [simp, frame_simps]:
  "w_pipes (sys_dup2 a b w) = w_pipes w" "w_env (sys_dup2 a b w) = w_env w"
  "w_cwd (sys_dup2 a b w) = w_cwd w" "w_mask (sys_dup2 a b w) = w_mask w"
  "w_disp (sys_dup2 a b w) = w_disp w" "w_tty (sys_dup2 a b w) = w_tty w"
  "w_stdin (sys_dup2 a b w) = w_stdin w" "w_trace (sys_dup2 a b w) = w_trace w"
  "w_fds (sys_dup2 a b w) = fd_dup2 a b (w_fds w)"
  by (simp_all add: sys_dup2_def)

text \<open>
  What a successful \<open>pipe\<close> did: two different free slots of the table hold the two ends of the
  next pipe, and nothing else changed.
\<close>

lemma sys_pipe_Inr:
  assumes "sys_pipe K w = (Inr (r, s), w')"
  obtains m n where "r = int m" "s = int n" "m \<noteq> n"
    "m < length (w_fds w)" "n < length (w_fds w)" "w_fds w ! m = None" "w_fds w ! n = None"
    "w_fds w' = (w_fds w)[m := Some (PipeR (w_pipes w), False), n := Some (PipeW (w_pipes w), False)]"
    "w' = (emit SysPipe w)\<lparr>w_fds := w_fds w', w_pipes := Suc (w_pipes w)\<rparr>"
proof -
  obtain m where m: "lowest_free (w_fds w) = Some m"
    using assms by (auto simp: sys_pipe_def Let_def split: option.splits)
  obtain n where n: "lowest_free ((w_fds w)[m := Some (PipeR (w_pipes w), False)]) = Some n"
    using assms m by (auto simp: sys_pipe_def Let_def split: option.splits)
  have eqs: "r = int m" "s = int n"
    "w' = (emit SysPipe w)\<lparr>w_fds := (w_fds w)[m := Some (PipeR (w_pipes w), False),
             n := Some (PipeW (w_pipes w), False)], w_pipes := Suc (w_pipes w)\<rparr>"
    using assms m n by (auto simp: sys_pipe_def Let_def split: option.splits)
  note free_m = lowest_free_SomeD [OF m] and free_n = lowest_free_SomeD [OF n]
  then have "m \<noteq> n" by auto
  then show ?thesis
    using eqs free_m free_n by (intro that) (auto simp: nth_list_update)
qed

lemma sys_pipe_Inl: "sys_pipe K w = (Inl err, w') \<Longrightarrow> w' = emit SysPipe w"
  by (auto simp: sys_pipe_def Let_def split: option.splits)

lemma sys_pipe_trace: "sys_pipe K w = (r, w') \<Longrightarrow> w_trace w' = w_trace w @ [SysPipe]"
  by (auto simp: sys_pipe_def Let_def split: option.splits)

lemma sys_open_Inr:
  assumes "sys_open K path flags mode w = (Inr fd, w')"
  obtains n where "fd = int n" "n < length (w_fds w)" "w_fds w ! n = None"
    "w' = (emit (SysOpen path flags mode) w)\<lparr>w_fds := (w_fds w)[n := Some (OpenFile path flags, False)]\<rparr>"
  using assms lowest_free_SomeD
  by (fastforce simp: sys_open_def Let_def split: option.splits)

lemma sys_open_Inl: "sys_open K path flags mode w = (Inl err, w') \<Longrightarrow> w' = emit (SysOpen path flags mode) w"
  by (auto simp: sys_open_def Let_def split: option.splits)

subsection \<open>Status words\<close>

lemma WTERMSIG_range: "0 \<le> WTERMSIG s" "WTERMSIG s \<le> 127"
proof -
  have "s AND 0x7F \<le> (0x7F :: 32 word)" by (rule word_and_le1)
  then show "WTERMSIG s \<le> 127" by (simp add: WTERMSIG_def word_le_def)
qed (simp add: WTERMSIG_def)

lemma WEXITSTATUS_range: "0 \<le> WEXITSTATUS s" "WEXITSTATUS s \<le> 255"
proof -
  have "s AND 0xFF00 \<le> (0xFF00 :: 32 word)" by (rule word_and_le1)
  then have "uint (s AND 0xFF00) \<le> 0xFF00" by (simp add: word_le_def)
  moreover have "WEXITSTATUS s = take_bit 32 (uint (s AND 0xFF00)) div 2 ^ 8"
    unfolding WEXITSTATUS_def by (subst unsigned_drop_bit_eq) (simp add: drop_bit_eq_div)
  ultimately show "WEXITSTATUS s \<le> 255" by (simp add: take_bit_int_eq_self)
qed (simp add: WEXITSTATUS_def)

lemma WIFSIGNALED_iff: "WIFSIGNALED s \<longleftrightarrow> 1 \<le> WTERMSIG s \<and> WTERMSIG s \<le> 126"
proof -
  define n where "n = WTERMSIG s"
  have n: "0 \<le> n" "n \<le> 127" using WTERMSIG_range by (simp_all add: n_def)
  show ?thesis
  proof (cases "n = 127")
    case True
    then show ?thesis by (simp add: WIFSIGNALED_def WTERMSIG_def [symmetric] n_def)
  next
    case False
    have small: "sint (word_of_int m :: 8 word) = m" if "0 \<le> m" "m \<le> 127" for m
      using that by (simp add: sint_sbintrunc' signed_take_bit_int_eq_self)
    have "sint (word_of_int (n + 1) :: 8 word) = n + 1"
      using n False by (intro small) auto
    then show ?thesis using n False by (simp add: WIFSIGNALED_def WTERMSIG_def [symmetric] n_def) arith
  qed
qed

lemma low_bits_stopped: "s AND 0xFF = (0x7F :: 32 word) \<Longrightarrow> s AND 0x7F = 0x7F"
proof -
  assume "s AND 0xFF = (0x7F :: 32 word)"
  then have "(s AND 0xFF) AND 0x7F = (0x7F AND 0x7F :: 32 word)" by simp
  then show ?thesis by (simp add: and.assoc)
qed

lemma stopped_not_terminated: "WIFSTOPPED s \<Longrightarrow> \<not> WIFEXITED s \<and> \<not> WIFSIGNALED s"
  by (auto simp: WIFSTOPPED_def WIFEXITED_def WIFSIGNALED_iff WTERMSIG_def dest: low_bits_stopped)

lemma exited_not_signaled: "WIFEXITED s \<Longrightarrow> \<not> WIFSIGNALED s"
  by (simp add: WIFEXITED_def WIFSIGNALED_iff)

section \<open>Events appended\<close>

text \<open>Every operation only appends to the trace; which events, is a predicate.\<close>

definition trace_ext :: "(event \<Rightarrow> bool) \<Rightarrow> world \<Rightarrow> world \<Rightarrow> bool" where
  "trace_ext P w w' \<longleftrightarrow> (\<exists>es. w_trace w' = w_trace w @ es \<and> list_all P es)"

lemma trace_ext_refl [simp]: "w_trace w' = w_trace w \<Longrightarrow> trace_ext P w w'"
  by (auto simp: trace_ext_def)

lemma trace_ext_emit [intro]: "trace_ext P w w' \<Longrightarrow> P e \<Longrightarrow> trace_ext P w (emit e w')"
  by (auto simp: trace_ext_def)

lemma trace_ext_trans [trans]: "trace_ext P a b \<Longrightarrow> trace_ext P b c \<Longrightarrow> trace_ext P a c"
  by (auto simp: trace_ext_def)

lemma trace_ext_step: "trace_ext P w w1 \<Longrightarrow> w_trace w2 = w_trace w1 @ es \<Longrightarrow> list_all P es \<Longrightarrow> trace_ext P w w2"
  by (auto simp: trace_ext_def)

lemma trace_ext_weaken: "trace_ext P w w' \<Longrightarrow> (\<And>e. P e \<Longrightarrow> Q e) \<Longrightarrow> trace_ext Q w w'"
  by (auto simp: trace_ext_def list_all_iff)

section \<open>A sample system\<close>

text \<open>
  A kernel that grants every request, and a freshly started process, for the concrete instances:
  pids count up from the length of the trace, no child has anything to report, and a pattern
  matches two names.
\<close>

definition sample_kernel :: kernel where
  "sample_kernel = \<lparr>k_malloc = \<lambda>_ _. True, k_pipe = \<lambda>_. None, k_fork = \<lambda>tr. Inr (100 + int (length tr)),
     k_wait = \<lambda>_ _. [], k_reap = \<lambda>_. [], k_kill = \<lambda>_ _ _. None, k_open = \<lambda>_ _ _. None,
     k_mkstemp = \<lambda>_. None, k_write = \<lambda>_ t. Inr (length t), k_chdir = \<lambda>_ d. Inr d, k_exec = \<lambda>_ _. None,
     k_glob = \<lambda>_ s. Some [''a.c'', ''b.c''], k_isatty = \<lambda>_. True, k_getpid = 100, k_getpgrp = 100\<rparr>"

definition sample_world :: world where
  "sample_world = \<lparr>w_fds = [Some (Inherited 0, False), Some (Inherited 1, False),
       Some (Inherited 2, False), None, None, None, None, None],
     w_pipes = 0, w_env = [''HOME'' \<mapsto> ''/root''], w_cwd = ''/'', w_mask = {}, w_disp = \<lambda>_. SIG_DFL,
     w_tty = 1, w_stdin = [], w_trace = []\<rparr>"

lemmas sample_simps = sample_kernel_def sample_world_def

end
