(* ===== verification/Jobs.thy ===== *)
theory Jobs
  imports Posix
begin

text \<open>
  The job table (jobs.h, jobs.c): a fixed array of MAX\_JOBS slots and the next id. Pointers
  into the array are slot numbers, NULL is None. The abstraction of a table is the finite map
  from job ids to jobs; the locale \<open>job_ids\<close> states what its clients (the executor, the
  built-ins, the SIGCHLD handler) rely on, and the array model is shown to provide it.
\<close>

section \<open>Data\<close>

definition MAX_JOBS :: nat where "MAX_JOBS = 64"
definition JOB_CMD_LEN :: nat where "JOB_CMD_LEN = 256"

datatype job_state_t = JOB_RUNNING | JOB_DONE | JOB_STOPPED

record job_t =
  job_pid :: int
  job_id :: int
  job_state :: job_state_t
  job_status :: wstatus
  job_in_use :: bool
  job_command :: string

record jobs_table_t =
  jobs :: "job_t list"
  next_id :: int

text \<open>The all-zero slot: JOB\_RUNNING is the enumerator 0.\<close>

definition job_zero :: job_t where
  "job_zero = \<lparr>job_pid = 0, job_id = 0, job_state = JOB_RUNNING, job_status = 0,
     job_in_use = False, job_command = []\<rparr>"

section \<open>Operations\<close>

definition jobs_init :: jobs_table_t where
  "jobs_init = \<lparr>jobs = replicate MAX_JOBS job_zero, next_id = 1\<rparr>"

definition jobs_add :: "jobs_table_t \<Rightarrow> int \<Rightarrow> string \<Rightarrow> job_state_t \<Rightarrow> int \<times> jobs_table_t" where
  "jobs_add t p cmd st =
     (case first_index (\<lambda>j. \<not> job_in_use j) (jobs t) of
        None \<Rightarrow> (-1, t)
      | Some i \<Rightarrow>
          (next_id t,
           t\<lparr>jobs := (jobs t)[i := \<lparr>job_pid = p, job_id = next_id t, job_state = st,
                job_status = 0, job_in_use = True,
                job_command = fst (snprintf JOB_CMD_LEN cmd)\<rparr>],
             next_id := next_id t + 1\<rparr>))"

definition jobs_mark_done :: "jobs_table_t \<Rightarrow> int \<Rightarrow> wstatus \<Rightarrow> jobs_table_t" where
  "jobs_mark_done t p st =
     (case first_index (\<lambda>j. job_in_use j \<and> job_pid j = p \<and> job_state j = JOB_RUNNING) (jobs t) of
        None \<Rightarrow> t
      | Some i \<Rightarrow> t\<lparr>jobs := (jobs t)[i := (jobs t ! i)\<lparr>job_state := JOB_DONE, job_status := st\<rparr>]\<rparr>)"

definition jobs_find_by_id :: "jobs_table_t \<Rightarrow> int \<Rightarrow> nat option" where
  "jobs_find_by_id t k = first_index (\<lambda>j. job_in_use j \<and> job_id j = k) (jobs t)"

definition jobs_find_by_pid :: "jobs_table_t \<Rightarrow> int \<Rightarrow> nat option" where
  "jobs_find_by_pid t p = first_index (\<lambda>j. job_in_use j \<and> job_pid j = p) (jobs t)"

text \<open>An assignment to the state of the job at a pointer.\<close>

definition jobs_set_state :: "jobs_table_t \<Rightarrow> nat \<Rightarrow> job_state_t \<Rightarrow> jobs_table_t" where
  "jobs_set_state t i st = t\<lparr>jobs := (jobs t)[i := (jobs t ! i)\<lparr>job_state := st\<rparr>]\<rparr>"

definition jobs_free_slot :: "jobs_table_t \<Rightarrow> nat \<Rightarrow> jobs_table_t" where
  "jobs_free_slot t i = t\<lparr>jobs := (jobs t)[i := (jobs t ! i)\<lparr>job_in_use := False\<rparr>]\<rparr>"

definition jobs_remove_by_id :: "jobs_table_t \<Rightarrow> int \<Rightarrow> jobs_table_t" where
  "jobs_remove_by_id t k =
     (case jobs_find_by_id t k of None \<Rightarrow> t | Some i \<Rightarrow> jobs_free_slot t i)"

definition jobs_remove_by_pid :: "jobs_table_t \<Rightarrow> int \<Rightarrow> jobs_table_t" where
  "jobs_remove_by_pid t p =
     (case jobs_find_by_pid t p of None \<Rightarrow> t | Some i \<Rightarrow> jobs_free_slot t i)"

fun state_name :: "job_state_t \<Rightarrow> string" where
  "state_name JOB_RUNNING = ''Running''"
| "state_name JOB_DONE = ''Done''"
| "state_name JOB_STOPPED = ''Stopped''"

fun jobs_print_loop :: "job_t list \<Rightarrow> string list" where
  "jobs_print_loop [] = []"
| "jobs_print_loop (j # js) =
     (if job_in_use j
      then (''['' @ dec_int (job_id j) @ '']  '' @ pad_right 7 (state_name (job_state j)) @ ''  '' @
            job_command j @ [NL]) # jobs_print_loop js
      else jobs_print_loop js)"

definition jobs_print :: "jobs_table_t \<Rightarrow> string list" where
  "jobs_print t = jobs_print_loop (jobs t)"

fun notify_loop :: "job_t list \<Rightarrow> string list \<times> job_t list" where
  "notify_loop [] = ([], [])"
| "notify_loop (j # js) =
     (let (ls, js') = notify_loop js
      in if job_in_use j \<and> job_state j = JOB_DONE
         then ((''['' @ dec_int (job_id j) @ '']  Done     '' @ job_command j @ [NL]) # ls,
               j\<lparr>job_in_use := False\<rparr> # js')
         else (ls, j # js'))"

definition jobs_notify_completed :: "jobs_table_t \<Rightarrow> string list \<times> jobs_table_t" where
  "jobs_notify_completed t = (let (ls, js) = notify_loop (jobs t) in (ls, t\<lparr>jobs := js\<rparr>))"

fun clear_loop :: "job_t list \<Rightarrow> job_t list" where
  "clear_loop [] = []"
| "clear_loop (j # js) =
     (if job_in_use j \<and> job_state j = JOB_DONE then j\<lparr>job_in_use := False\<rparr> else j) # clear_loop js"

definition jobs_clear_done :: "jobs_table_t \<Rightarrow> jobs_table_t" where
  "jobs_clear_done t = t\<lparr>jobs := clear_loop (jobs t)\<rparr>"

section \<open>Invariant and abstraction\<close>

text \<open>
  All slots are there, ids count from 1 and lie below the next id, no two live jobs share an
  id, and labels fit their buffer.
\<close>

definition live_ids :: "job_t list \<Rightarrow> int list" where
  "live_ids js = map job_id (filter job_in_use js)"

definition jobs_inv :: "jobs_table_t \<Rightarrow> bool" where
  "jobs_inv t \<longleftrightarrow>
     length (jobs t) = MAX_JOBS \<and> 1 \<le> next_id t \<and>
     (\<forall>j \<in> set (jobs t). job_in_use j \<longrightarrow>
        1 \<le> job_id j \<and> job_id j < next_id t \<and> length (job_command j) < JOB_CMD_LEN) \<and>
     distinct (live_ids (jobs t))"

text \<open>The map a table stands for: what a search by id finds.\<close>

definition jobs_map :: "jobs_table_t \<Rightarrow> int \<rightharpoonup> job_t" where
  "jobs_map t k = map_option (\<lambda>i. jobs t ! i) (jobs_find_by_id t k)"

definition slots_map :: "job_t list \<Rightarrow> int \<rightharpoonup> job_t" where
  "slots_map js = map_of (map (\<lambda>j. (job_id j, j)) (filter job_in_use js))"

lemma jobs_map_slots: "jobs_map t = slots_map (jobs t)"
proof
  have "map_option (\<lambda>i. js ! i) (first_index (\<lambda>j. job_in_use j \<and> job_id j = k) js) = slots_map js k"
    for js k
    by (induction js) (auto simp: slots_map_def option.map_comp comp_def)
  then show "jobs_map t k = slots_map (jobs t) k" for k
    by (simp add: jobs_map_def jobs_find_by_id_def)
qed

lemma live_ids_simps [simp]:
  "live_ids [] = []"
  "live_ids (j # js) = (if job_in_use j then [job_id j] else []) @ live_ids js"
  "live_ids (xs @ ys) = live_ids xs @ live_ids ys"
  by (simp_all add: live_ids_def)

lemma slots_map_None: "slots_map js k = None \<longleftrightarrow> k \<notin> set (live_ids js)"
  by (auto simp: slots_map_def live_ids_def map_of_eq_None_iff image_iff)

lemma slots_map_dead [simp]: "\<not> job_in_use j \<Longrightarrow> slots_map (xs @ j # ys) = slots_map (xs @ ys)"
  by (simp add: slots_map_def)

lemma slots_map_live:
  "job_in_use j \<Longrightarrow> job_id j \<notin> set (live_ids (xs @ ys)) \<Longrightarrow>
     slots_map (xs @ j # ys) = (slots_map (xs @ ys))(job_id j \<mapsto> j)"
proof (rule ext)
  fix k
  assume j: "job_in_use j" "job_id j \<notin> set (live_ids (xs @ ys))"
  then have "slots_map xs (job_id j) = None" by (simp add: slots_map_None)
  then show "slots_map (xs @ j # ys) k = ((slots_map (xs @ ys))(job_id j \<mapsto> j)) k"
    using j(1) by (auto simp: slots_map_def map_add_def split: option.splits)
qed

lemma slots_map_Some:
  "slots_map js k = Some j \<Longrightarrow> j \<in> set js \<and> job_in_use j \<and> job_id j = k"
  by (auto simp: slots_map_def dest: map_of_SomeD)

lemma slots_map_mem:
  "distinct (live_ids js) \<Longrightarrow> j \<in> set js \<Longrightarrow> job_in_use j \<Longrightarrow> slots_map js (job_id j) = Some j"
  unfolding slots_map_def
  by (rule map_of_is_SomeI) (auto simp: live_ids_def comp_def)

lemma distinct_live_index:
  assumes "distinct (live_ids js)" "i < length js" "j < length js" "job_in_use (js ! i)"
    "job_in_use (js ! j)" "job_id (js ! i) = job_id (js ! j)"
  shows "i = j"
  using assms
proof (induction js arbitrary: i j)
  case (Cons x xs)
  have mem: "job_id (xs ! n) \<in> set (live_ids xs)" if "n < length xs" "job_in_use (xs ! n)" for n
    using that by (auto simp: live_ids_def)
  show ?case
    using Cons.prems Cons.IH mem
    by (cases i; cases j) (auto split: if_splits, metis)
qed simp

lemma jobs_inv_init: "jobs_inv jobs_init"
  by (simp add: jobs_inv_def jobs_init_def job_zero_def live_ids_def)

lemma jobs_map_init: "jobs_map jobs_init = (\<lambda>_. None)"
  by (simp add: jobs_map_slots slots_map_def jobs_init_def job_zero_def)

text \<open>A live id is a valid one, so the next id is free.\<close>

lemma jobs_inv_ids:
  assumes "jobs_inv t" "k \<in> set (live_ids (jobs t))"
  shows "1 \<le> k" "k < next_id t"
  using assms by (auto simp: jobs_inv_def live_ids_def)

lemma jobs_map_ids: "jobs_inv t \<Longrightarrow> jobs_map t k = Some j \<Longrightarrow>
  1 \<le> k \<and> k < next_id t \<and> job_id j = k \<and> job_in_use j \<and> length (job_command j) < JOB_CMD_LEN"
  by (auto simp: jobs_map_slots jobs_inv_def dest!: slots_map_Some)

lemma next_id_free: "jobs_inv t \<Longrightarrow> jobs_map t (next_id t) = None"
  using jobs_inv_ids(2) by (fastforce simp: jobs_map_slots slots_map_None)

section \<open>One slot at a time\<close>

text \<open>
  Every operation but the two sweeps changes at most one slot. Three cases cover them: a free
  slot is filled under the next id, a live slot is changed in place, a live slot is freed.
  Each is a fact on a list split at the slot.
\<close>

lemma slot_split:
  assumes "i < length js"
  obtains xs x ys where "js = xs @ x # ys" "js ! i = x" "\<And>v. js[i := v] = xs @ v # ys"
proof
  show "js = take i js @ js ! i # drop (Suc i) js" using assms by (rule id_take_nth_drop)
  show "js[i := v] = take i js @ v # drop (Suc i) js" for v
    using assms by (rule upd_conv_take_nth_drop)
qed simp

lemma slot_fill:
  assumes inv: "jobs_inv t" and i: "i < length (jobs t)" "\<not> job_in_use (jobs t ! i)"
    and j: "job_in_use j" "job_id j = next_id t" "length (job_command j) < JOB_CMD_LEN"
    and t': "t' = t\<lparr>jobs := (jobs t)[i := j], next_id := next_id t + 1\<rparr>"
  shows "jobs_inv t'" "jobs_map t' = (jobs_map t)(next_id t \<mapsto> j)"
proof -
  obtain xs x ys where s: "jobs t = xs @ x # ys" "jobs t ! i = x" "jobs t' = xs @ j # ys"
    using slot_split [OF i(1)] t' by (metis jobs_table_t.select_convs(1) jobs_table_t.surjective
      jobs_table_t.update_convs(1,2))
  then have x: "\<not> job_in_use x" using i by simp
  have nx: "next_id t' = next_id t + 1" by (simp add: t')
  have fresh: "next_id t \<notin> set (live_ids (xs @ ys))"
    using jobs_inv_ids(2) [OF inv, of "next_id t"] s(1) x by auto
  then show "jobs_inv t'"
    using inv j x unfolding jobs_inv_def s(1,3) nx by auto
  show "jobs_map t' = (jobs_map t)(next_id t \<mapsto> j)"
    using slots_map_live [of j xs ys] fresh j x by (simp add: jobs_map_slots s(1,3))
qed

lemma slot_change:
  assumes inv: "jobs_inv t" and i: "i < length (jobs t)" "job_in_use (jobs t ! i)"
    and j: "job_in_use j" "job_id j = job_id (jobs t ! i)" "job_command j = job_command (jobs t ! i)"
    and t': "t' = t\<lparr>jobs := (jobs t)[i := j]\<rparr>"
  shows "jobs_inv t'" "jobs_map t' = (jobs_map t)(job_id j \<mapsto> j)"
proof -
  obtain xs x ys where s: "jobs t = xs @ x # ys" "jobs t ! i = x" "jobs t' = xs @ j # ys"
    using slot_split [OF i(1)] t' by (metis jobs_table_t.select_convs(1) jobs_table_t.surjective
      jobs_table_t.update_convs(1))
  have nx: "next_id t' = next_id t" by (simp add: t')
  have x: "job_in_use x" "job_id x = job_id j" "job_command x = job_command j" using i j s by simp_all
  show "jobs_inv t'"
    using inv j(1) x unfolding jobs_inv_def s(1,3) nx by auto
  have fresh: "job_id j \<notin> set (live_ids (xs @ ys))"
    using inv x unfolding jobs_inv_def s(1) by auto
  show "jobs_map t' = (jobs_map t)(job_id j \<mapsto> j)"
    using slots_map_live [of j xs ys] slots_map_live [of x xs ys] fresh j x
    by (simp add: jobs_map_slots s(1,3))
qed

lemma slot_free:
  assumes inv: "jobs_inv t" and i: "i < length (jobs t)" "job_in_use (jobs t ! i)"
  shows "jobs_inv (jobs_free_slot t i)"
    "jobs_map (jobs_free_slot t i) = (jobs_map t)(job_id (jobs t ! i) := None)"
proof -
  obtain xs x ys where s: "jobs t = xs @ x # ys" "jobs t ! i = x"
    "jobs (jobs_free_slot t i) = xs @ x\<lparr>job_in_use := False\<rparr> # ys"
    using slot_split [OF i(1)] by (metis jobs_free_slot_def jobs_table_t.select_convs(1)
      jobs_table_t.surjective jobs_table_t.update_convs(1))
  have nx: "next_id (jobs_free_slot t i) = next_id t" by (simp add: jobs_free_slot_def)
  have x: "job_in_use x" using i s by simp
  show "jobs_inv (jobs_free_slot t i)"
    using inv unfolding jobs_inv_def s(1,3) nx by auto
  have fresh: "job_id x \<notin> set (live_ids (xs @ ys))"
    using inv x unfolding jobs_inv_def s(1) by auto
  then have "slots_map (xs @ ys) (job_id x) = None" by (simp add: slots_map_None)
  then have "(slots_map (xs @ ys))(job_id x := None) = slots_map (xs @ ys)" by (simp add: fun_upd_idem)
  then show "jobs_map (jobs_free_slot t i) = (jobs_map t)(job_id (jobs t ! i) := None)"
    using slots_map_live [of x xs ys] fresh x s(2) by (simp add: jobs_map_slots s(1,3))
qed

section \<open>The operations on the map\<close>

lemma jobs_add_full: "(\<forall>j \<in> set (jobs t). job_in_use j) \<Longrightarrow> jobs_add t p cmd st = (-1, t)"
  by (auto simp: jobs_add_def split: option.splits dest: first_index_SomeD)

lemma jobs_add_free:
  assumes inv: "jobs_inv t" and free: "\<exists>j \<in> set (jobs t). \<not> job_in_use j"
  obtains t' where "jobs_add t p cmd st = (next_id t, t')" "jobs_inv t'"
    "next_id t' = next_id t + 1"
    "jobs_map t' = (jobs_map t)(next_id t \<mapsto> \<lparr>job_pid = p, job_id = next_id t, job_state = st,
       job_status = 0, job_in_use = True, job_command = take (JOB_CMD_LEN - 1) cmd\<rparr>)"
proof -
  obtain i where i: "first_index (\<lambda>j. \<not> job_in_use j) (jobs t) = Some i"
    using free first_index_ex [of _ "jobs t" "\<lambda>j. \<not> job_in_use j"] by auto
  note slot = first_index_SomeD [OF i]
  let ?j = "\<lparr>job_pid = p, job_id = next_id t, job_state = st, job_status = 0, job_in_use = True,
     job_command = take (JOB_CMD_LEN - 1) cmd\<rparr>"
  let ?t = "t\<lparr>jobs := (jobs t)[i := ?j], next_id := next_id t + 1\<rparr>"
  have "jobs_add t p cmd st = (next_id t, ?t)"
    using i by (simp add: jobs_add_def snprintf_def)
  moreover have "length (job_command ?j) < JOB_CMD_LEN" by (simp add: JOB_CMD_LEN_def)
  ultimately show ?thesis
    using slot_fill [OF inv _ _ _ _ _ refl, of i ?j] slot by (intro that [of ?t]) auto
qed

lemma jobs_add_inv: "jobs_inv t \<Longrightarrow> jobs_inv (snd (jobs_add t p cmd st))"
  by (cases "\<exists>j \<in> set (jobs t). \<not> job_in_use j")
    (auto simp: jobs_add_full elim!: jobs_add_free [of t p cmd st])

lemma first_index_live:
  "first_index (\<lambda>j. job_in_use j \<and> Q j) js = Some i \<Longrightarrow> i < length js \<and> job_in_use (js ! i) \<and> Q (js ! i)"
  by (drule first_index_SomeD) simp

lemma jobs_mark_done_inv: "jobs_inv t \<Longrightarrow> jobs_inv (jobs_mark_done t p st)"
  unfolding jobs_mark_done_def
  by (auto split: option.splits dest!: first_index_live intro!: slot_change(1) [OF _ _ _ _ _ _ refl])

lemma jobs_set_state_inv:
  "jobs_inv t \<Longrightarrow> i < length (jobs t) \<Longrightarrow> job_in_use (jobs t ! i) \<Longrightarrow> jobs_inv (jobs_set_state t i st)"
  unfolding jobs_set_state_def by (rule slot_change(1) [OF _ _ _ _ _ _ refl]) simp_all

lemma jobs_find_by_id_Some:
  "jobs_find_by_id t k = Some i \<Longrightarrow>
     i < length (jobs t) \<and> job_in_use (jobs t ! i) \<and> job_id (jobs t ! i) = k"
  unfolding jobs_find_by_id_def by (rule first_index_live)

lemma jobs_find_by_pid_Some:
  "jobs_find_by_pid t p = Some i \<Longrightarrow>
     i < length (jobs t) \<and> job_in_use (jobs t ! i) \<and> job_pid (jobs t ! i) = p"
  unfolding jobs_find_by_pid_def by (rule first_index_live)

lemma jobs_map_find: "jobs_find_by_id t k = Some i \<Longrightarrow> jobs_map t k = Some (jobs t ! i)"
  by (simp add: jobs_map_def)

lemma jobs_map_find_None: "jobs_find_by_id t k = None \<longleftrightarrow> jobs_map t k = None"
  by (simp add: jobs_map_def)

lemma jobs_remove_by_id_map:
  assumes inv: "jobs_inv t"
  shows "jobs_inv (jobs_remove_by_id t k)" "jobs_map (jobs_remove_by_id t k) = (jobs_map t)(k := None)"
proof -
  show "jobs_inv (jobs_remove_by_id t k)"
    using inv by (auto simp: jobs_remove_by_id_def split: option.splits
        dest!: jobs_find_by_id_Some intro!: slot_free(1))
  show "jobs_map (jobs_remove_by_id t k) = (jobs_map t)(k := None)"
  proof (cases "jobs_find_by_id t k")
    case None
    then have "jobs_map t k = None" by (simp add: jobs_map_find_None)
    then show ?thesis using None by (auto simp: jobs_remove_by_id_def)
  next
    case (Some i)
    then show ?thesis
      using slot_free(2) [OF inv] jobs_find_by_id_Some [OF Some] by (simp add: jobs_remove_by_id_def)
  qed
qed

lemma jobs_remove_by_pid_inv: "jobs_inv t \<Longrightarrow> jobs_inv (jobs_remove_by_pid t p)"
  by (auto simp: jobs_remove_by_pid_def split: option.splits
      dest!: jobs_find_by_pid_Some intro!: slot_free(1))

lemma jobs_remove_by_pid_map:
  "jobs_inv t \<Longrightarrow> jobs_map (jobs_remove_by_pid t p) =
     (case jobs_find_by_pid t p of None \<Rightarrow> jobs_map t
      | Some i \<Rightarrow> (jobs_map t)(job_id (jobs t ! i) := None))"
  by (auto simp: jobs_remove_by_pid_def split: option.splits
      dest!: jobs_find_by_pid_Some intro!: slot_free(2))

lemma next_id_frame [simp]:
  "next_id (jobs_mark_done t p st) = next_id t" "next_id (jobs_set_state t i js) = next_id t"
  "next_id (jobs_free_slot t i) = next_id t" "next_id (jobs_remove_by_id t k) = next_id t"
  "next_id (jobs_remove_by_pid t p) = next_id t" "next_id (jobs_clear_done t) = next_id t"
  "next_id (snd (jobs_notify_completed t)) = next_id t"
  by (simp_all add: jobs_mark_done_def jobs_set_state_def jobs_free_slot_def jobs_remove_by_id_def
      jobs_remove_by_pid_def jobs_clear_done_def jobs_notify_completed_def split: option.split prod.split)

section \<open>The two sweeps over finished jobs\<close>

definition job_finished :: "job_t \<Rightarrow> bool" where
  "job_finished j \<longleftrightarrow> job_in_use j \<and> job_state j = JOB_DONE"

definition done_line :: "job_t \<Rightarrow> string" where
  "done_line j = ''['' @ dec_int (job_id j) @ '']  Done     '' @ job_command j @ [NL]"

lemma notify_loop_eq: "notify_loop js = (map done_line (filter job_finished js), clear_loop js)"
  by (induction js) (auto simp: done_line_def job_finished_def)

lemma jobs_notify_eq:
  "jobs_notify_completed t = (map done_line (filter job_finished (jobs t)), jobs_clear_done t)"
  by (simp add: jobs_notify_completed_def jobs_clear_done_def notify_loop_eq)

lemma length_clear_loop [simp]: "length (clear_loop js) = length js"
  by (induction js) auto

lemma filter_clear_loop:
  "filter job_in_use (clear_loop js) = filter (\<lambda>j. job_state j \<noteq> JOB_DONE) (filter job_in_use js)"
  by (induction js) auto

lemma map_of_filter_value:
  assumes "distinct (map f xs)"
  shows "map_of (map (\<lambda>j. (f j, j)) (filter Q xs)) k =
    (case map_of (map (\<lambda>j. (f j, j)) xs) k of None \<Rightarrow> None | Some j \<Rightarrow> if Q j then Some j else None)"
  using assms
proof (induction xs)
  case (Cons x xs)
  show ?case
  proof (cases "f x = k")
    case True
    then have "map_of (map (\<lambda>j. (f j, j)) xs) k = None"
      using Cons.prems by (auto simp: map_of_eq_None_iff image_iff)
    then show ?thesis using Cons True by simp
  next
    case False
    then show ?thesis using Cons by simp
  qed
qed simp

lemma jobs_clear_done_map:
  assumes inv: "jobs_inv t"
  shows "jobs_inv (jobs_clear_done t)"
    "jobs_map (jobs_clear_done t) k =
       (case jobs_map t k of None \<Rightarrow> None
        | Some j \<Rightarrow> if job_state j = JOB_DONE then None else Some j)"
proof -
  have sub: "j \<in> set (clear_loop js) \<Longrightarrow> job_in_use j \<Longrightarrow> j \<in> set js" for j js
    by (induction js) (auto split: if_splits)
  have d: "distinct (live_ids (jobs t))" using inv by (simp add: jobs_inv_def)
  show "jobs_inv (jobs_clear_done t)"
    using inv sub distinct_map_filter [OF d [unfolded live_ids_def], of "\<lambda>j. job_state j \<noteq> JOB_DONE"]
    by (auto simp: jobs_inv_def jobs_clear_done_def live_ids_def filter_clear_loop)
  show "jobs_map (jobs_clear_done t) k = (case jobs_map t k of None \<Rightarrow> None
        | Some j \<Rightarrow> if job_state j = JOB_DONE then None else Some j)"
    using map_of_filter_value [OF d [unfolded live_ids_def], of "\<lambda>j. job_state j \<noteq> JOB_DONE" k]
    by (simp add: jobs_map_slots slots_map_def jobs_clear_done_def filter_clear_loop
        split: option.split)
qed

lemma jobs_notify_inv: "jobs_inv t \<Longrightarrow> jobs_inv (snd (jobs_notify_completed t))"
  by (simp add: jobs_notify_eq jobs_clear_done_map)

section \<open>What the clients rely on\<close>

text \<open>
  The operations of a table as one step function, so that a history of a table is a list of
  operations. A state is only assigned to a job that a search found.
\<close>

datatype job_op =
    OpAdd int string job_state_t
  | OpMarkDone int wstatus
  | OpSetState int job_state_t
  | OpRemoveId int
  | OpRemovePid int
  | OpNotify
  | OpClear

primrec job_step :: "jobs_table_t \<Rightarrow> job_op \<Rightarrow> jobs_table_t" where
  "job_step t (OpAdd p c st) = snd (jobs_add t p c st)"
| "job_step t (OpMarkDone p s) = jobs_mark_done t p s"
| "job_step t (OpSetState k st) =
     (case jobs_find_by_id t k of None \<Rightarrow> t | Some i \<Rightarrow> jobs_set_state t i st)"
| "job_step t (OpRemoveId k) = jobs_remove_by_id t k"
| "job_step t (OpRemovePid p) = jobs_remove_by_pid t p"
| "job_step t OpNotify = snd (jobs_notify_completed t)"
| "job_step t OpClear = jobs_clear_done t"

text \<open>
  A client hands an id to the user and expects it to go on meaning that job: a successful add
  gives an id nothing has, and no operation takes the bound back, so an id is never given twice.
\<close>

locale job_ids = step_system step inv
  for step :: "'t \<Rightarrow> 'o \<Rightarrow> 't"
    and inv :: "'t \<Rightarrow> bool" +
  fixes lookup :: "'t \<Rightarrow> int \<Rightarrow> 'j option"
    and bound :: "'t \<Rightarrow> int"
    and add :: "'t \<Rightarrow> 'x \<Rightarrow> int \<times> 't"
  assumes ids_below: "inv t \<Longrightarrow> lookup t k \<noteq> None \<Longrightarrow> 1 \<le> k \<and> k < bound t"
    and add_id: "inv t \<Longrightarrow> add t x = (k, t') \<Longrightarrow> 0 \<le> k \<Longrightarrow>
                   k = bound t \<and> bound t' = bound t + 1 \<and> inv t' \<and> lookup t' k \<noteq> None"
    and add_fail: "inv t \<Longrightarrow> add t x = (k, t') \<Longrightarrow> k < 0 \<Longrightarrow> t' = t"
    and step_bound: "inv t \<Longrightarrow> bound t \<le> bound (step t oper)"
begin

lemma steps_bound: "inv t \<Longrightarrow> bound t \<le> bound (foldl step t opers)"
  using steps_mono [where bound = bound] step_bound by blast

lemma ids_not_reused:
  assumes "inv t" "add t x = (k, t1)" "0 \<le> k"
    and "add (foldl step t1 opers) y = (k', t2)" "0 \<le> k'"
  shows "k < k'"
proof -
  have t1: "k = bound t" "bound t1 = bound t + 1" "inv t1" using add_id [OF assms(1-3)] by simp_all
  have "k' = bound (foldl step t1 opers)"
    using add_id [OF steps_inv [OF t1(3)] assms(4,5)] by simp
  with t1 steps_bound [OF t1(3), of opers] show ?thesis by simp
qed

lemma stale_id_not_found:
  assumes "inv t" "bound t \<le> k" shows "lookup t k = None"
  using ids_below [OF assms(1), of k] assms(2) by (cases "lookup t k") auto

end

definition jobs_record :: "jobs_table_t \<Rightarrow> int \<times> string \<times> job_state_t \<Rightarrow> int \<times> jobs_table_t" where
  "jobs_record t x = (case x of (p, c, st) \<Rightarrow> jobs_add t p c st)"

lemma jobs_add_cases:
  assumes "jobs_inv t" "jobs_add t p c st = (k, t')"
  shows "k = -1 \<and> t' = t \<or> k = next_id t \<and> next_id t' = next_id t + 1 \<and> jobs_inv t' \<and> jobs_map t' k \<noteq> None"
proof (cases "\<exists>j \<in> set (jobs t). \<not> job_in_use j")
  case True
  then show ?thesis using assms by (auto elim!: jobs_add_free [of t p c st])
next
  case False
  then show ?thesis using assms jobs_add_full [of t p c st] by simp
qed

lemma job_step_inv: "jobs_inv t \<Longrightarrow> jobs_inv (job_step t oper)"
  by (cases oper)
    (auto simp: jobs_add_inv jobs_mark_done_inv jobs_remove_by_id_map jobs_remove_by_pid_inv
      jobs_notify_inv jobs_clear_done_map split: option.split
      dest!: jobs_find_by_id_Some intro!: jobs_set_state_inv)

lemma job_step_bound: "jobs_inv t \<Longrightarrow> next_id t \<le> next_id (job_step t oper)"
proof (cases oper)
  case (OpAdd p c st)
  assume "jobs_inv t"
  then show ?thesis using jobs_add_cases [of t p c st "fst (jobs_add t p c st)" "snd (jobs_add t p c st)"] OpAdd
    by auto
qed (auto split: option.split)

interpretation job_table: job_ids job_step jobs_inv jobs_map next_id jobs_record
proof unfold_locales
  fix t x k t' assume t: "jobs_inv t" "jobs_record t x = (k, t')"
  obtain p c st where x: "x = (p, c, st)" by (cases x)
  have pos: "1 \<le> next_id t" using t(1) by (simp add: jobs_inv_def)
  note c = jobs_add_cases [OF t(1), of p c st k t']
  show "k = next_id t \<and> next_id t' = next_id t + 1 \<and> jobs_inv t' \<and> jobs_map t' k \<noteq> None" if "0 \<le> k"
    using c that t(2) x by (auto simp: jobs_record_def)
  show "t' = t" if "k < 0"
    using c that t(2) x pos by (auto simp: jobs_record_def)
qed (auto simp: job_step_inv job_step_bound dest: jobs_map_ids)

section \<open>The correctness of the job table\<close>


text \<open>An id that was given to a job is never given to another one, whatever happens to
  the table in between: a later successful add returns a larger id.\<close>

lemma job_ids_never_reused:
  assumes "jobs_add (foldl job_step jobs_init opers) p c st = (k, t)" "0 \<le> k"
    and "jobs_add (foldl job_step t opers') p' c' st' = (k', t')" "0 \<le> k'"
  shows "k < k'"
  using job_table.ids_not_reused [OF job_table.steps_inv [OF jobs_inv_init], of opers "(p, c, st)" k t
      opers' "(p', c', st')" k' t'] assms
  by (simp add: jobs_record_def)

text \<open>Adding a job to a table with a free slot returns the next id, which no job had,
  makes exactly that id refer to the new job, with the label cut to the buffer, and counts the
  next id up; a full table is left as it is and the result is -1.\<close>

lemma jobs_add_lookup:
  assumes "jobs_inv t"
  shows "if \<exists>j \<in> set (jobs t). \<not> job_in_use j
    then jobs_map t (next_id t) = None \<and>
      (\<exists>t'. jobs_add t p cmd st = (next_id t, t') \<and> next_id t' = next_id t + 1 \<and>
        jobs_map t' = (jobs_map t)(next_id t \<mapsto> \<lparr>job_pid = p, job_id = next_id t, job_state = st,
          job_status = 0, job_in_use = True, job_command = take (JOB_CMD_LEN - 1) cmd\<rparr>))
    else jobs_add t p cmd st = (-1, t)"
proof (cases "\<exists>j \<in> set (jobs t). \<not> job_in_use j")
  case True
  then show ?thesis
    using next_id_free [OF assms] by (simp, elim jobs_add_free [OF assms, of p cmd st]) auto
next
  case False
  then show ?thesis using jobs_add_full [of t p cmd st] by simp
qed

text \<open>When the only running job of a pid is reported to have ended, its entry becomes
  done with the reported status and keeps its id, pid and label; no other entry changes.\<close>

lemma jobs_mark_done_effect:
  assumes inv: "jobs_inv t"
    and j: "jobs_map t k = Some j" "job_pid j = p" "job_state j = JOB_RUNNING"
    and only: "\<forall>k' j'. jobs_map t k' = Some j' \<and> job_pid j' = p \<and> job_state j' = JOB_RUNNING \<longrightarrow> k' = k"
  shows "jobs_map (jobs_mark_done t p status) =
    (jobs_map t)(k \<mapsto> j\<lparr>job_state := JOB_DONE, job_status := status\<rparr>)"
proof -
  let ?P = "\<lambda>j. job_in_use j \<and> job_pid j = p \<and> job_state j = JOB_RUNNING"
  obtain i where i: "jobs_find_by_id t k = Some i" "jobs t ! i = j"
    using j(1) by (auto simp: jobs_map_def)
  note slot = jobs_find_by_id_Some [OF i(1)]
  have uniq: "i' = i" if "i' < length (jobs t)" "?P (jobs t ! i')" for i'
  proof -
    have "jobs_map t (job_id (jobs t ! i')) = Some (jobs t ! i')"
      using that inv by (auto simp: jobs_map_slots jobs_inv_def intro: slots_map_mem)
    then have "job_id (jobs t ! i') = k" using only that(2) by blast
    moreover have "distinct (live_ids (jobs t))" using inv by (simp add: jobs_inv_def)
    ultimately show "i' = i"
      using that slot distinct_live_index [of "jobs t" i' i] by simp
  qed
  have "first_index ?P (jobs t) = Some i"
    by (rule first_index_unique) (use slot i(2) j uniq in auto)
  then have upd: "jobs_mark_done t p status =
      t\<lparr>jobs := (jobs t)[i := j\<lparr>job_state := JOB_DONE, job_status := status\<rparr>]\<rparr>"
    using i(2) by (simp add: jobs_mark_done_def)
  show ?thesis
    using slot_change(2) [OF inv _ _ _ _ _ upd] slot i(2) by simp
qed

text \<open>The notification before a prompt prints one line for each finished job, in slot order,
  removes exactly those from the table, and a second notification prints nothing.\<close>

lemma jobs_notify_effect:
  assumes "jobs_inv t"
  shows "fst (jobs_notify_completed t) = map done_line (filter job_finished (jobs t)) \<and>
    (\<forall>k. jobs_map (snd (jobs_notify_completed t)) k =
       (case jobs_map t k of None \<Rightarrow> None | Some j \<Rightarrow> if job_state j = JOB_DONE then None else Some j)) \<and>
    fst (jobs_notify_completed (snd (jobs_notify_completed t))) = []"
proof -
  have "filter job_finished (clear_loop js) = []" for js
    by (induction js) (auto simp: job_finished_def)
  then show ?thesis
    using jobs_clear_done_map(2) [OF assms] by (simp add: jobs_notify_eq jobs_clear_done_def)
qed

end
