(* ===== verification/Shell_State.thy ===== *)
theory Shell_State
  imports History Jobs
begin

text \<open>
  The shell's own state (shell.h), the record threaded through every component, with the fields
  of \<open>shell_state_t\<close>; the two int flags are booleans. The invariant collects those of the
  parts.
\<close>

record shell_state_t =
  sh_history :: history_t
  sh_jobs :: jobs_table_t
  last_status :: int
  should_exit :: bool
  interactive :: bool
  shell_terminal :: int
  shell_pgid :: int

text \<open>\<open>shell_state_t state = {0}; jobs_init(&state.jobs);\<close>\<close>

definition shell_init :: shell_state_t where
  "shell_init = \<lparr>sh_history = history_zero, sh_jobs = jobs_init, last_status = 0,
     should_exit = False, interactive = False, shell_terminal = 0, shell_pgid = 0\<rparr>"

definition shell_inv :: "shell_state_t \<Rightarrow> bool" where
  "shell_inv st \<longleftrightarrow> history_inv (sh_history st) \<and> jobs_inv (sh_jobs st)"

lemma shell_inv_init: "shell_inv shell_init"
  by (simp add: shell_inv_def shell_init_def history_inv_zero jobs_inv_init)

lemma shell_inv_frame [simp, frame_simps]:
  "shell_inv (st\<lparr>last_status := n\<rparr>) = shell_inv st"
  "shell_inv (st\<lparr>should_exit := b\<rparr>) = shell_inv st"
  "shell_inv (st\<lparr>interactive := b\<rparr>) = shell_inv st"
  "shell_inv (st\<lparr>shell_terminal := n\<rparr>) = shell_inv st"
  "shell_inv (st\<lparr>shell_pgid := n\<rparr>) = shell_inv st"
  by (simp_all add: shell_inv_def)

lemma shell_inv_jobs [simp]: "shell_inv (st\<lparr>sh_jobs := t\<rparr>) \<longleftrightarrow> history_inv (sh_history st) \<and> jobs_inv t"
  by (simp add: shell_inv_def)

text \<open>
  What every operation but the history's own keeps: everything except the job table and the
  two fields the commands write.
\<close>

definition same_session :: "shell_state_t \<Rightarrow> shell_state_t \<Rightarrow> bool" where
  "same_session st st' \<longleftrightarrow>
     sh_history st' = sh_history st \<and> interactive st' = interactive st \<and>
     shell_terminal st' = shell_terminal st \<and> shell_pgid st' = shell_pgid st"

lemma same_session_refl [simp]: "same_session st st"
  by (simp add: same_session_def)

lemma same_session_trans [trans]:
  "same_session a b \<Longrightarrow> same_session b c \<Longrightarrow> same_session a c"
  by (simp add: same_session_def)

lemma same_session_updates [simp]:
  "same_session st (st'\<lparr>sh_jobs := t\<rparr>) = same_session st st'"
  "same_session st (st'\<lparr>last_status := n\<rparr>) = same_session st st'"
  "same_session st (st'\<lparr>should_exit := b\<rparr>) = same_session st st'"
  by (simp_all add: same_session_def)

end
