(* ===== verification/Signals.thy ===== *)
theory Signals
  imports Shell_State
begin

text \<open>
  Signal handling (signals.h, signals.c): the SIGCHLD reaper, the dispositions the shell installs,
  and the masking of SIGCHLD around the job table. The handler runs asynchronously, whenever
  SIGCHLD is pending and not masked. Since the shell touches the table only while SIGCHLD is
  masked, a run of the handler at any moment between two critical sections has the effect of a
  run at the end of the first: \<open>unblock_sigchld\<close> delivers what is pending when it restores
  the mask, and the model delivers there (and while the shell waits for input, in Repl).
\<close>

section \<open>The reaper\<close>

text \<open>
  The loop over \<open>waitpid(-1, &status, WNOHANG)\<close>: the answers in order, up to the first that is
  not a pid. The handler's pointer to the table, \<open>g_jobs\<close>, is set by \<open>install_signal_handlers\<close>
  before the handler is installed: where the handler runs, it is the table of the shell's state.
\<close>

fun reap_loop :: "(int \<times> wstatus) list \<Rightarrow> jobs_table_t \<Rightarrow> jobs_table_t" where
  "reap_loop [] t = t"
| "reap_loop ((p, status) # answers) t =
     (if p > 0 then reap_loop answers (jobs_mark_done t p status) else t)"

definition sigchld_handler ::
  "kernel \<Rightarrow> shell_state_t \<Rightarrow> world \<Rightarrow> shell_state_t \<times> world" where
  "sigchld_handler K st w =
     (let answers = k_reap K (w_trace w)
      in (st\<lparr>sh_jobs := reap_loop answers (sh_jobs st)\<rparr>, emit (SysReaped answers) w))"

text \<open>Delivery: the handler runs if it is installed and SIGCHLD is not masked.\<close>

definition deliver_sigchld ::
  "kernel \<Rightarrow> shell_state_t \<Rightarrow> world \<Rightarrow> shell_state_t \<times> world" where
  "deliver_sigchld K st w =
     (if SIGCHLD \<notin> w_mask w \<and> (case w_disp w SIGCHLD of SIG_HANDLER flags \<Rightarrow> True | _ \<Rightarrow> False)
      then sigchld_handler K st w else (st, w))"

section \<open>Masking\<close>

definition block_sigchld :: "world \<Rightarrow> signal set \<times> world" where
  "block_sigchld w = (w_mask w, w\<lparr>w_mask := insert SIGCHLD (w_mask w)\<rparr>)"

definition unblock_sigchld ::
  "kernel \<Rightarrow> signal set \<Rightarrow> shell_state_t \<Rightarrow> world \<Rightarrow> shell_state_t \<times> world" where
  "unblock_sigchld K prev_mask st w = deliver_sigchld K st (w\<lparr>w_mask := prev_mask\<rparr>)"

section \<open>Installation\<close>

definition ignore_signal :: "signal \<Rightarrow> world \<Rightarrow> world" where
  "ignore_signal s w = sys_sigaction s SIG_IGN w"

definition install_signal_handlers ::
  "kernel \<Rightarrow> shell_state_t \<Rightarrow> world \<Rightarrow> shell_state_t \<times> world" where
  "install_signal_handlers K st w =
     (let st1 = st\<lparr>shell_terminal := 0, interactive := k_isatty K 0, shell_pgid := k_getpgrp K\<rparr>;
          w1 = ignore_signal SIGINT w;
          w2 = ignore_signal SIGQUIT w1;
          w3 = ignore_signal SIGTSTP w2;
          w4 = ignore_signal SIGTTIN w3;
          w5 = ignore_signal SIGTTOU w4;
          w6 = sys_sigaction SIGCHLD (SIG_HANDLER [SA_RESTART, SA_NOCLDSTOP]) w5
      in if interactive st1
         then (let st2 = st1\<lparr>shell_pgid := k_getpid K\<rparr>;
                   w7 = emit (SysSetpgid (shell_pgid st2) (shell_pgid st2)) w6
               in (st2, sys_tcsetpgrp (shell_terminal st2) (shell_pgid st2) w7))
         else (st1, w6))"

section \<open>Facts\<close>

lemma sigaction_frame [simp, frame_simps]:
  "w_fds (sys_sigaction s d w) = w_fds w" "w_pipes (sys_sigaction s d w) = w_pipes w"
  "w_env (sys_sigaction s d w) = w_env w" "w_cwd (sys_sigaction s d w) = w_cwd w"
  "w_mask (sys_sigaction s d w) = w_mask w" "w_tty (sys_sigaction s d w) = w_tty w"
  "w_stdin (sys_sigaction s d w) = w_stdin w"
  "w_disp (sys_sigaction s d w) = (w_disp w)(s := d)"
  "w_trace (sys_sigaction s d w) = w_trace w @ [SysSigaction s d]"
  by (simp_all add: sys_sigaction_def)

lemma tcsetpgrp_frame [simp, frame_simps]:
  "w_fds (sys_tcsetpgrp fd p w) = w_fds w" "w_pipes (sys_tcsetpgrp fd p w) = w_pipes w"
  "w_env (sys_tcsetpgrp fd p w) = w_env w" "w_cwd (sys_tcsetpgrp fd p w) = w_cwd w"
  "w_mask (sys_tcsetpgrp fd p w) = w_mask w" "w_disp (sys_tcsetpgrp fd p w) = w_disp w"
  "w_stdin (sys_tcsetpgrp fd p w) = w_stdin w" "w_tty (sys_tcsetpgrp fd p w) = p"
  "w_trace (sys_tcsetpgrp fd p w) = w_trace w @ [SysTcsetpgrp fd p]"
  by (simp_all add: sys_tcsetpgrp_def)

text \<open>
  The reaper only turns running jobs into done ones: same slots, ids, pids and labels; a job
  that is not running is untouched.
\<close>

definition reaped :: "job_t \<Rightarrow> job_t \<Rightarrow> bool" where
  "reaped j j' \<longleftrightarrow> j' = j \<or>
     job_in_use j \<and> job_state j = JOB_RUNNING \<and>
     (\<exists>st. j' = j\<lparr>job_state := JOB_DONE, job_status := st\<rparr>)"

lemma reaped_refl [simp]: "reaped j j"
  by (simp add: reaped_def)

lemma reaped_trans: "reaped a b \<Longrightarrow> reaped b c \<Longrightarrow> reaped a c"
  by (auto simp: reaped_def)

lemma jobs_mark_done_reaped:
  "i < length (jobs t) \<Longrightarrow> reaped (jobs t ! i) (jobs (jobs_mark_done t p st) ! i)"
  unfolding jobs_mark_done_def
  by (auto split: option.split if_splits simp: nth_list_update reaped_def dest!: first_index_live)

lemma length_mark_done [simp]: "length (jobs (jobs_mark_done t p st)) = length (jobs t)"
  by (simp add: jobs_mark_done_def split: option.split)

lemma reap_loop_facts:
  "length (jobs (reap_loop answers t)) = length (jobs t)"
  "next_id (reap_loop answers t) = next_id t"
  "jobs_inv t \<Longrightarrow> jobs_inv (reap_loop answers t)"
  by (induction answers t rule: reap_loop.induct) (simp_all add: jobs_mark_done_inv)

lemma reap_loop_reaped:
  "i < length (jobs t) \<Longrightarrow> reaped (jobs t ! i) (jobs (reap_loop answers t) ! i)"
proof (induction answers t rule: reap_loop.induct)
  case (2 p status answers t)
  then show ?case
    using jobs_mark_done_reaped [OF "2.prems", of p status] by (auto intro: reaped_trans)
qed simp

lemma mark_done_find: "jobs_find_by_id (jobs_mark_done t p st) k = jobs_find_by_id t k"
  unfolding jobs_mark_done_def jobs_find_by_id_def
  by (auto split: option.split intro!: first_index_update)

lemma reap_loop_find: "jobs_find_by_id (reap_loop answers t) k = jobs_find_by_id t k"
  by (induction answers t rule: reap_loop.induct) (simp_all add: mark_done_find)

text \<open>Seen through the map: no job appears or disappears, and each is as it was or reaped.\<close>

lemma reap_loop_map: "rel_option reaped (jobs_map t k) (jobs_map (reap_loop answers t) k)"
proof (cases "jobs_find_by_id t k")
  case None
  then show ?thesis by (simp add: jobs_map_def reap_loop_find)
next
  case (Some i)
  then have "i < length (jobs t)" by (simp add: jobs_find_by_id_Some)
  then show ?thesis using Some reap_loop_reaped by (simp add: jobs_map_def reap_loop_find)
qed

lemma deliver_map:
  "deliver_sigchld K st w = (st', w') \<Longrightarrow> rel_option reaped (jobs_map (sh_jobs st) k) (jobs_map (sh_jobs st') k)"
  by (auto simp: deliver_sigchld_def sigchld_handler_def Let_def reap_loop_map option.rel_refl
      split: if_splits)

lemma deliver_frame:
  assumes "deliver_sigchld K st w = (st', w')"
  shows "same_session st st'" "last_status st' = last_status st" "should_exit st' = should_exit st"
    "shell_inv st \<Longrightarrow> shell_inv st'"
    "w_fds w' = w_fds w" "w_pipes w' = w_pipes w" "w_env w' = w_env w" "w_cwd w' = w_cwd w"
    "w_mask w' = w_mask w" "w_disp w' = w_disp w" "w_tty w' = w_tty w" "w_stdin w' = w_stdin w"
  using assms
  by (auto simp: deliver_sigchld_def sigchld_handler_def Let_def shell_inv_def reap_loop_facts
      split: if_splits)

lemma unblock_frame:
  assumes "unblock_sigchld K prev st w = (st', w')"
  shows "same_session st st'" "last_status st' = last_status st" "should_exit st' = should_exit st"
    "shell_inv st \<Longrightarrow> shell_inv st'"
    "w_fds w' = w_fds w" "w_pipes w' = w_pipes w" "w_env w' = w_env w" "w_cwd w' = w_cwd w"
    "w_mask w' = prev" "w_disp w' = w_disp w" "w_tty w' = w_tty w" "w_stdin w' = w_stdin w"
  using deliver_frame [OF assms [unfolded unblock_sigchld_def]] by simp_all

lemma block_frame [simp]:
  "fst (block_sigchld w) = w_mask w" "w_mask (snd (block_sigchld w)) = insert SIGCHLD (w_mask w)"
  "w_fds (snd (block_sigchld w)) = w_fds w" "w_pipes (snd (block_sigchld w)) = w_pipes w"
  "w_env (snd (block_sigchld w)) = w_env w" "w_cwd (snd (block_sigchld w)) = w_cwd w"
  "w_disp (snd (block_sigchld w)) = w_disp w" "w_tty (snd (block_sigchld w)) = w_tty w"
  "w_stdin (snd (block_sigchld w)) = w_stdin w" "w_trace (snd (block_sigchld w)) = w_trace w"
  by (simp_all add: block_sigchld_def)

text \<open>While SIGCHLD is masked nothing is delivered.\<close>

lemma deliver_masked: "SIGCHLD \<in> w_mask w \<Longrightarrow> deliver_sigchld K st w = (st, w)"
  by (simp add: deliver_sigchld_def)

text \<open>Whatever children the SIGCHLD handler collects, no job appears in or disappears from
  the table, the next id stays, and every job is as it was, except that a running job may have
  become done with a status; in particular a stopped job stays stopped.\<close>

lemma reaper_only_finishes:
  "rel_option reaped (jobs_map t k) (jobs_map (reap_loop answers t) k) \<and>
   next_id (reap_loop answers t) = next_id t"
  by (simp add: reap_loop_map reap_loop_facts(2))

end
