(* ===== verification/Waiting.thy ===== *)
theory Waiting
  imports Grammar Signals
begin

text \<open>
  The parts of executor.c that the built-in \<open>fg\<close> shares with the executor: the translation of a
  status word, the label of a pipeline, and the wait for a foreground process group.
\<close>

section \<open>Exit codes\<close>

definition status_to_code :: "wstatus \<Rightarrow> int" where
  "status_to_code status =
     (if WIFEXITED status then WEXITSTATUS status
      else if WIFSIGNALED status then 128 + WTERMSIG status
      else 0)"

lemma status_to_code_range: "0 \<le> status_to_code s" "status_to_code s \<le> 255"
  using WTERMSIG_range [of s] WEXITSTATUS_range [of s] by (auto simp: status_to_code_def)

section \<open>The label of a pipeline\<close>

text \<open>The conversion \<open>%s\<close>; glibc prints a NULL argument like this.\<close>

definition printf_s :: "string option \<Rightarrow> string" where
  "printf_s s = (case s of None \<Rightarrow> ''(null)'' | Some t \<Rightarrow> t)"

text \<open>
  The two loops write to \<open>buf + used\<close>, as long as there is room. The state is what was written
  before the terminator, and \<open>used\<close>, which counts what a long enough buffer would hold.
\<close>

fun label_args :: "nat \<Rightarrow> nat \<Rightarrow> string option list \<Rightarrow> string \<times> nat \<Rightarrow> string \<times> nat" where
  "label_args n a [] (buf, used) = (buf, used)"
| "label_args n a (arg # rest) (buf, used) =
     (if used < n
      then (case snprintf (n - used) ((if a > 0 then '' '' else []) @ printf_s arg) of
              (text, len) \<Rightarrow> label_args n (a + 1) rest (buf @ text, used + len))
      else (buf, used))"

fun label_commands :: "nat \<Rightarrow> nat \<Rightarrow> command_t list \<Rightarrow> string \<times> nat \<Rightarrow> string \<times> nat" where
  "label_commands n c [] (buf, used) = (buf, used)"
| "label_commands n c (cmd # cmds) (buf, used) =
     (if used < n
      then let (buf1, used1) =
                 (if c > 0
                  then (case snprintf (n - used) '' | '' of (text, len) \<Rightarrow> (buf @ text, used + len))
                  else (buf, used))
           in label_commands n (c + 1) cmds
                (label_args n 0 (take (argc cmd) (args cmd)) (buf1, used1))
      else (buf, used))"

definition format_pipeline_label :: "pipeline_t \<Rightarrow> nat \<Rightarrow> string" where
  "format_pipeline_label p n =
     fst (label_commands n 0 (take (num_commands p) (commands p)) ([], 0))"

text \<open>The whole label: words with a space between, stages with a bar between.\<close>

definition full_label :: "command_t list \<Rightarrow> string" where
  "full_label cmds = join '' | '' (map (join '' '' \<circ> argv) cmds)"

text \<open>
  A writer is bounded: from a buffer that holds the first n - 1 bytes of a text it goes to one
  that holds those of a longer text.
\<close>

definition holds :: "nat \<Rightarrow> string \<Rightarrow> string \<times> nat \<Rightarrow> bool" where
  "holds n full bu \<longleftrightarrow> fst bu = take (n - 1) full \<and>
     (snd bu = length full \<or> n \<le> snd bu \<and> n \<le> length full)"

lemma holds_put:
  assumes "holds n full (buf, used)" "used < n"
  shows "holds n (full @ text) (buf @ take (n - used - 1) text, used + length text)"
proof -
  have u: "used = length full" "buf = take (n - 1) full" using assms by (auto simp: holds_def)
  then have "n - 1 - length full = n - used - 1" using assms(2) by simp
  then show ?thesis using u by (simp add: holds_def)
qed

lemma holds_more:
  assumes "holds n full (buf, used)" "\<not> used < n"
  shows "holds n (full @ text) (buf, used)"
  using assms by (auto simp: holds_def)

lemma label_args_holds:
  "holds n full (buf, used) \<Longrightarrow> list_all (\<lambda>x. x \<noteq> None) as \<Longrightarrow>
     holds n (full @ (if a > 0 then concat (map (\<lambda>y. '' '' @ y) (map the as)) else join '' '' (map the as)))
       (label_args n a as (buf, used))"
proof (induction as arbitrary: a buf used full)
  case (Cons arg rest)
  obtain s where s: "arg = Some s" using Cons.prems(2) by auto
  let ?t = "(if a > 0 then '' '' else []) @ s"
  let ?more = "concat (map (\<lambda>y. '' '' @ y) (map the rest))"
  show ?case
  proof (cases "used < n")
    case True
    have "holds n ((full @ ?t) @ ?more)
        (label_args n (a + 1) rest (buf @ take (n - used - 1) ?t, used + length ?t))"
      using Cons.IH [OF holds_put [OF Cons.prems(1) True, of ?t], of "a + 1"] Cons.prems(2)
      by (simp only: list.pred_inject zero_less_Suc add_gr_0 if_True zero_less_one simp_thms)
    then show ?thesis using True s by (cases "a = 0") (simp_all add: snprintf_def printf_s_def comp_def)
  next
    case False
    then show ?thesis using holds_more [OF Cons.prems(1) False] by simp
  qed
qed simp

lemma label_commands_holds:
  "holds n full (buf, used) \<Longrightarrow> \<forall>c \<in> set cmds. command_inv c \<Longrightarrow>
     holds n (full @ (if i > 0 then concat (map (\<lambda>y. '' | '' @ join '' '' (argv y)) cmds)
                      else full_label cmds))
       (label_commands n i cmds (buf, used))"
proof (induction cmds arbitrary: i buf used full)
  case Nil
  then show ?case by (simp add: full_label_def)
next
  case (Cons cmd cmds)
  show ?case
  proof (cases "used < n")
    case False
    then show ?thesis using holds_more [OF Cons.prems(1) False] by simp
  next
    case True
    let ?sep = "if i > 0 then '' | '' else []"
    let ?bu1 = "(buf @ take (n - used - 1) ?sep, used + length ?sep)"
    let ?args = "take (argc cmd) (args cmd)"
    let ?more = "concat (map (\<lambda>y. '' | '' @ join '' '' (argv y)) cmds)"
    have all: "list_all (\<lambda>x. x \<noteq> None) ?args"
      using Cons.prems(2) by (auto simp: command_inv_def list_all_length)
    obtain buf2 used2 where b2: "label_args n 0 ?args ?bu1 = (buf2, used2)" by fastforce
    have "holds n (full @ ?sep) ?bu1" using holds_put [OF Cons.prems(1) True, of ?sep] .
    from label_args_holds [OF this all, of 0]
    have h2: "holds n (full @ ?sep @ join '' '' (argv cmd)) (buf2, used2)"
      by (simp only: b2) (simp add: argv_def)
    have step: "label_commands n i (cmd # cmds) (buf, used) = label_commands n (i + 1) cmds (buf2, used2)"
      using True b2 by (cases "i > 0") (simp_all add: snprintf_def)
    have "holds n ((full @ ?sep @ join '' '' (argv cmd)) @ ?more)
        (label_commands n (i + 1) cmds (buf2, used2))"
      using Cons.IH [OF h2, of "i + 1"] Cons.prems(2) by simp
    moreover have "(full @ ?sep @ join '' '' (argv cmd)) @ ?more =
        full @ (if i > 0 then concat (map (\<lambda>y. '' | '' @ join '' '' (argv y)) (cmd # cmds))
                else full_label (cmd # cmds))"
      by (simp add: full_label_def comp_def)
    ultimately show ?thesis unfolding step by metis
  qed
qed

lemma format_label_eq:
  assumes "pipeline_inv p" "0 < n"
  shows "format_pipeline_label p n = take (n - 1) (full_label (stages p))"
proof -
  have "holds n [] ([], 0)" by (simp add: holds_def)
  moreover have "\<forall>c \<in> set (stages p). command_inv c" using stages_inv [OF assms(1)] by blast
  ultimately have "holds n ([] @ full_label (stages p)) (label_commands n 0 (stages p) ([], 0))"
    using label_commands_holds [of n "[]" "[]" 0 "stages p" 0] by simp
  then show ?thesis by (simp add: holds_def format_pipeline_label_def stages_def)
qed

section \<open>Waiting for the foreground group\<close>

text \<open>
  The loop over \<open>waitpid(-pgid, &status, WUNTRACED)\<close>, on the answers it gets. It ends at the
  first failure (after the last answer: ECHILD, no member is left) or at the first member that
  stopped. The label is passed by value: \<open>fg\<close> passes the buffer in the job's slot, which no step
  of the loop writes before the label's last use.
\<close>

definition wait_done ::
  "shell_state_t \<Rightarrow> int \<Rightarrow> int \<Rightarrow> bool \<Rightarrow> world \<Rightarrow> int \<times> shell_state_t \<times> world" where
  "wait_done st pgid code interrupted w =
     (let w' = (if interrupted \<and> interactive st then emit (Print [NL]) w else w)
      in (code, st\<lparr>sh_jobs := jobs_remove_by_pid (sh_jobs st) pgid\<rparr>, w'))"

definition wait_stopped ::
  "shell_state_t \<Rightarrow> int \<Rightarrow> string \<Rightarrow> wstatus \<Rightarrow> world \<Rightarrow> int \<times> shell_state_t \<times> world" where
  "wait_stopped st pgid label status w =
     (let (k, t') = (case jobs_find_by_pid (sh_jobs st) pgid of
                       Some i \<Rightarrow> (job_id (jobs (sh_jobs st) ! i),
                                 jobs_set_state (sh_jobs st) i JOB_STOPPED)
                     | None \<Rightarrow> jobs_add (sh_jobs st) pgid label JOB_STOPPED)
      in (128 + WSTOPSIG status, st\<lparr>sh_jobs := t'\<rparr>,
          emit (Print ([NL] @ ''['' @ dec_int k @ '']  Stopped  '' @ label @ [NL])) w))"

fun wait_loop ::
  "(int \<times> wstatus) list \<Rightarrow> shell_state_t \<Rightarrow> int \<Rightarrow> string \<Rightarrow> int \<Rightarrow> bool \<Rightarrow> world \<Rightarrow>
     int \<times> shell_state_t \<times> world" where
  "wait_loop [] st pgid label code interrupted w =
     wait_done st pgid code interrupted (emit (SysWait (- pgid)) w)"
| "wait_loop ((p, status) # answers) st pgid label code interrupted w =
     (let w1 = emit (SysWait (- pgid)) w
      in if p < 0 then wait_done st pgid code interrupted w1
         else if WIFSTOPPED status then wait_stopped st pgid label status w1
         else wait_loop answers st pgid label (status_to_code status)
                (if WIFSIGNALED status \<and>
                    (WTERMSIG status = signum SIGINT \<or> WTERMSIG status = signum SIGQUIT)
                 then True else interrupted) w1)"

definition wait_foreground_group ::
  "kernel \<Rightarrow> shell_state_t \<Rightarrow> int \<Rightarrow> string \<Rightarrow> world \<Rightarrow> int \<times> shell_state_t \<times> world" where
  "wait_foreground_group K st pgid label w =
     wait_loop (k_wait K (w_trace w) pgid) st pgid label 0 False w"

text \<open>What the wait leaves alone: everything of the process but its trace, and the session.\<close>

definition only_trace :: "world \<Rightarrow> world \<Rightarrow> bool" where
  "only_trace w w' \<longleftrightarrow> same_context w w' \<and> w_fds w' = w_fds w \<and> w_stdin w' = w_stdin w"

lemma only_trace_simps [simp]:
  "only_trace w w" "only_trace w (emit e w') = only_trace w w'"
  "only_trace w (print_lines ls w') = only_trace w w'"
  by (simp_all add: only_trace_def)

lemma only_trace_trans [trans]: "only_trace a b \<Longrightarrow> only_trace b c \<Longrightarrow> only_trace a c"
  unfolding only_trace_def by (metis same_context_trans)

lemma only_traceD:
  assumes "only_trace w w'"
  shows "w_fds w' = w_fds w" "w_stdin w' = w_stdin w" "w_mask w' = w_mask w" "w_tty w' = w_tty w"
    "w_env w' = w_env w" "w_cwd w' = w_cwd w" "w_disp w' = w_disp w" "w_pipes w' = w_pipes w"
  using assms by (simp_all add: only_trace_def same_context_def)

definition only_jobs :: "shell_state_t \<Rightarrow> shell_state_t \<Rightarrow> bool" where
  "only_jobs st st' \<longleftrightarrow> same_session st st' \<and> last_status st' = last_status st \<and>
     should_exit st' = should_exit st \<and> (shell_inv st \<longrightarrow> shell_inv st')"

lemma only_jobs_refl [simp]: "only_jobs st st"
  by (simp add: only_jobs_def)

lemma only_jobs_trans [trans]: "only_jobs a b \<Longrightarrow> only_jobs b c \<Longrightarrow> only_jobs a c"
  by (auto simp: only_jobs_def intro: same_session_trans)

lemma only_jobs_set:
  "(jobs_inv (sh_jobs st) \<Longrightarrow> jobs_inv t) \<Longrightarrow> only_jobs st (st\<lparr>sh_jobs := t\<rparr>)"
  by (auto simp: only_jobs_def shell_inv_def)

text \<open>The shell has the terminal, when it has one.\<close>

definition owns_tty :: "shell_state_t \<Rightarrow> world \<Rightarrow> bool" where
  "owns_tty st w \<longleftrightarrow> (interactive st \<longrightarrow> w_tty w = shell_pgid st)"

lemma owns_tty_simps [simp]:
  "owns_tty (st\<lparr>sh_jobs := t\<rparr>) w = owns_tty st w" "owns_tty (st\<lparr>sh_history := h\<rparr>) w = owns_tty st w"
  "owns_tty (st\<lparr>last_status := n\<rparr>) w = owns_tty st w" "owns_tty (st\<lparr>should_exit := b\<rparr>) w = owns_tty st w"
  "owns_tty st (emit e w) = owns_tty st w" "owns_tty st (print_lines ls w) = owns_tty st w"
  by (simp_all add: owns_tty_def)

lemma owns_tty_cong:
  "same_session st st' \<Longrightarrow> w_tty w' = w_tty w \<Longrightarrow> owns_tty st' w' = owns_tty st w"
  by (simp add: owns_tty_def same_session_def)

text \<open>What the shell does when a job has left the foreground.\<close>

definition reclaim_tty :: "shell_state_t \<Rightarrow> world \<Rightarrow> world" where
  "reclaim_tty st w =
     (if interactive st then sys_tcsetpgrp (shell_terminal st) (shell_pgid st) w else w)"

lemma reclaim_frame [simp, frame_simps]:
  "w_fds (reclaim_tty st w) = w_fds w" "w_pipes (reclaim_tty st w) = w_pipes w"
  "w_env (reclaim_tty st w) = w_env w" "w_cwd (reclaim_tty st w) = w_cwd w"
  "w_mask (reclaim_tty st w) = w_mask w" "w_disp (reclaim_tty st w) = w_disp w"
  "w_stdin (reclaim_tty st w) = w_stdin w"
  by (simp_all add: reclaim_tty_def)

lemma reclaim_owns [simp]: "owns_tty st (reclaim_tty st w)"
  by (simp add: owns_tty_def reclaim_tty_def)

lemma deliver_only: "deliver_sigchld K st w = (st', w') \<Longrightarrow> only_jobs st st' \<and> only_trace w w'"
  by (auto simp: deliver_sigchld_def sigchld_handler_def Let_def reap_loop_facts
      intro!: only_jobs_set split: if_splits)

lemma unblock_only:
  "unblock_sigchld K prev st w = (st', w') \<Longrightarrow>
     only_jobs st st' \<and> only_trace (w\<lparr>w_mask := prev\<rparr>) w'"
  unfolding unblock_sigchld_def by (rule deliver_only)

lemma wait_done_frame:
  "wait_done st pgid code interrupted w = (r, st', w') \<Longrightarrow> only_jobs st st' \<and> only_trace w w'"
  by (auto simp: wait_done_def Let_def intro!: only_jobs_set jobs_remove_by_pid_inv split: if_splits)

lemma wait_stopped_frame:
  assumes "wait_stopped st pgid label status w = (r, st', w')"
  shows "only_jobs st st' \<and> only_trace w w'"
proof (cases "jobs_find_by_pid (sh_jobs st) pgid")
  case None
  have "jobs_inv (sh_jobs st) \<Longrightarrow> jobs_inv (snd (jobs_add (sh_jobs st) pgid label JOB_STOPPED))"
    by (rule jobs_add_inv)
  then show ?thesis
    using assms None by (auto simp: wait_stopped_def case_prod_beta intro!: only_jobs_set)
next
  case (Some i)
  have "jobs_inv (sh_jobs st) \<Longrightarrow> jobs_inv (jobs_set_state (sh_jobs st) i JOB_STOPPED)"
    using jobs_find_by_pid_Some [OF Some] by (intro jobs_set_state_inv) simp_all
  then show ?thesis using assms Some by (auto simp: wait_stopped_def intro!: only_jobs_set)
qed

lemma wait_loop_frame:
  "wait_loop answers st pgid label code interrupted w = (r, st', w') \<Longrightarrow>
     only_jobs st st' \<and> only_trace w w'"
proof (induction answers st pgid label code interrupted w rule: wait_loop.induct)
  case (1 st pgid label code interrupted w)
  then show ?case using wait_done_frame [of st pgid code interrupted "emit (SysWait (- pgid)) w"]
      only_trace_trans [of w "emit (SysWait (- pgid)) w"] by simp
next
  case (2 p status answers st pgid label code interrupted w)
  let ?w1 = "emit (SysWait (- pgid)) w"
  consider "p < 0" | "\<not> p < 0" "WIFSTOPPED status" | "\<not> p < 0" "\<not> WIFSTOPPED status" by blast
  then have "only_jobs st st' \<and> only_trace ?w1 w'"
  proof cases
    case 1
    then show ?thesis using "2.prems" wait_done_frame [of st pgid code interrupted ?w1] by simp
  next
    case 2
    then show ?thesis using "2.prems" wait_stopped_frame [of st pgid label status ?w1] by simp
  next
    case 3
    then show ?thesis using "2.prems" "2.IH" [OF refl] by simp
  qed
  moreover have "only_trace w ?w1" by simp
  ultimately show ?case using only_trace_trans by blast
qed

lemma wait_frame:
  "wait_foreground_group K st pgid label w = (r, st', w') \<Longrightarrow> only_jobs st st' \<and> only_trace w w'"
  unfolding wait_foreground_group_def by (rule wait_loop_frame)

text \<open>Waiting and delivery append, and fork nothing.\<close>

fun no_fork :: "event \<Rightarrow> bool" where
  "no_fork (SysFork p) = False"
| "no_fork e = True"

abbreviation extends :: "world \<Rightarrow> world \<Rightarrow> bool" where
  "extends \<equiv> trace_ext no_fork"

lemma extends_simps [simp]: "extends w w" "extends w w' \<Longrightarrow> no_fork e \<Longrightarrow> extends w (emit e w')"
  "extends w w' \<Longrightarrow> extends w (reclaim_tty st w')" "extends w w' \<Longrightarrow> extends w (print_lines ls w')"
  by (auto simp: trace_ext_def reclaim_tty_def list_all_iff)

lemma wait_loop_extends:
  "extends w (snd (snd (wait_loop answers st pgid label code interrupted w)))"
proof (induction answers st pgid label code interrupted w rule: wait_loop.induct)
  case (1 st pgid label code interrupted w)
  then show ?case by (simp add: wait_done_def Let_def)
next
  case (2 p status answers st pgid label code interrupted w)
  let ?w1 = "emit (SysWait (- pgid)) w"
  have e1: "extends w ?w1" by simp
  consider "p < 0" | "\<not> p < 0" "WIFSTOPPED status" | "\<not> p < 0" "\<not> WIFSTOPPED status" by blast
  then have "extends ?w1 (snd (snd (wait_loop ((p, status) # answers) st pgid label code interrupted w)))"
  proof cases
    case 1
    then show ?thesis by (simp add: wait_done_def Let_def)
  next
    case 2
    then show ?thesis by (simp add: wait_stopped_def Let_def case_prod_beta del: append_Cons)
  next
    case 3
    then show ?thesis using "2.IH" [OF refl 3] by simp
  qed
  then show ?case using trace_ext_trans [OF e1] by blast
qed

lemma wait_extends: "wait_foreground_group K st pgid label w = (r, st', w') \<Longrightarrow> extends w w'"
  using wait_loop_extends [of w "k_wait K (w_trace w) pgid" st pgid label 0 False]
  by (simp add: wait_foreground_group_def)

lemma unblock_extends: "unblock_sigchld K prev st w = (st', w') \<Longrightarrow> extends w w'"
  by (auto simp: unblock_sigchld_def deliver_sigchld_def sigchld_handler_def Let_def trace_ext_def
      split: if_splits)

text \<open>Members that ended, none that stopped.\<close>

definition ended :: "(int \<times> wstatus) list \<Rightarrow> bool" where
  "ended answers \<longleftrightarrow> (\<forall>(p, s) \<in> set answers. 0 \<le> p \<and> \<not> WIFSTOPPED s)"

definition end_code :: "(int \<times> wstatus) list \<Rightarrow> int" where
  "end_code answers = (if answers = [] then 0 else status_to_code (snd (last answers)))"

lemma wait_loop_ended_state:
  "ended answers \<Longrightarrow> wait_loop answers st pgid label code interrupted w = (r, st', w') \<Longrightarrow>
     r = (if answers = [] then code else status_to_code (snd (last answers))) \<and>
     st' = st\<lparr>sh_jobs := jobs_remove_by_pid (sh_jobs st) pgid\<rparr>"
proof (induction answers st pgid label code interrupted w rule: wait_loop.induct)
  case (1 st pgid label code interrupted w)
  then show ?case by (auto simp: wait_done_def Let_def)
next
  case (2 p status answers st pgid label code interrupted w)
  have a: "\<not> p < 0" "\<not> WIFSTOPPED status" "ended answers" using "2.prems"(1) by (auto simp: ended_def)
  then show ?case using "2.IH" [OF refl a(1,2) a(3)] "2.prems"(2) by auto
qed

lemma wait_ended:
  assumes "ended (k_wait K (w_trace w) pgid)"
    "wait_foreground_group K st pgid label w = (r, st', w')"
  shows "r = end_code (k_wait K (w_trace w) pgid)"
    "st' = st\<lparr>sh_jobs := jobs_remove_by_pid (sh_jobs st) pgid\<rparr>"
  using wait_loop_ended_state [OF assms(1) assms(2) [unfolded wait_foreground_group_def]]
  by (simp_all add: end_code_def)

text \<open>The first member that stopped ends the wait.\<close>

lemma wait_loop_stop:
  "ended pre \<Longrightarrow> 0 \<le> p \<Longrightarrow> WIFSTOPPED s \<Longrightarrow>
     \<exists>w1. wait_loop (pre @ (p, s) # post) st pgid label code interrupted w =
       wait_stopped st pgid label s w1 \<and> only_trace w w1"
proof (induction pre arbitrary: code interrupted w)
  case Nil
  then show ?case by (auto simp: Let_def intro!: exI [of _ "emit (SysWait (- pgid)) w"])
next
  case (Cons x pre)
  obtain q status where x: "x = (q, status)" by (cases x)
  have a: "\<not> q < 0" "\<not> WIFSTOPPED status" "ended pre" using Cons.prems(1) x by (auto simp: ended_def)
  let ?i = "if WIFSIGNALED status \<and>
     (WTERMSIG status = signum SIGINT \<or> WTERMSIG status = signum SIGQUIT) then True else interrupted"
  obtain w1 where "wait_loop (pre @ (p, s) # post) st pgid label (status_to_code status) ?i
      (emit (SysWait (- pgid)) w) = wait_stopped st pgid label s w1" "only_trace (emit (SysWait (- pgid)) w) w1"
    using Cons.IH [OF a(3) Cons.prems(2,3)] by blast
  moreover have "only_trace w w1"
    using only_trace_trans [of w "emit (SysWait (- pgid)) w" w1] calculation by simp
  ultimately show ?case using a x by (auto simp: Let_def)
qed

section \<open>The correctness of labels and waiting\<close>

text \<open>What the packed words decode to.\<close>

lemma exit_words: "list_all (\<lambda>c. WIFEXITED (exit_word c) \<and> WEXITSTATUS (exit_word c) = int c) [0..<256]"
  by code_simp

lemma signal_words: "list_all (\<lambda>s. \<not> WIFEXITED (signal_word s) \<and> WIFSIGNALED (signal_word s) \<and>
    \<not> WIFSTOPPED (signal_word s) \<and> WTERMSIG (signal_word s) = int s) [1..<127]"
  by code_simp

lemma stop_words: "list_all (\<lambda>s. WIFSTOPPED (stop_word s) \<and> WSTOPSIG (stop_word s) = int s) [0..<256]"
  by code_simp

text \<open>The exit code of a program that exits with a code below 256 is that code, of one that a
  signal killed 128 plus the signal's number, and for every status word whatever a code that fits
  a byte.\<close>

lemma exit_codes:
  "(\<forall>c < 256. status_to_code (exit_word c) = int c) \<and>
   (\<forall>s. 1 \<le> s \<and> s \<le> 126 \<longrightarrow> status_to_code (signal_word s) = 128 + int s) \<and>
   0 \<le> status_to_code w \<and> status_to_code w \<le> 255"
  using exit_words signal_words status_to_code_range [of w]
  by (auto simp: list_all_iff status_to_code_def)

text \<open>The label of a pipeline in a buffer of n bytes is its words joined by blanks and its
  stages joined by bars, cut to n - 1 bytes; the writer never passes the end of the buffer.\<close>

lemma label_text:
  assumes "pipeline_inv p" "0 < n"
  shows "format_pipeline_label p n = take (n - 1) (full_label (stages p)) \<and>
    length (format_pipeline_label p n) < n"
  using format_label_eq [OF assms] assms(2) by simp



text \<open>C29: when every member of the foreground group ends and none stops, the wait returns the code
  of the last member that ended (not of the last stage), 0 when there was none, and takes the
  group's job, if it had one, out of the table; nothing else of the shell changes, and its process
  changes only by what it printed.\<close>

theorem wait_result:
  assumes "ended (k_wait K (w_trace w) pgid)" "wait_foreground_group K st pgid label w = (r, st', w')"
  shows "r = end_code (k_wait K (w_trace w) pgid) \<and>
    st' = st\<lparr>sh_jobs := jobs_remove_by_pid (sh_jobs st) pgid\<rparr> \<and> only_trace w w'"
  using wait_ended [OF assms] wait_frame [OF assms(2)] by simp

theorem wait_result_witness:
  "fst (wait_foreground_group (sample_kernel\<lparr>k_wait := \<lambda>_ _. [(7, exit_word 0), (5, exit_word 3)]\<rparr>)
     shell_init 5 ''false | true'' sample_world) = 3"
proof -
  let ?K = "sample_kernel\<lparr>k_wait := \<lambda>_ _. [(7, exit_word 0), (5, exit_word 3)]\<rparr>"
  let ?r = "wait_foreground_group ?K shell_init 5 ''false | true'' sample_world"
  have "ended [(7, exit_word 0), (5, exit_word 3)]" by code_simp
  moreover have "end_code [(7, exit_word 0), (5, exit_word 3)] = 3" by code_simp
  ultimately show ?thesis
    using wait_result [of ?K sample_world 5 shell_init "''false | true''" "fst ?r" "fst (snd ?r)" "snd (snd ?r)"]
    by simp
qed



end
