(* ===== verification/Builtins.thy ===== *)
theory Builtins
  imports Waiting Clib
begin

text \<open>
  The built-in commands (builtins.h, builtins.c). Each takes the command, the shell's state and
  the process and returns its int with both. The argument array is read by index, as in the
  code; entry 1 is None when the command has no argument.
\<close>

section \<open>System calls of the built-ins\<close>

definition sys_chdir :: "kernel \<Rightarrow> string \<Rightarrow> world \<Rightarrow> string option \<times> world" where
  "sys_chdir K dir w =
     (let w1 = emit (SysChdir dir) w
      in case k_chdir K (w_trace w) dir of
           Inl err \<Rightarrow> (Some err, w1)
         | Inr cwd \<Rightarrow> (None, w1\<lparr>w_cwd := cwd\<rparr>))"

definition sys_kill :: "kernel \<Rightarrow> int \<Rightarrow> signal \<Rightarrow> world \<Rightarrow> string option \<times> world" where
  "sys_kill K target s w = (k_kill K (w_trace w) target s, emit (SysKill target s) w)"

definition strchr :: "string \<Rightarrow> char \<Rightarrow> nat option" where
  "strchr s c = first_index (\<lambda>x. x = c) s"

section \<open>The commands\<close>

definition builtin_cd :: "kernel \<Rightarrow> string option list \<Rightarrow> world \<Rightarrow> int \<times> world" where
  "builtin_cd K as w =
     (case (case as ! 1 of Some d \<Rightarrow> Some d | None \<Rightarrow> w_env w ''HOME'') of
        None \<Rightarrow> (1, emit (PrintErr (''mysh: cd: HOME not set'' @ [NL])) w)
      | Some dir \<Rightarrow>
          (case sys_chdir K dir w of
             (Some err, w1) \<Rightarrow>
               (1, emit (PrintErr (''mysh: cd: '' @ dir @ '': '' @ err @ [NL])) w1)
           | (None, w1) \<Rightarrow> (0, w1)))"

definition builtin_exit :: "command_t \<Rightarrow> shell_state_t \<Rightarrow> int \<times> shell_state_t" where
  "builtin_exit cmd st =
     (let code = (case args cmd ! 1 of Some s \<Rightarrow> atoi s | None \<Rightarrow> last_status st)
      in (code, st\<lparr>should_exit := True\<rparr>))"

definition builtin_export :: "kernel \<Rightarrow> string option list \<Rightarrow> world \<Rightarrow> int \<times> world" where
  "builtin_export K as w =
     (case as ! 1 of
        None \<Rightarrow> (1, emit (PrintErr (''mysh: export: usage: export NAME=VALUE'' @ [NL])) w)
      | Some s \<Rightarrow>
          (case strchr s (CHR ''='') of
             None \<Rightarrow>
               (1, emit (PrintErr (''mysh: export: '' @ s @ '': not a NAME=VALUE pair'' @ [NL])) w)
           | Some equals \<Rightarrow>
               (case sys_setenv K (take equals s) (drop (equals + 1) s) w of
                  (Some err, w1) \<Rightarrow> (1, emit (PrintErr (''mysh: export: '' @ err @ [NL])) w1)
                | (None, w1) \<Rightarrow> (0, w1))))"

definition builtin_jobs ::
  "kernel \<Rightarrow> shell_state_t \<Rightarrow> world \<Rightarrow> int \<times> shell_state_t \<times> world" where
  "builtin_jobs K st w =
     (let (prev, w1) = block_sigchld w;
          w2 = print_lines (jobs_print (sh_jobs st)) w1;
          st1 = st\<lparr>sh_jobs := jobs_clear_done (sh_jobs st)\<rparr>;
          (st2, w3) = unblock_sigchld K prev st1 w2
      in (0, st2, w3))"

definition parse_job_id :: "string option \<Rightarrow> int" where
  "parse_job_id arg =
     (case arg of
        None \<Rightarrow> -1
      | Some s \<Rightarrow>
          (let digits = (if s \<noteq> [] \<and> hd s = CHR ''%'' then tl s else s)
           in if digits = [] then -1 else atoi digits))"

text \<open>\<open>fg\<close> and \<open>bg\<close> on the job they found, inside the critical section.\<close>

definition fg_job ::
  "kernel \<Rightarrow> nat \<Rightarrow> shell_state_t \<Rightarrow> world \<Rightarrow> int \<times> shell_state_t \<times> world" where
  "fg_job K i st w1 =
     (let job = jobs (sh_jobs st) ! i;
          pgid = job_pid job;
          w2 = emit (Print (job_command job @ [NL])) w1;
          w3 = (if interactive st then sys_tcsetpgrp (shell_terminal st) pgid w2 else w2);
          (st1, w4) =
            (if job_state job = JOB_STOPPED
             then (st\<lparr>sh_jobs := jobs_set_state (sh_jobs st) i JOB_RUNNING\<rparr>,
                   snd (sys_kill K (- pgid) SIGCONT w3))
             else (st, w3));
          (code, st2, w5) = wait_foreground_group K st1 pgid (job_command job) w4
      in (code, st2, reclaim_tty st2 w5))"

definition builtin_fg ::
  "kernel \<Rightarrow> command_t \<Rightarrow> shell_state_t \<Rightarrow> world \<Rightarrow> int \<times> shell_state_t \<times> world" where
  "builtin_fg K cmd st w =
     (let k = parse_job_id (args cmd ! 1)
      in if k < 0 then (1, st, emit (PrintErr (''mysh: fg: usage: fg %jobid'' @ [NL])) w)
         else
           (let (prev, w1) = block_sigchld w
            in case jobs_find_by_id (sh_jobs st) k of
                 None \<Rightarrow>
                   (let (st1, w2) = unblock_sigchld K prev st w1
                    in (1, st1, emit (PrintErr
                          (''mysh: fg: '' @ printf_s (args cmd ! 1) @ '': no such job'' @ [NL])) w2))
               | Some i \<Rightarrow>
                   (let (code, st1, w2) = fg_job K i st w1;
                        (st2, w3) = unblock_sigchld K prev st1 w2
                    in (code, st2, w3))))"

definition bg_job :: "kernel \<Rightarrow> nat \<Rightarrow> shell_state_t \<Rightarrow> world \<Rightarrow> shell_state_t \<times> world" where
  "bg_job K i st w1 =
     (let job = jobs (sh_jobs st) ! i
      in if job_state job = JOB_STOPPED
         then (st\<lparr>sh_jobs := jobs_set_state (sh_jobs st) i JOB_RUNNING\<rparr>,
               emit (Print (''['' @ dec_int (job_id job) @ ''] '' @ job_command job @ '' &'' @ [NL]))
                 (snd (sys_kill K (- job_pid job) SIGCONT w1)))
         else (st, emit (PrintErr (''mysh: bg: job '' @ dec_int (job_id job) @
                            '' is already running'' @ [NL])) w1))"

definition builtin_bg ::
  "kernel \<Rightarrow> command_t \<Rightarrow> shell_state_t \<Rightarrow> world \<Rightarrow> int \<times> shell_state_t \<times> world" where
  "builtin_bg K cmd st w =
     (let k = parse_job_id (args cmd ! 1)
      in if k < 0 then (1, st, emit (PrintErr (''mysh: bg: usage: bg %jobid'' @ [NL])) w)
         else
           (let (prev, w1) = block_sigchld w
            in case jobs_find_by_id (sh_jobs st) k of
                 None \<Rightarrow>
                   (let (st1, w2) = unblock_sigchld K prev st w1
                    in (1, st1, emit (PrintErr
                          (''mysh: bg: '' @ printf_s (args cmd ! 1) @ '': no such job'' @ [NL])) w2))
               | Some i \<Rightarrow>
                   (let (st1, w2) = bg_job K i st w1;
                        (st2, w3) = unblock_sigchld K prev st1 w2
                    in (0, st2, w3))))"

text \<open>The last step of \<open>builtin_kill\<close>, on the target it chose.\<close>

definition kill_target ::
  "kernel \<Rightarrow> int \<Rightarrow> shell_state_t \<Rightarrow> world \<Rightarrow> int \<times> shell_state_t \<times> world" where
  "kill_target K target st w =
     (case sys_kill K target SIGTERM w of
        (Some err, w1) \<Rightarrow> (1, st, emit (PrintErr (''mysh: kill: '' @ err @ [NL])) w1)
      | (None, w1) \<Rightarrow> (0, st, w1))"

definition builtin_kill ::
  "kernel \<Rightarrow> command_t \<Rightarrow> shell_state_t \<Rightarrow> world \<Rightarrow> int \<times> shell_state_t \<times> world" where
  "builtin_kill K cmd st w =
     (case args cmd ! 1 of
        None \<Rightarrow> (1, st, emit (PrintErr (''mysh: kill: usage: kill %jobid | pid'' @ [NL])) w)
      | Some s \<Rightarrow>
          if s \<noteq> [] \<and> hd s = CHR ''%'' then
            (let k = parse_job_id (Some s);
                 (prev, w1) = block_sigchld w
             in case jobs_find_by_id (sh_jobs st) k of
                  None \<Rightarrow>
                    (let (st1, w2) = unblock_sigchld K prev st w1
                     in (1, st1, emit (PrintErr
                           (''mysh: kill: '' @ s @ '': no such job'' @ [NL])) w2))
                | Some i \<Rightarrow>
                    (let target = - job_pid (jobs (sh_jobs st) ! i);
                         (st1, w2) = unblock_sigchld K prev st w1
                     in kill_target K target st1 w2))
          else kill_target K (atoi s) st w)"

definition help_lines :: "string list" where
  "help_lines = map (\<lambda>l. l @ [NL])
     [''mysh built-in commands:'',
      ''  cd [dir]          change the working directory (default: $HOME)'',
      ''  exit [code]       exit the shell (default: last command'' @ [CHR 0x27] @ ''s status)'',
      ''  export NAME=VALUE set an environment variable for child processes'',
      ''  history           list previously entered commands'',
      ''  jobs              list background and stopped jobs'',
      ''  fg %jobid         resume a job in the foreground'',
      ''  bg %jobid         resume a stopped job in the background'',
      ''  kill %jobid|pid   send SIGTERM to a job or pid'',
      ''  help              show this message'',
      '''',
      ''Everything else is run as an external program via fork/exec.'']"

definition builtin_help :: "world \<Rightarrow> int \<times> world" where
  "builtin_help w = (0, print_lines help_lines w)"

section \<open>Dispatch\<close>

definition is_builtin :: "string \<Rightarrow> bool" where
  "is_builtin name \<longleftrightarrow>
     name = ''cd'' \<or> name = ''exit'' \<or> name = ''export'' \<or> name = ''history'' \<or> name = ''jobs'' \<or>
     name = ''fg'' \<or> name = ''bg'' \<or> name = ''kill'' \<or> name = ''help''"

text \<open>
  \<open>args[0]\<close>, which the code compares without a NULL test: a command that has no argument has
  no defined name here either.
\<close>

abbreviation cmd_name :: "command_t \<Rightarrow> string" where
  "cmd_name cmd \<equiv> the (args cmd ! 0)"

text \<open>
  A listing that reads an empty slot of the history would be undefined; \<open>history_print_list\<close>
  shows that none is read.
\<close>

definition run_builtin ::
  "kernel \<Rightarrow> command_t \<Rightarrow> shell_state_t \<Rightarrow> world \<Rightarrow> int \<times> shell_state_t \<times> world" where
  "run_builtin K cmd st w =
     (let name = cmd_name cmd
      in if name = ''cd'' then (case builtin_cd K (args cmd) w of (r, w') \<Rightarrow> (r, st, w'))
         else if name = ''exit'' then (case builtin_exit cmd st of (r, st') \<Rightarrow> (r, st', w))
         else if name = ''export'' then (case builtin_export K (args cmd) w of (r, w') \<Rightarrow> (r, st, w'))
         else if name = ''history'' then (0, st, print_lines (the (history_print (sh_history st))) w)
         else if name = ''jobs'' then builtin_jobs K st w
         else if name = ''fg'' then builtin_fg K cmd st w
         else if name = ''bg'' then builtin_bg K cmd st w
         else if name = ''kill'' then builtin_kill K cmd st w
         else if name = ''help'' then (case builtin_help w of (r, w') \<Rightarrow> (r, st, w'))
         else (1, st, emit (PrintErr (''mysh: '' @ name @ '': not a built-in'' @ [NL])) w))"

section \<open>What a built-in leaves alone\<close>

text \<open>
  Descriptors, input, signal mask and dispositions, history and session are as before, and the
  invariants hold after: the mask was restored on every path. The environment, the directory,
  the terminal, the job table and the exit flag are what a built-in may change.
\<close>

definition calm :: "shell_state_t \<times> world \<Rightarrow> shell_state_t \<times> world \<Rightarrow> bool" where
  "calm a b \<longleftrightarrow> (case a of (st, w) \<Rightarrow> case b of (st', w') \<Rightarrow>
     same_session st st' \<and> last_status st' = last_status st \<and> (shell_inv st \<longrightarrow> shell_inv st') \<and>
     w_fds w' = w_fds w \<and> w_pipes w' = w_pipes w \<and> w_stdin w' = w_stdin w \<and>
     w_mask w' = w_mask w \<and> w_disp w' = w_disp w)"

lemma calm_refl [simp]: "calm a a"
  by (simp add: calm_def split: prod.split)

lemma calm_trans [trans]: "calm a b \<Longrightarrow> calm b c \<Longrightarrow> calm a c"
  by (auto simp: calm_def intro: same_session_trans split: prod.splits)

lemma calm_emit [simp]: "calm a (st, emit e w) = calm a (st, w)"
  by (simp add: calm_def split: prod.split)

lemma calm_print_lines [simp]: "calm a (st, print_lines ls w) = calm a (st, w)"
  by (simp add: calm_def split: prod.split)

lemma calm_only: "only_jobs st st' \<Longrightarrow> only_trace w w' \<Longrightarrow> calm (st, w) (st', w')"
  by (auto simp: calm_def only_jobs_def dest: only_traceD)

text \<open>A critical section: masked inside, the old mask after.\<close>

lemma calm_section:
  assumes "unblock_sigchld K (w_mask w) st1 w1 = (st', w')"
    and "calm (st, snd (block_sigchld w)) (st1, w1)"
  shows "calm (st, w) (st', w')"
proof -
  note u = unblock_only [OF assms(1)]
  have "calm (st, w) (st1, w1\<lparr>w_mask := w_mask w\<rparr>)"
    using assms(2) by (auto simp: calm_def)
  also have "calm \<dots> (st', w')" using u by (intro calm_only) simp_all
  finally show ?thesis .
qed

lemma calm_tcsetpgrp [simp]: "calm a (st, sys_tcsetpgrp fd p w) = calm a (st, w)"
  by (simp add: calm_def split: prod.split)

lemma calm_set_jobs:
  "(jobs_inv (sh_jobs st) \<Longrightarrow> jobs_inv t) \<Longrightarrow> calm (st, w) (st\<lparr>sh_jobs := t\<rparr>, w)"
  by (auto simp: calm_def shell_inv_def)

lemma calm_kill [simp]: "calm a (st, snd (sys_kill K p s w)) = calm a (st, w)"
  by (simp add: sys_kill_def)

lemma jobs_running_inv:
  "jobs_find_by_id t k = Some i \<Longrightarrow> jobs_inv t \<Longrightarrow> jobs_inv (jobs_set_state t i st)"
  by (auto dest: jobs_find_by_id_Some intro: jobs_set_state_inv)

lemma builtin_cd_calm: "builtin_cd K as w = (r, w') \<Longrightarrow> calm (st, w) (st, w')"
  by (auto simp: builtin_cd_def sys_chdir_def Let_def calm_def
      split: option.splits sum.splits prod.splits)

lemma builtin_export_calm: "builtin_export K as w = (r, w') \<Longrightarrow> calm (st, w) (st, w')"
  by (auto simp: builtin_export_def sys_setenv_def calm_def split: option.splits prod.splits if_splits)

lemma builtin_jobs_calm: "builtin_jobs K st w = (r, st', w') \<Longrightarrow> calm (st, w) (st', w')"
proof -
  assume a: "builtin_jobs K st w = (r, st', w')"
  let ?w1 = "print_lines (jobs_print (sh_jobs st)) (snd (block_sigchld w))"
  have "unblock_sigchld K (w_mask w) (st\<lparr>sh_jobs := jobs_clear_done (sh_jobs st)\<rparr>) ?w1 = (st', w')"
    using a by (simp add: builtin_jobs_def block_sigchld_def split: prod.splits)
  moreover have "calm (st, snd (block_sigchld w)) (st\<lparr>sh_jobs := jobs_clear_done (sh_jobs st)\<rparr>, ?w1)"
    using jobs_clear_done_map(1) by (auto intro: calm_set_jobs)
  ultimately show ?thesis by (rule calm_section)
qed

text \<open>The part of a command that only looks a job up in vain.\<close>

lemma calm_unblock: "calm (st, w) (unblock_sigchld K (w_mask w) st (snd (block_sigchld w)))"
  by (cases "unblock_sigchld K (w_mask w) st (snd (block_sigchld w))")
    (simp add: calm_section [of K w st "snd (block_sigchld w)"])

lemma calm_pair: "calm a (unblock_sigchld K p st w) \<Longrightarrow> unblock_sigchld K p st w = (st', w') \<Longrightarrow>
  calm a (st', w')"
  by simp

lemma kill_target_calm: "kill_target K target st w = (r, st', w') \<Longrightarrow> calm (st, w) (st', w')"
  unfolding kill_target_def sys_kill_def by (auto split: option.splits)

lemma bg_job_calm:
  assumes "jobs_find_by_id (sh_jobs st) k = Some i"
  shows "calm (st, w) (bg_job K i st w)"
proof -
  have "calm (st, w) (st\<lparr>sh_jobs := jobs_set_state (sh_jobs st) i JOB_RUNNING\<rparr>, w)"
    using jobs_running_inv [OF assms] by (intro calm_set_jobs)
  then show ?thesis by (simp add: bg_job_def Let_def del: append_Cons append_Nil)
qed

lemma fg_job_calm:
  assumes "jobs_find_by_id (sh_jobs st) k = Some i"
  shows "calm (st, w) (snd (fg_job K i st w))"
proof -
  let ?job = "jobs (sh_jobs st) ! i"
  let ?w3 = "let w2 = emit (Print (job_command ?job @ [NL])) w
             in if interactive st then sys_tcsetpgrp (shell_terminal st) (job_pid ?job) w2 else w2"
  define sw where "sw = (if job_state ?job = JOB_STOPPED
      then (st\<lparr>sh_jobs := jobs_set_state (sh_jobs st) i JOB_RUNNING\<rparr>,
            snd (sys_kill K (- job_pid ?job) SIGCONT ?w3)) else (st, ?w3))"
  obtain r st2 w5 where wait: "wait_foreground_group K (fst sw) (job_pid ?job) (job_command ?job)
      (snd sw) = (r, st2, w5)" by (metis prod_cases3)
  have "calm (st, w) (st\<lparr>sh_jobs := jobs_set_state (sh_jobs st) i JOB_RUNNING\<rparr>, w)"
    using jobs_running_inv [OF assms] by (intro calm_set_jobs)
  then have "calm (st, w) sw" by (simp add: sw_def Let_def)
  also have "calm sw (st2, w5)" using wait_frame [OF wait] calm_only [of "fst sw" st2 "snd sw" w5] by simp
  also have "calm \<dots> (snd (fg_job K i st w))"
    using wait by (simp add: fg_job_def Let_def case_prod_beta reclaim_tty_def sw_def [symmetric, unfolded Let_def])
  finally show ?thesis .
qed

lemma builtin_bg_calm: "calm (st, w) (snd (builtin_bg K cmd st w))"
proof -
  let ?k = "parse_job_id (args cmd ! 1)" and ?w1 = "snd (block_sigchld w)"
  consider "?k < 0" | "\<not> ?k < 0" "jobs_find_by_id (sh_jobs st) ?k = None"
    | i where "\<not> ?k < 0" "jobs_find_by_id (sh_jobs st) ?k = Some i" by fastforce
  then show ?thesis
  proof cases
    case 1
    then show ?thesis unfolding builtin_bg_def by (simp only: Let_def if_True snd_conv calm_emit calm_refl)
  next
    case 2
    then show ?thesis using calm_unblock [of st w K] unfolding builtin_bg_def
      by (simp only: Let_def if_False case_prod_beta option.case snd_conv calm_emit block_frame prod.collapse)
  next
    case (3 i)
    have "calm (st, w) (unblock_sigchld K (w_mask w) (fst (bg_job K i st ?w1)) (snd (bg_job K i st ?w1)))"
      using calm_section [of K w "fst (bg_job K i st ?w1)" "snd (bg_job K i st ?w1)"]
        bg_job_calm [OF 3(2), of ?w1 K] by (metis prod.collapse)
    then show ?thesis unfolding builtin_bg_def using 3
      by (simp only: Let_def if_False case_prod_beta option.case snd_conv block_frame prod.collapse)
  qed
qed

lemma builtin_fg_calm: "calm (st, w) (snd (builtin_fg K cmd st w))"
proof -
  let ?k = "parse_job_id (args cmd ! 1)" and ?w1 = "snd (block_sigchld w)"
  consider "?k < 0" | "\<not> ?k < 0" "jobs_find_by_id (sh_jobs st) ?k = None"
    | i where "\<not> ?k < 0" "jobs_find_by_id (sh_jobs st) ?k = Some i" by fastforce
  then show ?thesis
  proof cases
    case 1
    then show ?thesis unfolding builtin_fg_def by (simp only: Let_def if_True snd_conv calm_emit calm_refl)
  next
    case 2
    then show ?thesis using calm_unblock [of st w K] unfolding builtin_fg_def
      by (simp only: Let_def if_False case_prod_beta option.case snd_conv calm_emit block_frame prod.collapse)
  next
    case (3 i)
    let ?j = "snd (fg_job K i st ?w1)"
    have "calm (st, w) (unblock_sigchld K (w_mask w) (fst ?j) (snd ?j))"
      using calm_section [of K w "fst ?j" "snd ?j"] fg_job_calm [OF 3(2), of ?w1 K]
      by (metis prod.collapse)
    then show ?thesis unfolding builtin_fg_def using 3
      by (simp only: Let_def if_False case_prod_beta option.case snd_conv block_frame prod.collapse)
  qed
qed

lemma builtin_kill_calm: "calm (st, w) (snd (builtin_kill K cmd st w))"
proof (cases "args cmd ! 1")
  case None
  then show ?thesis unfolding builtin_kill_def by (simp only: option.case snd_conv calm_emit calm_refl)
next
  case (Some s)
  let ?u = "unblock_sigchld K (w_mask w) st (snd (block_sigchld w))"
  have k: "calm (st1, w1) (snd (kill_target K t st1 w1))" for t st1 w1
    using kill_target_calm by (metis prod.collapse)
  have u: "calm (st, w) (snd (kill_target K t (fst ?u) (snd ?u)))" for t
    using calm_trans [OF calm_unblock [of st w K]] k by (metis prod.collapse)
  show ?thesis unfolding builtin_kill_def Some option.case
    using calm_unblock [of st w K] u k
    by (cases "jobs_find_by_id (sh_jobs st) (parse_job_id (Some s))")
      (simp_all only: Let_def case_prod_beta option.case snd_conv calm_emit block_frame prod.collapse
        split: if_split, simp_all)
qed

text \<open>The commands by name.\<close>

lemma builtin_cases:
  assumes "is_builtin name"
  obtains "name = ''cd''" | "name = ''exit''" | "name = ''export''" | "name = ''history''"
    | "name = ''jobs''" | "name = ''fg''" | "name = ''bg''" | "name = ''kill''" | "name = ''help''"
  using assms unfolding is_builtin_def by (elim disjE) (erule that)+

lemma run_builtin_simps:
  "cmd_name cmd = ''cd'' \<Longrightarrow>
     run_builtin K cmd st w = (fst (builtin_cd K (args cmd) w), st, snd (builtin_cd K (args cmd) w))"
  "cmd_name cmd = ''exit'' \<Longrightarrow> run_builtin K cmd st w = (fst (builtin_exit cmd st), snd (builtin_exit cmd st), w)"
  "cmd_name cmd = ''export'' \<Longrightarrow>
     run_builtin K cmd st w = (fst (builtin_export K (args cmd) w), st, snd (builtin_export K (args cmd) w))"
  "cmd_name cmd = ''history'' \<Longrightarrow>
     run_builtin K cmd st w = (0, st, print_lines (the (history_print (sh_history st))) w)"
  "cmd_name cmd = ''jobs'' \<Longrightarrow> run_builtin K cmd st w = builtin_jobs K st w"
  "cmd_name cmd = ''fg'' \<Longrightarrow> run_builtin K cmd st w = builtin_fg K cmd st w"
  "cmd_name cmd = ''bg'' \<Longrightarrow> run_builtin K cmd st w = builtin_bg K cmd st w"
  "cmd_name cmd = ''kill'' \<Longrightarrow> run_builtin K cmd st w = builtin_kill K cmd st w"
  "cmd_name cmd = ''help'' \<Longrightarrow> run_builtin K cmd st w = (0, st, print_lines help_lines w)"
  by (simp_all add: run_builtin_def Let_def case_prod_beta builtin_help_def)

lemma run_builtin_other:
  "\<not> is_builtin (cmd_name cmd) \<Longrightarrow>
     run_builtin K cmd st w =
       (1, st, emit (PrintErr (''mysh: '' @ cmd_name cmd @ '': not a built-in'' @ [NL])) w)"
  by (simp add: is_builtin_def run_builtin_def Let_def)

lemma run_builtin_calm: "calm (st, w) (snd (run_builtin K cmd st w))"
proof (cases "is_builtin (cmd_name cmd)")
  case True
  have "calm (st, w) (snd (builtin_exit cmd st), w)"
    by (simp add: builtin_exit_def Let_def calm_def shell_inv_def)
  moreover have "calm (st, w) (snd (builtin_jobs K st w))"
    using builtin_jobs_calm by (metis prod.collapse)
  ultimately show ?thesis
    using builtin_cd_calm [where st = st and K = K and as = "args cmd" and w = w]
      builtin_export_calm [where st = st and as = "args cmd" and w = w] builtin_fg_calm builtin_bg_calm builtin_kill_calm
    by (cases rule: builtin_cases [OF True]) (simp_all add: run_builtin_simps prod_eq_iff)
next
  case False
  show ?thesis unfolding run_builtin_other [OF False] by (simp only: snd_conv calm_emit calm_refl)
qed

text \<open>The terminal: \<open>fg\<close> hands it over and takes it back; the others leave it.\<close>

lemma unblock_owns:
  "unblock_sigchld K prev st w = (st', w') \<Longrightarrow> owns_tty st' w' = owns_tty st w"
  using unblock_frame(1,11) owns_tty_cong by blast

lemma fg_job_owns: "owns_tty (fst (snd (fg_job K i st w))) (snd (snd (fg_job K i st w)))"
  by (simp add: fg_job_def Let_def case_prod_beta)

lemma builtin_fg_owns:
  assumes "owns_tty st w" "builtin_fg K cmd st w = (r, st', w')"
  shows "owns_tty st' w'"
proof -
  let ?k = "parse_job_id (args cmd ! 1)" and ?w1 = "snd (block_sigchld w)"
  have w1: "owns_tty st ?w1" using assms(1) by (simp add: owns_tty_def)
  consider "?k < 0" | "\<not> ?k < 0" "jobs_find_by_id (sh_jobs st) ?k = None"
    | i where "\<not> ?k < 0" "jobs_find_by_id (sh_jobs st) ?k = Some i" by fastforce
  then have "owns_tty (fst (snd (builtin_fg K cmd st w))) (snd (snd (builtin_fg K cmd st w)))"
  proof cases
    case 1
    then show ?thesis using assms(1) unfolding builtin_fg_def
      by (simp only: Let_def if_True snd_conv fst_conv owns_tty_simps)
  next
    case 2
    then show ?thesis using unblock_owns [OF prod.collapse [symmetric], of K "w_mask w" st ?w1] w1
      unfolding builtin_fg_def
      by (simp only: Let_def if_False case_prod_beta option.case snd_conv fst_conv owns_tty_simps block_frame)
  next
    case (3 i)
    let ?j = "snd (fg_job K i st ?w1)"
    show ?thesis
      using unblock_owns [OF prod.collapse [symmetric], of K "w_mask w" "fst ?j" "snd ?j"]
        fg_job_owns [of K i st ?w1] 3
      unfolding builtin_fg_def
      by (simp only: Let_def if_False case_prod_beta option.case snd_conv fst_conv block_frame)
  qed
  then show ?thesis using assms(2) by simp
qed

text \<open>The others change the terminal nowhere.\<close>

lemma unblock_tty: "w_tty (snd (unblock_sigchld K prev st w)) = w_tty w"
  using unblock_frame(11) by (metis prod.collapse)

lemma builtin_bg_tty: "w_tty (snd (snd (builtin_bg K cmd st w))) = w_tty w"
proof -
  have "w_tty (snd (bg_job K i st w1)) = w_tty w1" for i w1
    by (simp add: bg_job_def Let_def sys_kill_def del: append_Cons append_Nil)
  then show ?thesis
    unfolding builtin_bg_def
    by (cases "jobs_find_by_id (sh_jobs st) (parse_job_id (args cmd ! 1))";
        cases "parse_job_id (args cmd ! 1) < 0")
      (simp_all only: Let_def if_True if_False case_prod_beta option.case snd_conv emit_frame
        unblock_tty block_frame)
qed

lemma builtin_kill_tty: "w_tty (snd (snd (builtin_kill K cmd st w))) = w_tty w"
proof -
  have k: "w_tty (snd (snd (kill_target K t st1 w1))) = w_tty w1" for t st1 w1
    unfolding kill_target_def sys_kill_def by (cases "k_kill K (w_trace w1) t SIGTERM") simp_all
  show ?thesis
    unfolding builtin_kill_def
    by (cases "args cmd ! 1"; cases "jobs_find_by_id (sh_jobs st) (parse_job_id (args cmd ! 1))")
      (simp_all only: Let_def case_prod_beta option.case snd_conv emit_frame unblock_tty block_frame k
        split: if_split, simp_all)
qed

lemma run_builtin_owns:
  assumes "owns_tty st w" "run_builtin K cmd st w = (r, st', w')"
  shows "owns_tty st' w'"
proof (cases "is_builtin (cmd_name cmd)")
  case False
  then show ?thesis using assms unfolding run_builtin_other [OF False]
    by (simp only: prod.inject) (auto simp del: append_Cons append_Nil)
next
  case True
  have tty: "same_session st st' \<Longrightarrow> w_tty w' = w_tty w \<Longrightarrow> owns_tty st' w'"
    using owns_tty_cong assms(1) by blast
  have sess: "same_session st st'" using run_builtin_calm [of st w K cmd] assms(2) by (simp add: calm_def)
  have "w_tty (snd (snd (builtin_jobs K st w))) = w_tty w"
    by (simp add: builtin_jobs_def case_prod_beta unblock_tty Let_def)
  moreover have "w_tty (snd (builtin_cd K as w)) = w_tty w" for as
    unfolding builtin_cd_def sys_chdir_def
    by (auto simp: Let_def split: option.split sum.split prod.split)
  moreover have "w_tty (snd (builtin_export K as w)) = w_tty w" for as
    unfolding builtin_export_def sys_setenv_def by (auto split: option.split prod.split)
  ultimately show ?thesis
    using assms tty sess builtin_fg_owns [OF assms(1)] builtin_bg_tty [of K cmd st w]
      builtin_kill_tty [of K cmd st w]
    by (cases rule: builtin_cases [OF True]) (auto simp: run_builtin_simps)
qed

section \<open>The correctness of the built-ins\<close>

text \<open>No built-in changes the history, the recorded last status, the session's settings, the
  descriptors, the input, the signal mask or the dispositions; each keeps the job table and the
  history well formed; and when the shell owned the terminal before, it owns it after, so \<open>fg\<close>
  took it back.\<close>

lemma builtins_calm:
  "calm (st, w) (snd (run_builtin K cmd st w)) \<and>
   (owns_tty st w \<longrightarrow> owns_tty (fst (snd (run_builtin K cmd st w))) (snd (snd (run_builtin K cmd st w))))"
  using run_builtin_calm run_builtin_owns [of st w K cmd] by (metis prod.collapse)

text \<open>A command given by its words.\<close>

lemma command_arg:
  assumes "command_inv cmd" "argv cmd = ws"
  shows "i < length ws \<Longrightarrow> args cmd ! i = Some (ws ! i)" "i = length ws \<Longrightarrow> args cmd ! i = None"
proof -
  have a: "args cmd = map Some ws @ replicate (MAX_ARGS - length ws) None" "length ws < MAX_ARGS"
    using args_argv [OF assms(1)] assms length_argv [OF assms(1)] by (auto simp: command_inv_def)
  show "i < length ws \<Longrightarrow> args cmd ! i = Some (ws ! i)" "i = length ws \<Longrightarrow> args cmd ! i = None"
    unfolding a(1) using a(2) by (simp_all add: nth_append)
qed

text \<open>\<open>cd\<close> goes to its argument, or without one to the value of HOME, and to nowhere else: on
  success the working directory is what the kernel made of the name and the result 0; without a
  target or when the kernel refuses, the directory stays and the result is 1; the shell's state
  does not change.\<close>

lemma cd_effect:
  assumes "cmd_name cmd = ''cd''" "run_builtin K cmd st w = (r, st', w')"
    and "target = (case args cmd ! 1 of Some d \<Rightarrow> Some d | None \<Rightarrow> w_env w ''HOME'')"
  shows "st' = st \<and> w_env w' = w_env w \<and>
    (case target of
       None \<Rightarrow> r = 1 \<and> w_cwd w' = w_cwd w
     | Some d \<Rightarrow> (case k_chdir K (w_trace w) d of
                   Inl e \<Rightarrow> r = 1 \<and> w_cwd w' = w_cwd w
                 | Inr c \<Rightarrow> r = 0 \<and> w_cwd w' = c))"
  using assms(2,3) unfolding run_builtin_simps(1) [OF assms(1)] builtin_cd_def sys_chdir_def Let_def
  by (auto split: option.splits sum.splits)

lemma export_builtin:
  assumes "cmd_name cmd = ''export''" "args cmd ! 1 = Some (name @ CHR ''='' # val)"
    and "name \<noteq> []" "CHR ''='' \<notin> set name" "\<And>n. k_malloc K (w_trace w) n"
  shows "run_builtin K cmd st w = (0, st, w\<lparr>w_env := (w_env w)(name \<mapsto> val)\<rparr>)"
proof -
  have "strchr (name @ CHR ''='' # val) (CHR ''='') = Some (length name)"
    unfolding strchr_def
    by (rule first_indexI) (use assms(4) in \<open>auto simp: nth_append in_set_conv_nth\<close>)
  then show ?thesis
    using assms(2-5) unfolding run_builtin_simps(3) [OF assms(1)]
    by (simp add: builtin_export_def sys_setenv_def)
qed

text \<open>\<open>export NAME=VALUE\<close> with a non-empty name sets exactly that variable of the shell's own
  environment, split at the first equals sign, and changes nothing else.\<close>

lemma export_effect:
  assumes "cmd_name cmd = ''export''" "args cmd ! 1 = Some (name @ CHR ''='' # val)"
    and "name \<noteq> []" "CHR ''='' \<notin> set name" "\<And>n. k_malloc K (w_trace w) n"
  shows "run_builtin K cmd st w = (0, st, w\<lparr>w_env := (w_env w)(name \<mapsto> val)\<rparr>)"
  by (rule export_builtin [OF assms])

text \<open>\<open>exit\<close> only sets the exit flag; its code is its argument when that is the decimal text of
  an int, and without an argument the last command's status.\<close>

lemma exit_effect:
  assumes "cmd_name cmd = ''exit''"
    and "args cmd ! 1 = Some (dec_int c) \<and> is_int32 c \<or> args cmd ! 1 = None \<and> c = last_status st"
  shows "run_builtin K cmd st w = (c, st\<lparr>should_exit := True\<rparr>, w)"
  using assms(2) atoi_dec_int [of c] unfolding run_builtin_simps(2) [OF assms(1)]
  by (auto simp: builtin_exit_def Let_def)

text \<open>The id that the shell prints for a job is the id that \<open>fg\<close>, \<open>bg\<close> and \<open>kill\<close> read from
  it, with the percent sign and without.\<close>

lemma job_spec_roundtrip:
  assumes "is_int32 k" "0 \<le> k"
  shows "parse_job_id (Some (CHR ''%'' # dec_int k)) = k \<and> parse_job_id (Some (dec_int k)) = k"
proof -
  obtain c cs where "dec_int k = c # cs" "isdigit c"
    using dec_nat_cons [of "nat k"] assms(2) by (auto simp: dec_int_def)
  then show ?thesis
    using atoi_dec_int [OF assms(1)] isdigit_not_special [of c] by (simp add: parse_job_id_def)
qed

text \<open>What a critical section around nothing leaves: at most the reaper ran.\<close>

lemma unblock_map:
  "unblock_sigchld K prev st w = (st', w') \<Longrightarrow>
     rel_option reaped (jobs_map (sh_jobs st) k) (jobs_map (sh_jobs st') k)"
  unfolding unblock_sigchld_def by (rule deliver_map)

text \<open>
  A job that is set to running and then ends is the one removed, when no other job has its process
  group.
\<close>

lemma resumed_job_removed:
  assumes inv: "jobs_inv t" and i: "jobs_find_by_id t k = Some i" and j: "jobs_map t k = Some j"
    and only: "\<forall>k' j'. jobs_map t k' = Some j' \<and> job_pid j' = job_pid j \<longrightarrow> k' = k"
  shows "jobs_map (jobs_remove_by_pid (jobs_set_state t i JOB_RUNNING) (job_pid j)) k = None"
proof -
  let ?t = "jobs_set_state t i JOB_RUNNING" and ?j = "j\<lparr>job_state := JOB_RUNNING\<rparr>"
  note slot = jobs_find_by_id_Some [OF i]
  have ij: "jobs t ! i = j" using i j by (simp add: jobs_map_def)
  have inv': "jobs_inv ?t" using slot by (intro jobs_set_state_inv inv) simp_all
  have m: "jobs_map ?t = (jobs_map t)(k \<mapsto> ?j)"
    using slot_change(2) [OF inv _ _ _ _ _ refl, of i ?j] slot ij by (simp add: jobs_set_state_def)
  have at: "jobs ?t ! i = ?j" "i < length (jobs ?t)" using slot ij by (simp_all add: jobs_set_state_def)
  then have "jobs_find_by_pid ?t (job_pid j) \<noteq> None"
    using slot ij bexI [OF _ nth_mem [OF at(2)], of "\<lambda>x. job_in_use x \<and> job_pid x = job_pid j"]
    by (simp add: jobs_find_by_pid_def)
  then obtain i' where i': "jobs_find_by_pid ?t (job_pid j) = Some i'" by auto
  note s' = jobs_find_by_pid_Some [OF i']
  have "jobs_map ?t (job_id (jobs ?t ! i')) = Some (jobs ?t ! i')"
    using s' inv' by (auto simp: jobs_map_slots jobs_inv_def intro: slots_map_mem)
  then have "job_id (jobs ?t ! i') = k" using only s' unfolding m by (auto split: if_splits)
  then show ?thesis using jobs_remove_by_pid_map [OF inv', of "job_pid j"] i' by simp
qed

text \<open>C32: \<open>fg %k\<close> for a stopped job prints its command, hands it the terminal if the shell has
  one, and only then continues its whole process group and waits; when the group ends, the result
  is the code of the last member, and the job is gone from the table.\<close>

theorem fg_resumes:
  assumes "cmd_name cmd = ''fg''" "args cmd ! 1 = Some (CHR ''%'' # dec_int k)" "is_int32 k" "0 \<le> k"
    and inv: "jobs_inv (sh_jobs st)"
    and j: "jobs_map (sh_jobs st) k = Some j" "job_state j = JOB_STOPPED"
    and only: "\<forall>k' j'. jobs_map (sh_jobs st) k' = Some j' \<and> job_pid j' = job_pid j \<longrightarrow> k' = k"
    and ended: "\<And>tr. ended (k_wait K tr (job_pid j))"
    and run: "run_builtin K cmd st w = (r, st', w')"
  shows "jobs_map (sh_jobs st') k = None \<and>
    (\<exists>rest. w_trace w' = w_trace w @ [Print (job_command j @ [NL])] @
        (if interactive st then [SysTcsetpgrp (shell_terminal st) (job_pid j)] else []) @
        [SysKill (- job_pid j) SIGCONT] @ rest) \<and>
    (\<exists>tr. r = end_code (k_wait K tr (job_pid j)))"
proof -
  have k: "parse_job_id (Some (CHR ''%'' # dec_int k)) = k"
    using assms(3,4) atoi_dec_int [of k] dec_nat_not_Nil by (auto simp: parse_job_id_def dec_int_def)
  obtain i where i: "jobs_find_by_id (sh_jobs st) k = Some i" "jobs (sh_jobs st) ! i = j"
    using j(1) by (auto simp: jobs_map_def)
  let ?w1 = "snd (block_sigchld w)"
  let ?t1 = "jobs_set_state (sh_jobs st) i JOB_RUNNING"
  let ?st1 = "st\<lparr>sh_jobs := ?t1\<rparr>"
  define w4 where "w4 = snd (sys_kill K (- job_pid j) SIGCONT
      (if interactive st then sys_tcsetpgrp (shell_terminal st) (job_pid j)
            (emit (Print (job_command j @ [NL])) ?w1) else emit (Print (job_command j @ [NL])) ?w1))"
  obtain code st2 w5 where wt: "wait_foreground_group K ?st1 (job_pid j) (job_command j) w4 = (code, st2, w5)"
    by (metis prod_cases3)
  have fg: "fg_job K i st ?w1 = (code, st2, reclaim_tty st2 w5)"
    using j(2) i(2) wt by (simp add: fg_job_def Let_def w4_def case_prod_beta)
  obtain st3 w6 where u: "unblock_sigchld K (w_mask w) st2 (reclaim_tty st2 w5) = (st3, w6)" by fastforce
  have res: "r = code" "st' = st3" "w' = w6"
    using run assms(2,4) k i(1) fg u unfolding run_builtin_simps(6) [OF assms(1)]
    by (simp_all add: builtin_fg_def Let_def case_prod_beta)
  note e = wait_ended [OF ended wt]
  have "jobs_map (sh_jobs st2) k = None"
    using e(2) resumed_job_removed [OF inv i(1) j(1) only] by simp
  then have "jobs_map (sh_jobs st') k = None"
    using unblock_map [OF u, of k] res by simp
  moreover have "w_trace w4 = w_trace w @ [Print (job_command j @ [NL])] @
        (if interactive st then [SysTcsetpgrp (shell_terminal st) (job_pid j)] else []) @
        [SysKill (- job_pid j) SIGCONT]"
    by (simp add: w4_def sys_kill_def)
  moreover have "extends w4 w'"
    using trace_ext_trans [OF _ unblock_extends [OF u]] wait_extends [OF wt] res by simp
  ultimately show ?thesis using e(1) res by (auto simp: trace_ext_def)
qed

theorem fg_resumes_witness:
  "\<exists>st w'. SysKill (-7) SIGCONT \<in> set (w_trace w') \<and>
     snd (run_builtin sample_kernel (add_arg (add_arg empty_command ''fg'') ''%1'')
       (shell_init\<lparr>sh_jobs := jobs_set_state (snd (jobs_add jobs_init 7 ''vi'' JOB_RUNNING)) 0 JOB_STOPPED\<rparr>)
       sample_world) = (st, w')"
proof -
  let ?cmd = "add_arg (add_arg empty_command ''fg'') ''%1''"
  let ?t = "jobs_set_state (snd (jobs_add jobs_init 7 ''vi'' JOB_RUNNING)) 0 JOB_STOPPED"
  let ?st = "shell_init\<lparr>sh_jobs := ?t\<rparr>"
  let ?j = "\<lparr>job_pid = 7, job_id = 1, job_state = JOB_STOPPED, job_status = 0, job_in_use = True,
    job_command = ''vi''\<rparr>"
  let ?r = "run_builtin sample_kernel ?cmd ?st sample_world"
  have "command_inv ?cmd" "argv ?cmd = [''fg'', ''%1'']"
    by (simp_all add: add_arg_inv argv_add_arg MAX_ARGS_def)
  note a = command_arg(1) [OF this]
  have d: "dec_int 1 = ''1''" by code_simp
  have name: "cmd_name ?cmd = ''fg''" "args ?cmd ! 1 = Some (CHR ''%'' # dec_int 1)"
    using a [of 0] a [of 1] d by simp_all
  have slots: "jobs ?t = ?j # replicate 63 job_zero" by code_simp
  have inv: "jobs_inv (sh_jobs ?st)"
    using jobs_set_state_inv [OF jobs_add_inv [OF jobs_inv_init], of 0 7 "''vi''" JOB_RUNNING JOB_STOPPED]
    by (simp add: jobs_add_def jobs_init_def job_zero_def MAX_JOBS_def numeral_eq_Suc)
  have m: "jobs_map (sh_jobs ?st) = [1 \<mapsto> ?j]"
    by (simp add: jobs_map_slots slots_map_def slots job_zero_def)
  have en: "ended (k_wait sample_kernel tr (job_pid ?j))" for tr by (simp add: sample_kernel_def ended_def)
  have "SysKill (-7) SIGCONT \<in> set (w_trace (snd (snd ?r)))"
    using fg_resumes [OF name _ _ inv _ _ _ en, where w = sample_world and r = "fst ?r" and
        st' = "fst (snd ?r)" and w' = "snd (snd ?r)"] m
    by (fastforce simp: is_int32_def split: if_splits)
  then show ?thesis by (metis prod.collapse)
qed

text \<open>\<open>kill %k\<close> for a job in the table sends SIGTERM once, to the whole process group of
  that job, as its last action when the kernel accepts it; the table changes at most by the reaper.\<close>

lemma kill_signals_group:
  assumes "cmd_name cmd = ''kill''" "args cmd ! 1 = Some (CHR ''%'' # dec_int k)" "is_int32 k" "0 \<le> k"
    and "jobs_map (sh_jobs st) k = Some j"
    and "\<And>tr. k_kill K tr (- job_pid j) SIGTERM = None"
    and "run_builtin K cmd st w = (r, st', w')"
  shows "r = 0 \<and> last (w_trace w') = SysKill (- job_pid j) SIGTERM \<and>
    rel_option reaped (Some j) (jobs_map (sh_jobs st') k)"
proof -
  have k: "parse_job_id (Some (CHR ''%'' # dec_int k)) = k"
    using assms(3,4) atoi_dec_int [of k] dec_nat_not_Nil by (auto simp: parse_job_id_def dec_int_def)
  obtain i where i: "jobs_find_by_id (sh_jobs st) k = Some i" "jobs (sh_jobs st) ! i = j"
    using assms(5) by (auto simp: jobs_map_def)
  obtain st1 w1 where u: "unblock_sigchld K (w_mask w) st (snd (block_sigchld w)) = (st1, w1)" by fastforce
  have "run_builtin K cmd st w = kill_target K (- job_pid j) st1 w1"
    using assms(2) k i u unfolding run_builtin_simps(8) [OF assms(1)]
    by (simp add: builtin_kill_def Let_def case_prod_beta)
  then show ?thesis
    using assms(5-7) unblock_map [OF u, of k] by (auto simp: kill_target_def sys_kill_def)
qed



end
