(* ===== verification/Executor.thy ===== *)
theory Executor
  imports Builtins
begin

text \<open>
  The executor (executor.h, executor.c): what a forked child does up to its exec, the loop that
  forks and wires the stages of a pipeline, and the foreground and background runs. The shell's
  process is the state that is threaded; what each child does is computed from the copy of it
  that \<open>fork\<close> makes, and returned beside the result.
\<close>

section \<open>Redirection\<close>

text \<open>In the child: a result on the left is \<open>exit(EXIT_FAILURE)\<close>.\<close>

definition redirect_input :: "kernel \<Rightarrow> command_t \<Rightarrow> world \<Rightarrow> world + world" where
  "redirect_input K cmd w =
     (if heredoc_fd cmd \<ge> 0
      then Inr (sys_close (heredoc_fd cmd) (sys_dup2 (heredoc_fd cmd) 0 w))
      else case input_file cmd of
             None \<Rightarrow> Inr w
           | Some path \<Rightarrow>
               (case sys_open K path [O_RDONLY] None w of
                  (Inl err, w1) \<Rightarrow>
                    Inl (emit (PrintErr (''mysh: '' @ path @ '': '' @ err @ [NL])) w1)
                | (Inr fd, w1) \<Rightarrow> Inr (sys_close fd (sys_dup2 fd 0 w1))))"

text \<open>\<open>rw-r--r--\<close>: 0644 in octal.\<close>

definition OUTPUT_FILE_MODE :: nat where
  "OUTPUT_FILE_MODE = 6 * 8 ^ 2 + 4 * 8 + 4"

definition output_flags :: "command_t \<Rightarrow> open_flag list" where
  "output_flags cmd = [O_WRONLY, O_CREAT, if append_mode cmd then O_APPEND else O_TRUNC]"

definition redirect_output :: "kernel \<Rightarrow> command_t \<Rightarrow> world \<Rightarrow> world + world" where
  "redirect_output K cmd w =
     (case output_file cmd of
        None \<Rightarrow> Inr w
      | Some path \<Rightarrow>
          (case sys_open K path (output_flags cmd) (Some OUTPUT_FILE_MODE) w of
             (Inl err, w1) \<Rightarrow>
               Inl (emit (PrintErr (''mysh: '' @ path @ '': '' @ err @ [NL])) w1)
           | (Inr fd, w1) \<Rightarrow> Inr (sys_close fd (sys_dup2 fd 1 w1))))"

definition apply_redirection :: "kernel \<Rightarrow> command_t \<Rightarrow> world \<Rightarrow> world + world" where
  "apply_redirection K cmd w =
     (case redirect_input K cmd w of Inl w1 \<Rightarrow> Inl w1 | Inr w1 \<Rightarrow> redirect_output K cmd w1)"

section \<open>The child\<close>

definition reset_child_signals :: "world \<Rightarrow> world" where
  "reset_child_signals w =
     (let w1 = sys_sigaction SIGINT SIG_DFL w;
          w2 = sys_sigaction SIGQUIT SIG_DFL w1;
          w3 = sys_sigaction SIGTSTP SIG_DFL w2;
          w4 = sys_sigaction SIGTTIN SIG_DFL w3;
          w5 = sys_sigaction SIGTTOU SIG_DFL w4
      in sys_sigaction SIGCHLD SIG_DFL w5)"

text \<open>
  How a child leaves the shell's program: it executes a program, whose arguments and process
  are given, or it exits.
\<close>

datatype outcome = Execs "string list" world | Exits int world

text \<open>What \<open>execvp\<close> reads of an argument array: the strings before the first NULL.\<close>

definition c_argv :: "string option list \<Rightarrow> string list" where
  "c_argv as = map the (takeWhile (\<lambda>x. x \<noteq> None) as)"

definition exec_child :: "kernel \<Rightarrow> command_t \<Rightarrow> shell_state_t \<Rightarrow> world \<Rightarrow> outcome" where
  "exec_child K cmd st w =
     (let w1 = w\<lparr>w_mask := {}\<rparr>;
          w2 = reset_child_signals w1
      in case apply_redirection K cmd w2 of
           Inl w3 \<Rightarrow> Exits 1 w3
         | Inr w3 \<Rightarrow>
             if is_builtin (cmd_name cmd)
             then (case run_builtin K cmd st w3 of (code, st', w4) \<Rightarrow> Exits code w4)
             else (let argv = c_argv (args cmd); w4 = emit (SysExec argv) w3
                   in case k_exec K (w_trace w3) argv of
                        None \<Rightarrow> Execs argv (w4\<lparr>w_fds := exec_fds (w_fds w4)\<rparr>)
                      | Some err \<Rightarrow>
                          Exits 1 (emit (PrintErr
                            (''mysh: '' @ cmd_name cmd @ '': '' @ err @ [NL])) w4)))"

section \<open>Forking a pipeline\<close>

text \<open>The child's part of the loop body, before \<open>exec_child\<close>.\<close>

definition wire_child :: "bool \<Rightarrow> int \<Rightarrow> int \<Rightarrow> int \<Rightarrow> int list \<Rightarrow> world \<Rightarrow> world" where
  "wire_child is_last prev_read rd wr pids w =
     (let pgid = (if pids = [] then 0 else hd pids);
          w1 = emit (SysSetpgid 0 pgid) w;
          w2 = (if prev_read \<noteq> -1 then sys_close prev_read (sys_dup2 prev_read 0 w1) else w1)
      in if \<not> is_last
         then sys_close wr (sys_dup2 wr 1 (sys_close rd w2)) else w2)"

text \<open>
  The loop, on the commands that are left, with the pids of those that run. The flag tells
  whether it ran to its end; otherwise the C function returns -1.
\<close>

fun spawn_loop ::
  "kernel \<Rightarrow> command_t list \<Rightarrow> int \<Rightarrow> int list \<Rightarrow> shell_state_t \<Rightarrow> world \<Rightarrow>
     bool \<times> int list \<times> outcome list \<times> world" where
  "spawn_loop K [] prev_read pids st w = (True, pids, [], w)"
| "spawn_loop K (cmd # cmds) prev_read pids st w =
     (let is_last = (cmds = [])
      in case (if \<not> is_last then sys_pipe K w else (Inr (-1, -1), w)) of
           (Inl err, w1) \<Rightarrow> (False, pids, [], emit (PrintErr (''mysh: pipe: '' @ err @ [NL])) w1)
         | (Inr (rd, wr), w1) \<Rightarrow>
             (case k_fork K (w_trace w1) of
                Inl err \<Rightarrow>
                  (False, pids, [],
                   emit (PrintErr (''mysh: fork: '' @ err @ [NL])) (emit (SysFork (-1)) w1))
              | Inr pid \<Rightarrow>
                  (let child = exec_child K cmd st
                                 (wire_child is_last prev_read rd wr pids (emit (SysFork 0) w1));
                       w2 = emit (SysFork pid) w1;
                       pids' = pids @ [pid];
                       w3 = emit (SysSetpgid pid (hd pids')) w2;
                       w4 = (if prev_read \<noteq> -1 then sys_close prev_read w3 else w3);
                       w5 = (if \<not> is_last then sys_close wr w4 else w4);
                       prev_read' = (if \<not> is_last then rd else prev_read)
                   in case spawn_loop K cmds prev_read' pids' st w5 of
                        (ok, ps, children, w') \<Rightarrow> (ok, ps, child # children, w'))))"

definition spawn_pipeline ::
  "kernel \<Rightarrow> pipeline_t \<Rightarrow> shell_state_t \<Rightarrow> world \<Rightarrow> bool \<times> int list \<times> outcome list \<times> world" where
  "spawn_pipeline K p st w = spawn_loop K (take (num_commands p) (commands p)) (-1) [] st w"

section \<open>Running a pipeline\<close>

definition execute_pipeline ::
  "kernel \<Rightarrow> pipeline_t \<Rightarrow> shell_state_t \<Rightarrow> world \<Rightarrow> int \<times> outcome list \<times> shell_state_t \<times> world" where
  "execute_pipeline K p st w =
     (let label = format_pipeline_label p JOB_CMD_LEN
      in if pl_background p then
           (let (prev, w1) = block_sigchld w
            in case spawn_pipeline K p st w1 of
                 (ok, pids, children, w2) \<Rightarrow>
                   if \<not> ok then
                     (let (st1, w3) = unblock_sigchld K prev st w2 in (-1, children, st1, w3))
                   else
                     (let pgid = hd pids;
                          (job_id, t1) = jobs_add (sh_jobs st) pgid label JOB_RUNNING;
                          (st1, w3) = unblock_sigchld K prev (st\<lparr>sh_jobs := t1\<rparr>) w2
                      in (0, children, st1,
                          if job_id < 0
                          then emit (PrintErr (''mysh: too many background jobs'' @ [NL])) w3
                          else emit (Print (''['' @ dec_int job_id @ ''] '' @ dec_int pgid @ [NL])) w3)))
         else
           (let (prev, w1) = block_sigchld w
            in case spawn_pipeline K p st w1 of
                 (ok, pids, children, w2) \<Rightarrow>
                   if \<not> ok then
                     (let (st1, w3) = unblock_sigchld K prev st w2 in (-1, children, st1, w3))
                   else
                     (let pgid = hd pids;
                          w3 = (if interactive st
                                then sys_tcsetpgrp (shell_terminal st) pgid w2 else w2);
                          (status, st1, w4) = wait_foreground_group K st pgid label w3;
                          w5 = reclaim_tty st1 w4;
                          (st2, w6) = unblock_sigchld K prev st1 w5
                      in (status, children, st2, w6))))"

section \<open>The child's descriptors after redirection\<close>

lemma redirect_input_fds:
  assumes "redirect_input K cmd w = Inr w'" "valid_fd 0 (w_fds w)"
    and hd_fd: "0 \<le> heredoc_fd cmd \<longrightarrow> heredoc_fd cmd \<noteq> 0 \<and> valid_fd (heredoc_fd cmd) (w_fds w)"
  shows "same_context w w'" "w_stdin w' = w_stdin w"
    "w_fds w' =
      (if heredoc_fd cmd \<ge> 0
       then (w_fds w)[0 := Some (fst (the (w_fds w ! nat (heredoc_fd cmd))), False),
                      nat (heredoc_fd cmd) := None]
       else case input_file cmd of None \<Rightarrow> w_fds w
            | Some path \<Rightarrow> (w_fds w)[0 := Some (OpenFile path [O_RDONLY], False)])"
proof -
  have zero: "0 < length (w_fds w)" "w_fds w ! 0 \<noteq> None" using assms(2) by (auto simp: valid_fd_def)
  have "same_context w w' \<and> w_stdin w' = w_stdin w \<and> w_fds w' =
      (if heredoc_fd cmd \<ge> 0
       then (w_fds w)[0 := Some (fst (the (w_fds w ! nat (heredoc_fd cmd))), False),
                      nat (heredoc_fd cmd) := None]
       else case input_file cmd of None \<Rightarrow> w_fds w
            | Some path \<Rightarrow> (w_fds w)[0 := Some (OpenFile path [O_RDONLY], False)])"
  proof (cases "heredoc_fd cmd \<ge> 0")
    case True
    then obtain n where n: "heredoc_fd cmd = int n" using nonneg_int_cases by blast
    with hd_fd True have v: "n \<noteq> 0" "n < length (w_fds w)" "w_fds w ! n \<noteq> None"
      by (auto simp: valid_fd_def)
    then show ?thesis
      using assms(1) True n zero by (auto simp: redirect_input_def fd_dup2_def valid_fd_def fd_close_def)
  next
    case False
    show ?thesis
    proof (cases "input_file cmd")
      case None
      then show ?thesis using assms(1) False by (simp add: redirect_input_def)
    next
      case (Some path)
      then obtain fd w1 where o: "sys_open K path [O_RDONLY] None w = (Inr fd, w1)"
        and w': "w' = sys_close fd (sys_dup2 fd 0 w1)"
        using assms(1) False by (auto simp: redirect_input_def split: sum.splits prod.splits)
      obtain n where n: "fd = int n" "n < length (w_fds w)" "w_fds w ! n = None"
        "w1 = (emit (SysOpen path [O_RDONLY] None) w)\<lparr>w_fds := (w_fds w)[n := Some (OpenFile path [O_RDONLY], False)]\<rparr>"
        using sys_open_Inr [OF o] .
      have ne: "n \<noteq> 0" using n(3) zero by (cases n) auto
      have "w_fds w' = (w_fds w)[n := Some (OpenFile path [O_RDONLY], False),
          0 := Some (OpenFile path [O_RDONLY], False), n := None]"
        using n ne zero by (simp add: w' fd_dup2_def valid_fd_def fd_close_nth)
      also have "\<dots> = (w_fds w)[0 := Some (OpenFile path [O_RDONLY], False)]"
        using n ne zero by (intro nth_equalityI) (auto simp: nth_list_update)
      finally show ?thesis using Some False n by (simp add: w' same_context_def)
    qed
  qed
  then show "same_context w w'" "w_stdin w' = w_stdin w" "w_fds w' =
      (if heredoc_fd cmd \<ge> 0
       then (w_fds w)[0 := Some (fst (the (w_fds w ! nat (heredoc_fd cmd))), False),
                      nat (heredoc_fd cmd) := None]
       else case input_file cmd of None \<Rightarrow> w_fds w
            | Some path \<Rightarrow> (w_fds w)[0 := Some (OpenFile path [O_RDONLY], False)])" by simp_all
qed

lemma redirect_output_fds:
  assumes "redirect_output K cmd w = Inr w'" "valid_fd 1 (w_fds w)"
  shows "same_context w w'" "w_stdin w' = w_stdin w"
    "w_fds w' = (case output_file cmd of None \<Rightarrow> w_fds w
            | Some path \<Rightarrow> (w_fds w)[1 := Some (OpenFile path (output_flags cmd), False)])"
proof -
  have one: "1 < length (w_fds w)" "w_fds w ! 1 \<noteq> None" using assms(2) by (auto simp: valid_fd_def)
  have "same_context w w' \<and> w_stdin w' = w_stdin w \<and> w_fds w' = (case output_file cmd of None \<Rightarrow> w_fds w
            | Some path \<Rightarrow> (w_fds w)[1 := Some (OpenFile path (output_flags cmd), False)])"
  proof (cases "output_file cmd")
    case None
    then show ?thesis using assms(1) by (simp add: redirect_output_def)
  next
    case (Some path)
    then obtain fd w1 where o: "sys_open K path (output_flags cmd) (Some OUTPUT_FILE_MODE) w = (Inr fd, w1)"
      and w': "w' = sys_close fd (sys_dup2 fd 1 w1)"
      using assms(1) by (auto simp: redirect_output_def split: sum.splits prod.splits)
    obtain n where n: "fd = int n" "n < length (w_fds w)" "w_fds w ! n = None"
      "w1 = (emit (SysOpen path (output_flags cmd) (Some OUTPUT_FILE_MODE)) w)\<lparr>w_fds := (w_fds w)[n :=
          Some (OpenFile path (output_flags cmd), False)]\<rparr>"
      using sys_open_Inr [OF o] .
    have ne: "n \<noteq> 1" using n(3) one by auto
    have "w_fds w' = (w_fds w)[n := Some (OpenFile path (output_flags cmd), False),
        1 := Some (OpenFile path (output_flags cmd), False), n := None]"
      using n ne one by (simp add: w' fd_dup2_def valid_fd_def fd_close_nth)
    also have "\<dots> = (w_fds w)[1 := Some (OpenFile path (output_flags cmd), False)]"
      using n ne one by (intro nth_equalityI) (auto simp: nth_list_update)
    finally show ?thesis using Some n by (simp add: w' same_context_def)
  qed
  then show "same_context w w'" "w_stdin w' = w_stdin w" "w_fds w' = (case output_file cmd of None \<Rightarrow> w_fds w
            | Some path \<Rightarrow> (w_fds w)[1 := Some (OpenFile path (output_flags cmd), False)])" by simp_all
qed

section \<open>The wiring\<close>

text \<open>
  The table a stage runs with: the shell's, with standard input the read end of the pipe before
  it unless it is the first stage, and standard output the write end of the pipe behind it unless
  it is the last. Pipe k of a pipeline is number p + k.
\<close>

definition stage_fds :: "fdtab \<Rightarrow> ofile option \<Rightarrow> ofile option \<Rightarrow> fdtab" where
  "stage_fds t input output =
     t[0 := (case input of None \<Rightarrow> t ! 0 | Some f \<Rightarrow> Some (f, False)),
       1 := (case output of None \<Rightarrow> t ! 1 | Some f \<Rightarrow> Some (f, False))]"

definition pipe_in :: "nat \<Rightarrow> nat \<Rightarrow> ofile option" where
  "pipe_in p i = (if i = 0 then None else Some (PipeR (p + i - 1)))"

definition pipe_out :: "nat \<Rightarrow> nat \<Rightarrow> nat \<Rightarrow> ofile option" where
  "pipe_out p n i = (if Suc i = n then None else Some (PipeW (p + i)))"

definition std_open :: "fdtab \<Rightarrow> bool" where
  "std_open t \<longleftrightarrow> valid_fd 0 t \<and> valid_fd 1 t"

lemma std_openD:
  assumes "std_open t" shows "1 < length t" "t ! 0 \<noteq> None" "t ! 1 \<noteq> None" "0 < length t"
  using assms by (auto simp: std_open_def valid_fd_def)

lemma std_open_free: "std_open t \<Longrightarrow> t ! n = None \<Longrightarrow> n \<noteq> 0 \<and> n \<noteq> 1"
  using std_openD by (metis)

lemma std_open_update: "std_open t \<Longrightarrow> n \<noteq> 0 \<Longrightarrow> n \<noteq> 1 \<Longrightarrow> std_open (t[n := x])"
  by (simp add: std_open_def valid_fd_def)

text \<open>The upstream descriptor: -1 in the base table, or the one slot beside it.\<close>

definition upstream :: "fdtab \<Rightarrow> nat \<Rightarrow> int \<Rightarrow> fdtab \<Rightarrow> bool" where
  "upstream t q prev_read u \<longleftrightarrow>
     (prev_read = -1 \<and> u = t) \<or>
     (\<exists>m. prev_read = int m \<and> m < length t \<and> t ! m = None \<and> u = t[m := Some (PipeR q, False)])"

lemma move_fd:
  assumes "std_open t" "m < length t" "t ! m = None" "n = 0 \<or> n = 1"
  shows "fd_close (int m) (fd_dup2 (int m) (int n) (t[m := Some (f, False)])) = t[n := Some (f, False)]"
proof -
  have d: "m \<noteq> n" "n < length t" using std_open_free [OF assms(1,3)] std_openD [OF assms(1)] assms(4) by auto
  have "fd_close (int m) (fd_dup2 (int m) (int n) (t[m := Some (f, False)])) =
      t[m := Some (f, False), n := Some (f, False), m := None]"
    using assms(2) d by (simp add: fd_dup2_nth fd_close_nth)
  also have "\<dots> = t[n := Some (f, False)]"
    using assms(2,3) d by (intro nth_equalityI) (auto simp: nth_list_update)
  finally show ?thesis .
qed

lemma wire_input:
  assumes "std_open t" "upstream t q prev_read u"
  shows "(if prev_read \<noteq> -1 then fd_close prev_read (fd_dup2 prev_read 0 u) else u) =
    t[0 := (if prev_read = -1 then t ! 0 else Some (PipeR q, False))]"
  using assms(2) move_fd [OF assms(1), of _ 0] by (auto simp: upstream_def)

lemma wire_child_context:
  "same_context w (wire_child is_last prev_read rd wr pids w)"
  "w_stdin (wire_child is_last prev_read rd wr pids w) = w_stdin w"
  "w_trace (wire_child is_last prev_read rd wr pids w) =
     w_trace w @ [SysSetpgid 0 (if pids = [] then 0 else hd pids)]"
  by (simp_all add: wire_child_def Let_def)

lemma update_keep: "t[i := x, j := t ! j] = (if i = j then t[j := t ! j] else t[i := x])"
  by (simp add: list_update_swap [of i j])

lemma wire_last_fds:
  assumes "std_open t" "upstream t q prev_read (w_fds w)"
  shows "w_fds (wire_child True prev_read rd wr pids w) =
    stage_fds t (if prev_read = -1 then None else Some (PipeR q)) None"
proof -
  have "w_fds (wire_child True prev_read rd wr pids w) =
      (if prev_read \<noteq> -1 then fd_close prev_read (fd_dup2 prev_read 0 (w_fds w)) else w_fds w)"
    by (simp add: wire_child_def Let_def)
  also have "\<dots> = t[0 := (if prev_read = -1 then t ! 0 else Some (PipeR q, False))]"
    by (rule wire_input [OF assms])
  finally show ?thesis by (simp add: stage_fds_def update_keep)
qed

lemma wire_inner_fds:
  assumes "std_open t" "upstream t q prev_read u" "a < length t" "b < length t" "a \<noteq> b"
    "u ! a = None" "u ! b = None"
    "w_fds w = u[a := Some (PipeR p, False), b := Some (PipeW p, False)]"
  shows "w_fds (wire_child False prev_read (int a) (int b) pids w) =
    stage_fds t (if prev_read = -1 then None else Some (PipeR q)) (Some (PipeW p))"
proof -
  let ?x = "if prev_read = -1 then t ! 0 else Some (PipeR q, False)"
  let ?t = "t[a := Some (PipeR p, False), b := Some (PipeW p, False)]"
  have ab: "t ! a = None" "t ! b = None"
    using assms(2-7) by (auto simp: upstream_def nth_list_update split: if_splits)
  note na = std_open_free [OF assms(1) ab(1)] and nb = std_open_free [OF assms(1) ab(2)]
  have so: "std_open ?t" using assms(1) na nb by (simp add: std_open_update)
  have up: "upstream ?t q prev_read (w_fds w)"
  proof (cases "prev_read = -1")
    case True
    then show ?thesis using assms(2,8) by (simp add: upstream_def)
  next
    case False
    then obtain m where m: "prev_read = int m" "m < length t" "t ! m = None"
      "u = t[m := Some (PipeR q, False)]" using assms(2) by (auto simp: upstream_def)
    then have "m \<noteq> a" "m \<noteq> b" using assms(3,4,6,7) by auto
    then have "?t ! m = None" using m by simp
    moreover have "w_fds w = ?t[m := Some (PipeR q, False)]"
      unfolding assms(8) m(4) using \<open>m \<noteq> a\<close> \<open>m \<noteq> b\<close>
      by (intro nth_equalityI) (auto simp: nth_list_update_if)
    ultimately have "?t ! m = None" "w_fds w = ?t[m := Some (PipeR q, False)]" by simp_all
    then show ?thesis unfolding upstream_def using m by auto
  qed
  have so0: "std_open (t[0 := ?x])" using assms(1) by (auto simp: std_open_def valid_fd_def nth_list_update_if)
  have "w_fds (wire_child False prev_read (int a) (int b) pids w) =
      fd_close (int b) (fd_dup2 (int b) 1 (fd_close (int a)
        (if prev_read \<noteq> -1 then fd_close prev_read (fd_dup2 prev_read 0 (w_fds w)) else w_fds w)))"
    by (simp add: wire_child_def Let_def)
  also have "(if prev_read \<noteq> -1 then fd_close prev_read (fd_dup2 prev_read 0 (w_fds w)) else w_fds w) =
      ?t[0 := ?x]"
    using wire_input [OF so up] na nb by auto
  also have "fd_close (int a) (?t[0 := ?x]) = t[0 := ?x, b := Some (PipeW p, False)]"
    using assms(3-5) ab na nb
    by (subst fd_close_nth, simp) (intro nth_equalityI, auto simp: nth_list_update_if)
  also have "fd_close (int b) (fd_dup2 (int b) 1 \<dots>) = t[0 := ?x, 1 := Some (PipeW p, False)]"
    using move_fd [OF so0, of b 1 "PipeW p"] assms(4) ab nb by (simp only: of_nat_1) simp
  finally show ?thesis by (auto simp: stage_fds_def)
qed

text \<open>
  The loop. Each child gets its stage's table and an otherwise unchanged process; the parent has
  its own table back when the loop is through.
\<close>

definition spawned ::
  "kernel \<Rightarrow> shell_state_t \<Rightarrow> world \<Rightarrow> fdtab \<Rightarrow> ofile option \<Rightarrow> ofile option \<Rightarrow> int \<Rightarrow> command_t \<Rightarrow>
     outcome \<Rightarrow> bool" where
  "spawned K st w t input output pgid cmd child \<longleftrightarrow>
     (\<exists>v. child = exec_child K cmd st v \<and> w_fds v = stage_fds t input output \<and>
          same_context (w\<lparr>w_pipes := w_pipes v\<rparr>) v \<and> w_stdin v = w_stdin w \<and>
          w_trace v \<noteq> [] \<and> last (w_trace v) = SysSetpgid 0 pgid)"

lemma spawned_context:
  "spawned K st w t input output pgid cmd child \<Longrightarrow>
     same_context (w0\<lparr>w_pipes := w_pipes w\<rparr>) w \<Longrightarrow> w_stdin w = w_stdin w0 \<Longrightarrow>
     spawned K st w0 t input output pgid cmd child"
  by (auto simp: spawned_def same_context_def)

text \<open>What the parent closes after each fork.\<close>

lemma close_upstream:
  assumes "upstream t q prev_read u"
  shows "(if prev_read \<noteq> -1 then fd_close prev_read u else u) = t"
  using assms by (auto simp: upstream_def fd_close_nth list_update_same_conv)

lemma close_inner:
  assumes "upstream t q prev_read u" "a < length t" "b < length t" "a \<noteq> b"
    "u ! a = None" "u ! b = None"
  shows "fd_close (int b) (if prev_read \<noteq> -1 then fd_close prev_read (u[a := x, b := y])
           else u[a := x, b := y]) = t[a := x]"
proof (cases "prev_read = -1")
  case True
  then show ?thesis using assms
    by (auto simp: upstream_def fd_close_nth list_update_same_conv nth_list_update)
next
  case False
  then obtain m where m: "prev_read = int m" "m < length t" "t ! m = None"
    "u = t[m := Some (PipeR q, False)]" using assms(1) by (auto simp: upstream_def)
  then have ne: "m \<noteq> a" "m \<noteq> b" using assms(5,6) assms(2,3) by auto
  have tb: "t ! b = None" using assms(6) m ne by simp
  have "fd_close (int b) (fd_close (int m) (u[a := x, b := y])) = u[a := x, b := y, m := None, b := None]"
    using assms(2,3) m by (simp add: fd_close_nth)
  also have "\<dots> = t[a := x]"
    unfolding m(4) using assms(2-4) m ne tb by (intro nth_equalityI) (auto simp: nth_list_update)
  finally show ?thesis using False m by simp
qed

text \<open>
  On every path, failures included: the shell's open descriptors, its environment, directory,
  signal state, terminal and input. (After a failure more may be open than before: see
  \<open>fork_failure_leaks\<close>.)
\<close>

definition kept :: "fdtab \<Rightarrow> world \<Rightarrow> world \<Rightarrow> bool" where
  "kept t w w' \<longleftrightarrow> same_context (w\<lparr>w_pipes := w_pipes w'\<rparr>) w' \<and> w_stdin w' = w_stdin w \<and>
     length (w_fds w') = length t \<and> (\<forall>i < length t. t ! i \<noteq> None \<longrightarrow> w_fds w' ! i = t ! i)"

lemma upstream_kept:
  "upstream t q prev_read (w_fds w) \<Longrightarrow> kept t w w"
  by (auto simp: kept_def upstream_def nth_list_update_if)

lemma kept_fds:
  "kept t w0 w \<Longrightarrow> same_context (w\<lparr>w_pipes := w_pipes w'\<rparr>) w' \<Longrightarrow> w_stdin w' = w_stdin w \<Longrightarrow>
     w_fds w' = w_fds w \<Longrightarrow> kept t w0 w'"
  by (auto simp: kept_def same_context_def)

text \<open>One turn of the loop: it fails at the pipe or at the fork, it is the last, or it goes on.\<close>

definition parent_side :: "int \<Rightarrow> int list \<Rightarrow> world \<Rightarrow> world" where
  "parent_side pid pids w = emit (SysSetpgid pid (hd (pids @ [pid]))) (emit (SysFork pid) w)"

definition handed_on :: "int \<Rightarrow> int \<Rightarrow> world \<Rightarrow> world" where
  "handed_on prev_read s w = sys_close s (if prev_read \<noteq> -1 then sys_close prev_read w else w)"

lemma parent_simps [simp]:
  "w_fds (parent_side pid pids w) = w_fds w" "same_context a (parent_side pid pids w) = same_context a w"
  "same_context a (handed_on prev_read s w) = same_context a w"
  "w_stdin (parent_side pid pids w) = w_stdin w" "w_stdin (handed_on prev_read s w) = w_stdin w"
  "w_pipes (parent_side pid pids w) = w_pipes w" "w_pipes (handed_on prev_read s w) = w_pipes w"
  "w_trace (parent_side pid pids w) = w_trace w @ [SysFork pid, SysSetpgid pid (hd (pids @ [pid]))]"
  "w_trace (handed_on prev_read s w) = w_trace w"
  by (simp_all add: parent_side_def handed_on_def)

lemma spawn_loop_cases:
  assumes "spawn_loop K (cmd # cmds) prev_read pids st w = (ok, ps, children, w')"
  obtains
    (no_pipe) err where "cmds \<noteq> []" "\<not> ok"
      "w' = emit (PrintErr (''mysh: pipe: '' @ err @ [NL])) (emit SysPipe w)"
  | (no_fork) pr w1 err where "\<not> ok"
      "(if cmds \<noteq> [] then sys_pipe K w else (Inr (-1, -1), w)) = (Inr pr, w1)"
      "w' = emit (PrintErr (''mysh: fork: '' @ err @ [NL])) (emit (SysFork (-1)) w1)"
  | (final) pid where "cmds = []" "ok" "ps = pids @ [pid]"
      "children = [exec_child K cmd st (wire_child True prev_read (-1) (-1) pids (emit (SysFork 0) w))]"
      "w' = (if prev_read \<noteq> -1 then sys_close prev_read (parent_side pid pids w) else parent_side pid pids w)"
  | (inner) r s w1 pid cs where "cmds \<noteq> []" "sys_pipe K w = (Inr (r, s), w1)"
      "spawn_loop K cmds r (pids @ [pid]) st (handed_on prev_read s (parent_side pid pids w1)) = (ok, ps, cs, w')"
      "children = exec_child K cmd st (wire_child False prev_read r s pids (emit (SysFork 0) w1)) # cs"
proof -
  obtain pr w1 where p: "(if cmds \<noteq> [] then sys_pipe K w else (Inr (-1, -1), w)) = (pr, w1)" by fastforce
  show ?thesis
  proof (cases pr)
    case (Inl err)
    then have "cmds \<noteq> []" "w1 = emit SysPipe w" using p sys_pipe_Inl by (auto split: if_splits)
    then show ?thesis using no_pipe assms p Inl by (auto simp: Let_def)
  next
    case (Inr rs)
    obtain r s where rs: "rs = (r, s)" by (cases rs)
    show ?thesis
    proof (cases "k_fork K (w_trace w1)")
      case (Inl err)
      then show ?thesis using no_fork [OF _ p [unfolded Inr]] assms p Inr rs by (auto simp: Let_def)
    next
      case pid: (Inr pid)
      show ?thesis
      proof (cases "cmds = []")
        case True
        then show ?thesis using final [of pid] assms p pid by (auto simp: Let_def parent_side_def)
      next
        case False
        then show ?thesis
          using inner [of r s w1 pid] assms p Inr rs pid
          by (auto simp: Let_def parent_side_def handed_on_def split: prod.splits)
      qed
    qed
  qed
qed

lemma handed_on_facts:
  assumes up: "upstream t q prev_read (w_fds w)" and p: "sys_pipe K w = (Inr (r, s), w1)"
    and v: "v = handed_on prev_read s (parent_side pid pids w1)"
  shows "upstream t (w_pipes w) r (w_fds v)" "r \<noteq> -1" "w_pipes v = Suc (w_pipes w)"
    "same_context (w\<lparr>w_pipes := w_pipes v\<rparr>) v" "w_stdin v = w_stdin w" "kept t w w1"
proof -
  obtain a b where ab: "r = int a" "s = int b" "a \<noteq> b" "a < length (w_fds w)" "b < length (w_fds w)"
    "w_fds w ! a = None" "w_fds w ! b = None"
    "w_fds w1 = (w_fds w)[a := Some (PipeR (w_pipes w), False), b := Some (PipeW (w_pipes w), False)]"
    "w1 = (emit SysPipe w)\<lparr>w_fds := w_fds w1, w_pipes := Suc (w_pipes w)\<rparr>"
    using sys_pipe_Inr [OF p] .
  have lt: "a < length t" "b < length t" using ab(4,5) up by (auto simp: upstream_def)
  have ta: "t ! a = None" using ab(6) up lt by (auto simp: upstream_def nth_list_update split: if_splits)
  have c1: "w_pipes w1 = Suc (w_pipes w)" "same_context (w\<lparr>w_pipes := Suc (w_pipes w)\<rparr>) w1" "w_stdin w1 = w_stdin w"
    by (subst ab(9), simp add: same_context_def)+
  have "w_fds v = t[a := Some (PipeR (w_pipes w), False)]"
    using close_inner [OF up lt ab(3,6,7), of "Some (PipeR (w_pipes w), False)" "Some (PipeW (w_pipes w), False)"]
      ab(2,8) unfolding v by (simp add: handed_on_def sys_close_def split: if_splits)
  then show "upstream t (w_pipes w) r (w_fds v)" unfolding upstream_def using ab(1) lt ta by auto
  show "r \<noteq> -1" "w_pipes v = Suc (w_pipes w)" "same_context (w\<lparr>w_pipes := w_pipes v\<rparr>) v" "w_stdin v = w_stdin w"
    using ab(1) c1 unfolding v by simp_all
  show "kept t w w1" using upstream_kept [OF up] c1 ab(3-8) up by (auto simp: kept_def nth_list_update_if)
qed

text \<open>The last stage, and a stage before it with what the loop goes on with.\<close>

lemma spawn_last:
  assumes t: "std_open t" and up: "upstream t q prev_read (w_fds w)" and q: "prev_read \<noteq> -1 \<longrightarrow> Suc q = w_pipes w"
    and run: "spawn_loop K [cmd] prev_read pids st w = (True, ps, children, w')"
  obtains pid child where "ps = pids @ [pid]" "children = [child]" "w_fds w' = t" "same_context w w'"
    "w_stdin w' = w_stdin w" "w_pipes w' = w_pipes w"
    "spawned K st w t (if prev_read = -1 then None else Some (PipeR (w_pipes w - 1))) None
       (if pids = [] then 0 else hd pids) cmd child"
proof -
  have q: "prev_read \<noteq> -1 \<longrightarrow> q = w_pipes w - 1" using q by auto
  let ?v = "wire_child True prev_read (-1) (-1) pids (emit (SysFork 0) w)"
  obtain pid where "ps = pids @ [pid]" "children = [exec_child K cmd st ?v]"
    "w' = (if prev_read \<noteq> -1 then sys_close prev_read (parent_side pid pids w) else parent_side pid pids w)"
    using run by (cases rule: spawn_loop_cases) auto
  then have res: "ps = pids @ [pid]" "children = [exec_child K cmd st ?v]"
    "w_fds w' = (if prev_read \<noteq> -1 then fd_close prev_read (w_fds w) else w_fds w)"
    "same_context w w'" "w_stdin w' = w_stdin w" "w_pipes w' = w_pipes w"
    by simp_all
  have v: "same_context w ?v" "w_stdin ?v = w_stdin w" "w_trace ?v \<noteq> []"
    "last (w_trace ?v) = SysSetpgid 0 (if pids = [] then 0 else hd pids)"
    "w_fds ?v = stage_fds t (if prev_read = -1 then None else Some (PipeR q)) None"
    using wire_child_context [where w = "emit (SysFork 0) w" and is_last = True and prev_read = prev_read] up
      same_context_trans [of w "emit (SysFork 0) w"]
    by (simp_all add: wire_last_fds [OF t])
  have "spawned K st w t (if prev_read = -1 then None else Some (PipeR (w_pipes w - 1))) None
      (if pids = [] then 0 else hd pids) cmd (exec_child K cmd st ?v)"
    unfolding spawned_def using v q same_context_pipes [OF v(1)] by (intro exI [of _ ?v]) auto
  then show ?thesis using that res close_upstream [OF up] by metis
qed

lemma spawn_inner:
  assumes t: "std_open t" and up: "upstream t q prev_read (w_fds w)" and q: "prev_read \<noteq> -1 \<longrightarrow> Suc q = w_pipes w"
    and ne: "cmds \<noteq> []" and run: "spawn_loop K (cmd # cmds) prev_read pids st w = (True, ps, children, w')"
  obtains pid child cs r v where "spawn_loop K cmds r (pids @ [pid]) st v = (True, ps, cs, w')"
    "children = child # cs" "upstream t (w_pipes w) r (w_fds v)" "r \<noteq> -1" "w_pipes v = Suc (w_pipes w)"
    "same_context (w\<lparr>w_pipes := w_pipes v\<rparr>) v" "w_stdin v = w_stdin w"
    "spawned K st w t (if prev_read = -1 then None else Some (PipeR (w_pipes w - 1)))
       (Some (PipeW (w_pipes w))) (if pids = [] then 0 else hd pids) cmd child"
proof -
  have q: "prev_read \<noteq> -1 \<longrightarrow> q = w_pipes w - 1" using q by auto
  obtain r s w1 pid cs where p: "sys_pipe K w = (Inr (r, s), w1)"
    and rec: "spawn_loop K cmds r (pids @ [pid]) st (handed_on prev_read s (parent_side pid pids w1)) = (True, ps, cs, w')"
    and res: "children = exec_child K cmd st (wire_child False prev_read r s pids (emit (SysFork 0) w1)) # cs"
    using run ne by (cases rule: spawn_loop_cases) auto
  let ?v = "wire_child False prev_read r s pids (emit (SysFork 0) w1)"
  note h = handed_on_facts(1-5) [OF up p refl [of "handed_on prev_read s (parent_side pid pids w1)"]]
  obtain a b where ab: "r = int a" "s = int b" "a \<noteq> b" "a < length (w_fds w)" "b < length (w_fds w)"
    "w_fds w ! a = None" "w_fds w ! b = None"
    "w_fds w1 = (w_fds w)[a := Some (PipeR (w_pipes w), False), b := Some (PipeW (w_pipes w), False)]"
    "w1 = (emit SysPipe w)\<lparr>w_fds := w_fds w1, w_pipes := Suc (w_pipes w)\<rparr>"
    using sys_pipe_Inr [OF p] .
  have lt: "a < length t" "b < length t" using ab(4,5) up by (auto simp: upstream_def)
  have c1: "w_pipes w1 = Suc (w_pipes w)" "same_context (w\<lparr>w_pipes := Suc (w_pipes w)\<rparr>) w1"
    "w_stdin w1 = w_stdin w"
    by (subst ab(9), simp add: same_context_def)+
  have v: "same_context (w\<lparr>w_pipes := Suc (w_pipes w)\<rparr>) ?v" "w_stdin ?v = w_stdin w" "w_trace ?v \<noteq> []"
    "last (w_trace ?v) = SysSetpgid 0 (if pids = [] then 0 else hd pids)"
    "w_fds ?v = stage_fds t (if prev_read = -1 then None else Some (PipeR q)) (Some (PipeW (w_pipes w)))"
    using wire_child_context [where w = "emit (SysFork 0) w1" and is_last = False and prev_read = prev_read] c1
      same_context_trans [of _ "emit (SysFork 0) w1"]
      wire_inner_fds [OF t up lt ab(3,6,7), of "emit (SysFork 0) w1" "w_pipes w"] ab
    by simp_all
  have "spawned K st w t (if prev_read = -1 then None else Some (PipeR (w_pipes w - 1)))
      (Some (PipeW (w_pipes w))) (if pids = [] then 0 else hd pids) cmd (exec_child K cmd st ?v)"
    unfolding spawned_def using v q same_context_pipes [OF v(1)] by (intro exI [of _ ?v]) auto
  then show ?thesis using that [OF rec res h(1-5)] by blast
qed

lemma spawn_loop_facts:
  assumes t: "std_open t" and "upstream t q prev_read (w_fds w)"
    "prev_read \<noteq> -1 \<longrightarrow> Suc q = w_pipes w" "cmds \<noteq> []"
    "spawn_loop K cmds prev_read pids st w = (True, ps, children, w')"
  shows "length children = length cmds \<and> length ps = length pids + length cmds \<and>
    take (length pids) ps = pids \<and> w_fds w' = t \<and> same_context (w\<lparr>w_pipes := w_pipes w'\<rparr>) w' \<and>
    w_stdin w' = w_stdin w \<and> w_pipes w' + 1 = w_pipes w + length cmds \<and>
    (\<forall>i < length cmds. spawned K st w t
       (if i = 0 \<and> prev_read = -1 then None else Some (PipeR (w_pipes w + i - 1)))
       (pipe_out (w_pipes w) (length cmds) i) (if pids = [] \<and> i = 0 then 0 else hd ps) (cmds ! i)
       (children ! i))"
  using assms(2-5)
proof (induction cmds arbitrary: q prev_read pids w ps children w')
  case Nil
  then show ?case by simp
next
  case (Cons cmd cmds)
  show ?case
  proof (cases "cmds = []")
    case True
    obtain pid child where l: "ps = pids @ [pid]" "children = [child]" "w_fds w' = t" "same_context w w'"
      "w_stdin w' = w_stdin w" "w_pipes w' = w_pipes w"
      "spawned K st w t (if prev_read = -1 then None else Some (PipeR (w_pipes w - 1))) None
         (if pids = [] then 0 else hd pids) cmd child"
      by (rule spawn_last [OF t Cons.prems(1,2) Cons.prems(4) [unfolded True]])
    show ?thesis using l True by (auto simp: pipe_out_def)
  next
    case False
    obtain pid child cs r v where n: "spawn_loop K cmds r (pids @ [pid]) st v = (True, ps, cs, w')"
      "children = child # cs" "upstream t (w_pipes w) r (w_fds v)" "r \<noteq> -1" "w_pipes v = Suc (w_pipes w)"
      "same_context (w\<lparr>w_pipes := w_pipes v\<rparr>) v" "w_stdin v = w_stdin w"
      "spawned K st w t (if prev_read = -1 then None else Some (PipeR (w_pipes w - 1)))
         (Some (PipeW (w_pipes w))) (if pids = [] then 0 else hd pids) cmd child"
      by (rule spawn_inner [OF t Cons.prems(1,2) False Cons.prems(4)])
    have IH: "length cs = length cmds" "length ps = length pids + Suc (length cmds)"
      "take (Suc (length pids)) ps = pids @ [pid]" "w_fds w' = t"
      "same_context (v\<lparr>w_pipes := w_pipes w'\<rparr>) w'" "w_stdin w' = w_stdin w"
      "w_pipes w' + 1 = Suc (w_pipes w) + length cmds"
      "\<forall>i < length cmds. spawned K st v t (Some (PipeR (w_pipes w + i)))
         (pipe_out (Suc (w_pipes w)) (length cmds) i) (hd ps) (cmds ! i) (cs ! i)"
      using Cons.IH [OF n(3) _ False n(1), unfolded n(5)] n(4,7) by auto
    have ps: "hd ps = hd (pids @ [pid])" "take (length pids) ps = pids"
      using IH(3) by (metis hd_take zero_less_Suc, metis append_eq_conv_conj append_take_drop_id
        take_take min.absorb1 le_SucI order_refl)
    have "spawned K st w t (if i = 0 \<and> prev_read = -1 then None else Some (PipeR (w_pipes w + i - 1)))
        (pipe_out (w_pipes w) (length (cmd # cmds)) i) (if pids = [] \<and> i = 0 then 0 else hd ps)
        ((cmd # cmds) ! i) (children ! i)" if i: "i < length (cmd # cmds)" for i
    proof (cases i)
      case 0
      then show ?thesis using n(2,8) ps(1) False by (simp add: pipe_out_def split: if_splits)
    next
      case (Suc j)
      then have "spawned K st v t (Some (PipeR (w_pipes w + j)))
         (pipe_out (Suc (w_pipes w)) (length cmds) j) (hd ps) (cmds ! j) (cs ! j)"
        using IH(8) i by simp
      from spawned_context [OF this n(6,7)] Suc n(2) show ?thesis
        by (simp add: pipe_out_def split: if_splits)
    qed
    moreover have "same_context (w\<lparr>w_pipes := w_pipes w'\<rparr>) w'"
      using IH(5) n(6) by (auto simp: same_context_def)
    ultimately show ?thesis using IH ps n(2) by simp
  qed
qed

lemma spawn_pipeline_facts:
  assumes "std_open (w_fds w)" "stages p \<noteq> []"
    "spawn_pipeline K p st w = (True, pids, children, w')"
  shows "length children = length (stages p)" "length pids = length (stages p)"
    "w_fds w' = w_fds w" "same_context (w\<lparr>w_pipes := w_pipes w'\<rparr>) w'" "w_stdin w' = w_stdin w"
    "w_pipes w' + 1 = w_pipes w + length (stages p)"
    "i < length (stages p) \<Longrightarrow> spawned K st w (w_fds w) (pipe_in (w_pipes w) i)
       (pipe_out (w_pipes w) (length (stages p)) i) (if i = 0 then 0 else hd pids) (stages p ! i)
       (children ! i)"
proof -
  have "upstream (w_fds w) 0 (-1) (w_fds w)" by (simp add: upstream_def)
  note f = spawn_loop_facts [OF assms(1) this _ assms(2), of K "[]" st pids children w']
  note f = f [OF _ assms(3) [unfolded spawn_pipeline_def, folded stages_def]]
  show "length children = length (stages p)" "length pids = length (stages p)"
    "w_fds w' = w_fds w" "same_context (w\<lparr>w_pipes := w_pipes w'\<rparr>) w'" "w_stdin w' = w_stdin w"
    "w_pipes w' + 1 = w_pipes w + length (stages p)"
    using f by simp_all
  show "i < length (stages p) \<Longrightarrow> spawned K st w (w_fds w) (pipe_in (w_pipes w) i)
       (pipe_out (w_pipes w) (length (stages p)) i) (if i = 0 then 0 else hd pids) (stages p ! i)
       (children ! i)"
    using f by (auto simp: pipe_in_def split: if_splits)
qed

section \<open>What a child executes\<close>

text \<open>The table after the redirections of a command.\<close>

definition redirected :: "command_t \<Rightarrow> fdtab \<Rightarrow> fdtab" where
  "redirected cmd t =
     (let t1 = (if heredoc_fd cmd \<ge> 0
                then t[0 := Some (fst (the (t ! nat (heredoc_fd cmd))), False),
                       nat (heredoc_fd cmd) := None]
                else case input_file cmd of None \<Rightarrow> t
                     | Some path \<Rightarrow> t[0 := Some (OpenFile path [O_RDONLY], False)])
      in case output_file cmd of None \<Rightarrow> t1
         | Some path \<Rightarrow> t1[1 := Some (OpenFile path (output_flags cmd), False)])"

text \<open>A here-document's descriptor is open and not one of the first two.\<close>

definition heredoc_ok :: "fdtab \<Rightarrow> command_t \<Rightarrow> bool" where
  "heredoc_ok t cmd \<longleftrightarrow> (0 \<le> heredoc_fd cmd \<longrightarrow> 2 \<le> heredoc_fd cmd \<and> valid_fd (heredoc_fd cmd) t)"

lemma redirection_fds:
  assumes "apply_redirection K cmd w = Inr w'" "std_open (w_fds w)" "heredoc_ok (w_fds w) cmd"
  shows "w_fds w' = redirected cmd (w_fds w)" "same_context w w'"
proof -
  obtain w1 where i: "redirect_input K cmd w = Inr w1" and out: "redirect_output K cmd w1 = Inr w'"
    using assms(1) by (auto simp: apply_redirection_def split: sum.splits)
  note f1 = redirect_input_fds [OF i]
  have zero: "valid_fd 0 (w_fds w)" "valid_fd 1 (w_fds w)" using assms(2) by (simp_all add: std_open_def)
  have h: "0 \<le> heredoc_fd cmd \<longrightarrow> heredoc_fd cmd \<noteq> 0 \<and> valid_fd (heredoc_fd cmd) (w_fds w)"
    using assms(3) by (auto simp: heredoc_ok_def)
  note f1 = f1 [OF zero(1) h]
  have "valid_fd 1 (w_fds w1)"
    using f1(3) zero(2) assms(3)
    by (auto simp: valid_fd_def heredoc_ok_def nth_list_update_if split: if_splits option.splits)
  note f2 = redirect_output_fds [OF out this]
  show "w_fds w' = redirected cmd (w_fds w)" 
    unfolding f2(3) f1(3) redirected_def Let_def ..
  show "same_context w w'" using same_context_trans [OF f1(1) f2(1)] .
qed

lemma reset_frame [simp]:
  "w_fds (reset_child_signals w) = w_fds w" "w_env (reset_child_signals w) = w_env w"
  "w_cwd (reset_child_signals w) = w_cwd w" "w_mask (reset_child_signals w) = w_mask w"
  "w_pipes (reset_child_signals w) = w_pipes w" "w_stdin (reset_child_signals w) = w_stdin w"
  "w_tty (reset_child_signals w) = w_tty w"
  by (simp_all add: reset_child_signals_def Let_def)

lemma reset_disp:
  "w_disp (reset_child_signals w) s =
     (if s = SIGTERM \<or> s = SIGCONT then w_disp w s else SIG_DFL)"
  by (cases s) (simp_all add: reset_child_signals_def Let_def)

text \<open>What \<open>execvp\<close> is given is the argument vector.\<close>

lemma c_argv_argv: "command_inv cmd \<Longrightarrow> c_argv (args cmd) = argv cmd"
proof -
  assume c: "command_inv cmd"
  have "takeWhile (\<lambda>x. x \<noteq> None) (map Some ws @ replicate (Suc n) None) = map Some ws" for ws :: "string list" and n
    by (induction ws) auto
  moreover obtain n where "MAX_ARGS - argc cmd = Suc n"
    using c by (cases "MAX_ARGS - argc cmd") (auto simp: command_inv_def)
  ultimately show ?thesis using args_argv [OF c] by (simp add: c_argv_def comp_def)
qed

lemma exec_child_Execs:
  assumes "exec_child K cmd st v = Execs as w'" "std_open (w_fds v)" "heredoc_ok (w_fds v) cmd"
  shows "\<not> is_builtin (cmd_name cmd)" "as = c_argv (args cmd)"
    "w_fds w' = exec_fds (redirected cmd (w_fds v))"
    "w_mask w' = {}" "w_env w' = w_env v" "w_cwd w' = w_cwd v"
    "w_disp w' s = (if s = SIGTERM \<or> s = SIGCONT then w_disp v s else SIG_DFL)"
proof -
  let ?w2 = "reset_child_signals (v\<lparr>w_mask := {}\<rparr>)"
  obtain w3 where r: "apply_redirection K cmd ?w2 = Inr w3"
    and b: "\<not> is_builtin (cmd_name cmd)" and a: "as = c_argv (args cmd)"
    and w': "w' = (emit (SysExec as) w3)\<lparr>w_fds := exec_fds (w_fds w3)\<rparr>"
    using assms(1) by (auto simp: exec_child_def Let_def split: sum.splits if_splits prod.splits option.splits)
  note f = redirection_fds [OF r]
  have f: "w_fds w3 = redirected cmd (w_fds v)" "same_context ?w2 w3"
    using redirection_fds [OF r] assms(2,3) by simp_all
  show "\<not> is_builtin (cmd_name cmd)" "as = c_argv (args cmd)" using a b by simp_all
  show "w_fds w' = exec_fds (redirected cmd (w_fds v))" using w' f by simp
  show "w_mask w' = {}" "w_env w' = w_env v" "w_cwd w' = w_cwd v"
    "w_disp w' s = (if s = SIGTERM \<or> s = SIGCONT then w_disp v s else SIG_DFL)"
    using w' f(2) by (simp_all add: same_context_def reset_disp)
qed

lemma exec_child_plain:
  assumes "0 \<le> heredoc_fd cmd \<or> input_file cmd = None" "output_file cmd = None"
    and "\<not> is_builtin (cmd_name cmd)" "\<And>tr as. k_exec K tr as = None"
  shows "\<exists>u. exec_child K cmd st v = Execs (c_argv (args cmd)) u"
  using assms
  by (auto simp: exec_child_def apply_redirection_def redirect_input_def redirect_output_def Let_def)

lemma exec_fds_at: "i < length t \<Longrightarrow> exec_fds t ! i = (case t ! i of Some (f, True) \<Rightarrow> None | e \<Rightarrow> e)"
  by (auto simp: exec_fds_def split: option.split bool.split)

text \<open>
  The files a stage reads and writes: what its redirections name, or the pipes, or the shell's
  own.
\<close>

definition stage_reads :: "command_t \<Rightarrow> fdtab \<Rightarrow> ofile option \<Rightarrow> ofile" where
  "stage_reads cmd t input =
     (if heredoc_fd cmd \<ge> 0 then fst (the (t ! nat (heredoc_fd cmd)))
      else case input_file cmd of Some path \<Rightarrow> OpenFile path [O_RDONLY]
           | None \<Rightarrow> (case input of Some f \<Rightarrow> f | None \<Rightarrow> fst (the (t ! 0))))"

definition stage_writes :: "command_t \<Rightarrow> fdtab \<Rightarrow> ofile option \<Rightarrow> ofile" where
  "stage_writes cmd t output =
     (case output_file cmd of Some path \<Rightarrow> OpenFile path (output_flags cmd)
      | None \<Rightarrow> (case output of Some f \<Rightarrow> f | None \<Rightarrow> fst (the (t ! 1))))"

lemma stage_fds_facts:
  assumes "std_open t"
  shows "std_open (stage_fds t x y)" "heredoc_ok (stage_fds t x y) cmd = heredoc_ok t cmd"
    "2 \<le> i \<Longrightarrow> stage_fds t x y ! i = t ! i"
    "length (stage_fds t x y) = length t"
  using std_openD [OF assms]
  by (auto simp: stage_fds_def std_open_def valid_fd_def heredoc_ok_def nth_list_update_if
      split: option.splits)

lemma stage_std:
  assumes "std_open t" "snd (the (t ! 0)) = False" "snd (the (t ! 1)) = False" "heredoc_ok t cmd"
  shows "exec_fds (redirected cmd (stage_fds t x y)) ! 0 = Some (stage_reads cmd t x, False)"
    "exec_fds (redirected cmd (stage_fds t x y)) ! 1 = Some (stage_writes cmd t y, False)"
proof -
  note o = std_openD [OF assms(1)]
  have len: "length (redirected cmd (stage_fds t x y)) = length t"
    by (simp add: redirected_def stage_fds_def Let_def split: option.split)
  have n: "nat (heredoc_fd cmd) \<noteq> 0 \<and> nat (heredoc_fd cmd) \<noteq> 1" if "0 \<le> heredoc_fd cmd"
    using that assms(4) by (auto simp: heredoc_ok_def)
  have "redirected cmd (stage_fds t x y) ! 0 = Some (stage_reads cmd t x, False)"
    using o n assms(2)
    by (cases "t ! 0") (auto simp: redirected_def stage_fds_def stage_reads_def Let_def nth_list_update_if
        split: option.split)
  then show "exec_fds (redirected cmd (stage_fds t x y)) ! 0 = Some (stage_reads cmd t x, False)"
    using o(4) len by (simp add: exec_fds_at)
  have "redirected cmd (stage_fds t x y) ! 1 = Some (stage_writes cmd t y, False)"
    using o n assms(3)
    by (cases "t ! 1") (auto simp: redirected_def stage_fds_def stage_writes_def Let_def nth_list_update_if
        split: option.split)
  then show "exec_fds (redirected cmd (stage_fds t x y)) ! 1 = Some (stage_writes cmd t y, False)"
    using o(1) len by (simp add: exec_fds_at)
qed

text \<open>Above the first two, a program has what the shell had without close-on-exec.\<close>

lemma stage_rest:
  assumes "std_open t" "heredoc_ok t cmd" "2 \<le> i" "i < length t" "int i \<noteq> heredoc_fd cmd"
  shows "exec_fds (redirected cmd (stage_fds t x y)) ! i = (case t ! i of Some (f, True) \<Rightarrow> None | e \<Rightarrow> e)"
proof -
  have len: "length (redirected cmd (stage_fds t x y)) = length t"
    by (simp add: redirected_def stage_fds_def Let_def split: option.split)
  have "redirected cmd (stage_fds t x y) ! i = t ! i"
    using assms by (auto simp: redirected_def Let_def nth_list_update_if stage_fds_facts(3,4) split: option.split)
  then show ?thesis using len assms(4) by (simp add: exec_fds_at)
qed

section \<open>What forking leaves alone\<close>

text \<open>The events of forking: nothing is read and nothing is waited for.\<close>

fun spawn_event :: "event \<Rightarrow> bool" where
  "spawn_event SysPipe = True"
| "spawn_event (SysFork p) = True"
| "spawn_event (SysSetpgid p g) = True"
| "spawn_event (PrintErr s) = True"
| "spawn_event e = False"

lemma spawn_loop_trace:
  "spawn_loop K cmds prev_read pids st w = (ok, ps, children, w') \<Longrightarrow> trace_ext spawn_event w w'"
proof (induction cmds arbitrary: prev_read pids w ps children w')
  case (Cons cmd cmds)
  from Cons.prems show ?case
  proof (cases rule: spawn_loop_cases)
    case (no_fork pr w1 err)
    then have "trace_ext spawn_event w w1"
      using sys_pipe_trace [of K w "Inr pr" w1] by (auto simp: trace_ext_def split: if_splits)
    then show ?thesis using no_fork by (auto intro!: trace_ext_emit)
  next
    case (inner r s w1 pid cs)
    have "w_trace w1 = w_trace w @ [SysPipe]" using sys_pipe_trace [OF inner(2)] .
    then have "trace_ext spawn_event w (handed_on prev_read s (parent_side pid pids w1))"
      by (simp add: trace_ext_def)
    then show ?thesis using Cons.IH [OF inner(3)] trace_ext_trans by blast
  qed (auto simp: trace_ext_def)
qed simp

lemma spawn_loop_kept:
  "upstream t q prev_read (w_fds w) \<Longrightarrow>
     spawn_loop K cmds prev_read pids st w = (ok, ps, children, w') \<Longrightarrow> kept t w w'"
proof (induction cmds arbitrary: q prev_read pids w ps children w')
  case Nil
  then show ?case using upstream_kept by simp
next
  case (Cons cmd cmds)
  note up = Cons.prems(1)
  from Cons.prems(2) show ?case
  proof (cases rule: spawn_loop_cases)
    case (no_pipe err)
    then show ?thesis using upstream_kept [OF up] by (auto intro: kept_fds)
  next
    case (no_fork pr w1 err)
    obtain r s where "pr = (r, s)" by (cases pr)
    then have "kept t w w1"
      using no_fork(2) upstream_kept [OF up] handed_on_facts(6) [OF up _ refl] by (auto split: if_splits)
    then show ?thesis using no_fork(3) by (auto intro: kept_fds)
  next
    case (final pid)
    then have "w_fds w' = (if prev_read \<noteq> -1 then fd_close prev_read (w_fds w) else w_fds w)"
      "same_context w w'" "w_stdin w' = w_stdin w" by simp_all
    then show ?thesis using close_upstream [OF up] by (auto simp: kept_def same_context_def)
  next
    case (inner r s w1 pid cs)
    note h = handed_on_facts(1-5) [OF up inner(2) refl [of "handed_on prev_read s (parent_side pid pids w1)"]]
    show ?thesis using Cons.IH [OF h(1) inner(3)] h(4,5) by (auto simp: kept_def same_context_def)
  qed
qed

lemma spawn_pipeline_kept:
  assumes "spawn_pipeline K p st w = (ok, pids, children, w')"
  shows "kept (w_fds w) w w'" "trace_ext spawn_event w w'"
proof -
  have "upstream (w_fds w) 0 (-1) (w_fds w)" by (simp add: upstream_def)
  then show "kept (w_fds w) w w'" "trace_ext spawn_event w w'"
    using spawn_loop_kept [OF _ assms [unfolded spawn_pipeline_def]]
      spawn_loop_trace [OF assms [unfolded spawn_pipeline_def]] by simp_all
qed

section \<open>Foreground and background runs\<close>

lemma block_world: "snd (block_sigchld w) = w\<lparr>w_mask := insert SIGCHLD (w_mask w)\<rparr>"
  by (simp add: block_sigchld_def)

text \<open>The cases of a run, with the process at each point.\<close>

lemma execute_cases:
  assumes "execute_pipeline K p st w = (r, children, st', w')"
  obtains
    (failed) pids w2 where
      "spawn_pipeline K p st (snd (block_sigchld w)) = (False, pids, children, w2)"
      "r = -1" "unblock_sigchld K (w_mask w) st w2 = (st', w')"
  | (background) pids w2 t k w3 where "pl_background p"
      "spawn_pipeline K p st (snd (block_sigchld w)) = (True, pids, children, w2)"
      "jobs_add (sh_jobs st) (hd pids) (format_pipeline_label p JOB_CMD_LEN) JOB_RUNNING = (k, t)"
      "r = 0" "unblock_sigchld K (w_mask w) (st\<lparr>sh_jobs := t\<rparr>) w2 = (st', w3)"
      "w' = (if k < 0 then emit (PrintErr (''mysh: too many background jobs'' @ [NL])) w3
             else emit (Print (''['' @ dec_int k @ ''] '' @ dec_int (hd pids) @ [NL])) w3)"
  | (foreground) pids w2 w3 st1 w4 where "\<not> pl_background p"
      "spawn_pipeline K p st (snd (block_sigchld w)) = (True, pids, children, w2)"
      "w3 = (if interactive st then sys_tcsetpgrp (shell_terminal st) (hd pids) w2 else w2)"
      "wait_foreground_group K st (hd pids) (format_pipeline_label p JOB_CMD_LEN) w3 = (r, st1, w4)"
      "unblock_sigchld K (w_mask w) st1 (reclaim_tty st1 w4) = (st', w')"
proof -
  obtain ok pids cs w2 where s: "spawn_pipeline K p st (snd (block_sigchld w)) = (ok, pids, cs, w2)"
    by (metis prod_cases4)
  show ?thesis
  proof (cases ok)
    case False
    then show ?thesis
      using assms s failed unfolding execute_pipeline_def
      by (auto simp: Let_def case_prod_beta prod_eq_iff split: if_splits)
  next
    case True
    then have s: "spawn_pipeline K p st (snd (block_sigchld w)) = (True, pids, cs, w2)" using s by simp
    show ?thesis
    proof (cases "pl_background p")
      case True
      obtain k t where t: "jobs_add (sh_jobs st) (hd pids) (format_pipeline_label p JOB_CMD_LEN)
          JOB_RUNNING = (k, t)" by fastforce
      obtain st1 w3 where u: "unblock_sigchld K (w_mask w) (st\<lparr>sh_jobs := t\<rparr>) w2 = (st1, w3)"
        by fastforce
      have "execute_pipeline K p st w = (0, cs, st1,
          if k < 0 then emit (PrintErr (''mysh: too many background jobs'' @ [NL])) w3
          else emit (Print (''['' @ dec_int k @ ''] '' @ dec_int (hd pids) @ [NL])) w3)"
        using True s t u unfolding execute_pipeline_def
        by (simp only: Let_def case_prod_beta if_True fst_conv snd_conv block_frame simp_thms if_False)
      then have res: "r = 0" "children = cs" "st' = st1" and w': "w' =
          (if k < 0 then emit (PrintErr (''mysh: too many background jobs'' @ [NL])) w3
           else emit (Print (''['' @ dec_int k @ ''] '' @ dec_int (hd pids) @ [NL])) w3)"
        using assms by simp_all
      show ?thesis
        by (rule background [OF True s [folded res(2)] t res(1) u [folded res(3)] w'])
    next
      case False
      define w3 where "w3 = (if interactive st then sys_tcsetpgrp (shell_terminal st) (hd pids) w2 else w2)"
      obtain r1 st1 w4 where wt: "wait_foreground_group K st (hd pids)
          (format_pipeline_label p JOB_CMD_LEN) w3 = (r1, st1, w4)" by (metis prod_cases3)
      obtain st2 w5 where u: "unblock_sigchld K (w_mask w) st1 (reclaim_tty st1 w4) = (st2, w5)"
        by fastforce
      have "execute_pipeline K p st w = (r1, cs, st2, w5)"
        using False s wt u unfolding execute_pipeline_def w3_def
        by (simp only: Let_def case_prod_beta if_True fst_conv snd_conv block_frame simp_thms if_False)
      then have res: "r = r1" "children = cs" "st' = st2" "w' = w5" using assms by simp_all
      show ?thesis
        by (rule foreground [OF False s [folded res(2)] w3_def wt [folded res(1)] u [folded res(3,4)]])
    qed
  qed
qed

text \<open>
  What a run leaves alone, whatever happens: open descriptors, environment, directory, signal
  state, input, history and session; the shell has the terminal again.
\<close>

definition steady :: "shell_state_t \<times> world \<Rightarrow> shell_state_t \<times> world \<Rightarrow> bool" where
  "steady a b \<longleftrightarrow> (case a of (st, w) \<Rightarrow> case b of (st', w') \<Rightarrow>
     only_jobs st st' \<and> w_env w' = w_env w \<and> w_cwd w' = w_cwd w \<and> w_mask w' = w_mask w \<and>
     w_disp w' = w_disp w \<and> w_stdin w' = w_stdin w \<and> (owns_tty st w \<longrightarrow> owns_tty st' w') \<and>
     length (w_fds w') = length (w_fds w) \<and>
     (\<forall>i < length (w_fds w). w_fds w ! i \<noteq> None \<longrightarrow> w_fds w' ! i = w_fds w ! i))"

lemma execute_steady:
  assumes "execute_pipeline K p st w = (r, children, st', w')"
  shows "steady (st, w) (st', w')"
  using assms
proof (cases rule: execute_cases)
  case (failed pids w2)
  note k = spawn_pipeline_kept(1) [OF failed(1)] and u = unblock_frame [OF failed(3)]
    and o = unblock_only [OF failed(3)]
  have "owns_tty st' w' = owns_tty st w"
    using k u by (intro owns_tty_cong) (auto simp: kept_def same_context_def)
  then show ?thesis using k u o by (auto simp: steady_def kept_def same_context_def)
next
  case (background pids w2 t k w3)
  note kp = spawn_pipeline_kept(1) [OF background(2)] and u = unblock_frame [OF background(5)]
    and o = unblock_only [OF background(5)]
  have w': "\<exists>e. w' = emit e w3" unfolding background(6) by (cases "k < 0") auto
  have own: "owns_tty st' w3 = owns_tty st w"
    using kp u by (intro owns_tty_cong) (auto simp: kept_def same_context_def same_session_def)
  have "jobs_inv (sh_jobs st) \<Longrightarrow> jobs_inv t"
    using jobs_add_inv [of "sh_jobs st" "hd pids" "format_pipeline_label p JOB_CMD_LEN" JOB_RUNNING]
      background(3) by simp
  then have "only_jobs st st'" using only_jobs_trans [OF only_jobs_set] o by blast
  then show ?thesis using kp u own w' by (auto simp: steady_def kept_def same_context_def)
next
  case (foreground pids w2 w3 st1 w4)
  note kp = spawn_pipeline_kept(1) [OF foreground(2)] and u = unblock_frame [OF foreground(5)]
    and o = unblock_only [OF foreground(5)] and wt = wait_frame [OF foreground(4)]
  note wd = only_traceD [OF conjunct2 [OF wt]]
  have "only_jobs st st'" using only_jobs_trans [of st st1 st'] o wt by blast
  moreover have "owns_tty st' w'" using unblock_owns [OF foreground(5)] by simp
  moreover have "w_fds w3 = w_fds w2" "w_env w3 = w_env w2" "w_cwd w3 = w_cwd w2"
    "w_disp w3 = w_disp w2" "w_stdin w3 = w_stdin w2"
    using foreground(3) by simp_all
  ultimately show ?thesis using kp u wd
    by (simp add: steady_def kept_def same_context_def)
qed

text \<open>No descriptor is left over unless a pipe or a fork failed.\<close>

lemma execute_fds:
  assumes "execute_pipeline K p st w = (r, children, st', w')" "std_open (w_fds w)" "stages p \<noteq> []"
    "r \<noteq> -1"
  shows "w_fds w' = w_fds w"
  using assms(1)
proof (cases rule: execute_cases)
  case (failed pids w2)
  then show ?thesis using assms(4) by simp
next
  case (background pids w2 t k w3)
  have "w_fds w2 = w_fds w"
    using spawn_pipeline_facts(3) [OF _ assms(3) background(2)] assms(2) by simp
  moreover have "w_fds w3 = w_fds w2" using unblock_frame [OF background(5)] by simp
  ultimately show ?thesis unfolding background(6) by simp
next
  case (foreground pids w2 w3 st1 w4)
  have "w_fds w2 = w_fds w"
    using spawn_pipeline_facts(3) [OF _ assms(3) foreground(2)] assms(2) by simp
  moreover have "w_fds w3 = w_fds w2" using foreground(3) by simp
  moreover have "w_fds w4 = w_fds w3" using only_traceD wait_frame [OF foreground(4)] by blast
  moreover have "w_fds w' = w_fds (reclaim_tty st1 w4)" using unblock_frame [OF foreground(5)] by simp
  ultimately show ?thesis by simp
qed

text \<open>
  A background run: the job is in the table under the next id, running or reaped since, and the
  shell did not wait.
\<close>

fun wait_event :: "event \<Rightarrow> bool" where
  "wait_event (SysWait p) = True"
| "wait_event e = False"

lemma spawn_event_no_wait: "spawn_event e \<Longrightarrow> \<not> wait_event e"
  by (cases e) simp_all

lemma unblock_no_wait:
  "unblock_sigchld K prev st w = (st', w') \<Longrightarrow> trace_ext (\<lambda>e. \<not> wait_event e) w w'"
  by (auto simp: unblock_sigchld_def deliver_sigchld_def sigchld_handler_def Let_def trace_ext_def
      split: if_splits)

lemma background_no_wait:
  assumes "execute_pipeline K p st w = (r, children, st', w')" "pl_background p"
  shows "trace_ext (\<lambda>e. \<not> wait_event e) w w'"
  using assms(1)
proof (cases rule: execute_cases)
  case (failed pids w2)
  have "trace_ext (\<lambda>e. \<not> wait_event e) w w2"
    using trace_ext_weaken [OF spawn_pipeline_kept(2) [OF failed(1)] spawn_event_no_wait]
    by (simp add: trace_ext_def)
  also have "trace_ext (\<lambda>e. \<not> wait_event e) w2 w'" by (rule unblock_no_wait [OF failed(3)])
  finally show ?thesis .
next
  case (background pids w2 t k w3)
  have "trace_ext (\<lambda>e. \<not> wait_event e) w w2"
    using trace_ext_weaken [OF spawn_pipeline_kept(2) [OF background(2)] spawn_event_no_wait]
    by (simp add: trace_ext_def)
  also have "trace_ext (\<lambda>e. \<not> wait_event e) w2 w3" by (rule unblock_no_wait [OF background(5)])
  finally show ?thesis unfolding background(6) by (cases "k < 0") (simp_all add: trace_ext_emit)
next
  case (foreground pids w2 w3 st1 w4)
  then show ?thesis using assms(2) by simp
qed

lemma background_job:
  assumes run: "execute_pipeline K p st w = (r, children, st', w')" and bg: "pl_background p"
    and ok: "r \<noteq> -1" and inv: "jobs_inv (sh_jobs st)" "pipeline_inv p"
    and free: "\<exists>j \<in> set (jobs (sh_jobs st)). \<not> job_in_use j"
  obtains pids w2 j where
    "spawn_pipeline K p st (snd (block_sigchld w)) = (True, pids, children, w2)"
    "jobs_map (sh_jobs st') (next_id (sh_jobs st)) = Some j"
    "job_pid j = hd pids" "job_command j = take (JOB_CMD_LEN - 1) (full_label (stages p))"
    "job_state j \<noteq> JOB_STOPPED" "job_id j = next_id (sh_jobs st)"
    "last (w_trace w') = Print (''['' @ dec_int (next_id (sh_jobs st)) @ ''] '' @ dec_int (hd pids) @ [NL])"
  using run
proof (cases rule: execute_cases)
  case (failed pids w2)
  then show ?thesis using ok by simp
next
  case (foreground pids w2 w3 st1 w4)
  then show ?thesis using bg by simp
next
  case (background pids w2 t k w3)
  let ?j = "\<lparr>job_pid = hd pids, job_id = next_id (sh_jobs st), job_state = JOB_RUNNING,
       job_status = 0, job_in_use = True,
       job_command = take (JOB_CMD_LEN - 1) (format_pipeline_label p JOB_CMD_LEN)\<rparr>"
  have k: "k = next_id (sh_jobs st)" "jobs_map t k = Some ?j"
    using jobs_add_free [OF inv(1) free, of "hd pids" "format_pipeline_label p JOB_CMD_LEN" JOB_RUNNING]
      background(3) by fastforce+
  have "rel_option reaped (jobs_map t k) (jobs_map (sh_jobs st') k)"
    using deliver_map [OF background(5) [unfolded unblock_sigchld_def], of k] by simp
  then obtain j where j: "jobs_map (sh_jobs st') k = Some j" "reaped ?j j"
    unfolding k(2) by (cases "jobs_map (sh_jobs st') k") auto
  have "format_pipeline_label p JOB_CMD_LEN = take (JOB_CMD_LEN - 1) (full_label (stages p))"
    by (rule format_label_eq [OF inv(2)]) (simp add: JOB_CMD_LEN_def)
  then have "job_pid j = hd pids" "job_command j = take (JOB_CMD_LEN - 1) (full_label (stages p))"
    "job_state j \<noteq> JOB_STOPPED" "job_id j = next_id (sh_jobs st)"
    using j(2) by (auto simp: reaped_def)
  moreover have "\<not> k < 0" using k(1) inv(1) by (simp add: jobs_inv_def)
  ultimately show ?thesis
    using that [OF background(2)] j(1) k(1) background(6) by (simp del: append_Cons append_Nil)
qed

section \<open>The correctness of the executor\<close>

text \<open>Who holds an open file.\<close>

definition holds_file :: "ofile \<Rightarrow> fdtab \<Rightarrow> bool" where
  "holds_file f t \<longleftrightarrow> (\<exists>i < length t. \<exists>c. t ! i = Some (f, c))"

definition pipes_below :: "nat \<Rightarrow> fdtab \<Rightarrow> bool" where
  "pipes_below n t \<longleftrightarrow> (\<forall>k \<ge> n. \<not> holds_file (PipeR k) t \<and> \<not> holds_file (PipeW k) t)"

lemma stage_fds_holds:
  assumes "std_open t" "\<not> holds_file f t"
  shows "holds_file f (stage_fds t x y) \<longleftrightarrow> x = Some f \<or> y = Some f"
proof -
  note o = std_openD [OF assms(1)]
  have no: "\<And>i c. i < length t \<Longrightarrow> t ! i \<noteq> Some (f, c)" using assms(2) by (auto simp: holds_file_def)
  have at: "stage_fds t x y ! 0 = (case x of None \<Rightarrow> t ! 0 | Some g \<Rightarrow> Some (g, False))"
    "stage_fds t x y ! 1 = (case y of None \<Rightarrow> t ! 1 | Some g \<Rightarrow> Some (g, False))"
    "length (stage_fds t x y) = length t"
    using o by (simp_all add: stage_fds_def)
  have "holds_file f (stage_fds t x y)" if "x = Some f \<or> y = Some f"
    using that
  proof
    assume "x = Some f"
    then show ?thesis unfolding holds_file_def using at o(4) by (intro exI [of _ 0]) auto
  next
    assume "y = Some f"
    then show ?thesis unfolding holds_file_def using at o(1) by (intro exI [of _ 1]) auto
  qed
  moreover have "x = Some f \<or> y = Some f" if "holds_file f (stage_fds t x y)"
    using that no o unfolding holds_file_def stage_fds_def
    by (auto simp: nth_list_update_if split: if_splits option.splits)
  ultimately show ?thesis by blast
qed

text \<open>The two-stage pipeline of the concrete instances.\<close>

definition sample_pipeline :: pipeline_t where
  "sample_pipeline = pipeline_zero\<lparr>commands := [add_arg empty_command ''ls'', add_arg empty_command ''wc''] @
       replicate 14 command_zero, num_commands := 2\<rparr>"

lemma sample_spawn:
  "fst (spawn_pipeline sample_kernel sample_pipeline shell_init sample_world)"
  "stages sample_pipeline = [add_arg empty_command ''ls'', add_arg empty_command ''wc'']"
  "std_open (w_fds sample_world)"
  by (simp_all add: spawn_pipeline_def sample_pipeline_def stages_def sample_simps sys_pipe_def
      lowest_free_def Let_def case_prod_beta std_open_def valid_fd_def)

lemma sample_inv: "pipeline_inv sample_pipeline"
  by (auto simp: pipeline_inv_def sample_pipeline_def MAX_COMMANDS_def less_Suc_eq numeral_2_eq_2
      add_arg_inv MAX_ARGS_def)

text \<open>C1: when every fork succeeds, stage i of n runs \<open>exec_child\<close> for its command in a copy of the
  shell's process that differs only in this: its standard input is the read end of pipe i - 1
  unless it is the first, its standard output the write end of pipe i unless it is the last, and
  it joined the process group of the first stage. The shell itself has exactly the descriptors it
  had before.\<close>

theorem pipeline_wiring:
  assumes "std_open (w_fds w)" "stages p \<noteq> []" "spawn_pipeline K p st w = (True, pids, children, w')"
    and "n = length (stages p)"
  shows "w_fds w' = w_fds w \<and> length pids = n \<and> length children = n \<and>
    (\<forall>i < n. \<exists>v. children ! i = exec_child K (stages p ! i) st v \<and>
       w_fds v = stage_fds (w_fds w)
         (if i = 0 then None else Some (PipeR (w_pipes w + i - 1)))
         (if Suc i = n then None else Some (PipeW (w_pipes w + i))) \<and>
       w_env v = w_env w \<and> w_cwd v = w_cwd w \<and> w_disp v = w_disp w \<and> w_stdin v = w_stdin w \<and>
       last (w_trace v) = SysSetpgid 0 (if i = 0 then 0 else hd pids))"
proof -
  note f = spawn_pipeline_facts [OF assms(1-3)]
  have "\<exists>v. children ! i = exec_child K (stages p ! i) st v \<and>
       w_fds v = stage_fds (w_fds w)
         (if i = 0 then None else Some (PipeR (w_pipes w + i - 1)))
         (if Suc i = n then None else Some (PipeW (w_pipes w + i))) \<and>
       w_env v = w_env w \<and> w_cwd v = w_cwd w \<and> w_disp v = w_disp w \<and> w_stdin v = w_stdin w \<and>
       last (w_trace v) = SysSetpgid 0 (if i = 0 then 0 else hd pids)" if "i < n" for i
    using f(7) [of i] that assms(4)
    by (auto simp: spawned_def pipe_in_def pipe_out_def same_context_def)
  then show ?thesis using f assms(4) by simp
qed

theorem pipeline_wiring_witness:
  "w_fds (snd (snd (snd (spawn_pipeline sample_kernel sample_pipeline shell_init sample_world)))) =
     w_fds sample_world"
proof -
  let ?r = "spawn_pipeline sample_kernel sample_pipeline shell_init sample_world"
  show ?thesis
    using pipeline_wiring [of sample_world sample_pipeline sample_kernel shell_init "fst (snd ?r)"
      "fst (snd (snd ?r))" "snd (snd (snd ?r))" 2] sample_spawn by (simp add: prod_eq_iff)
qed

text \<open>Of the pipes of a pipeline, the write end of pipe k is open in stage k and in no other
  stage, the read end in stage k + 1 and in no other, and the shell holds neither: a reader sees
  end of file as soon as its writer is gone.\<close>

lemma pipe_ends_exclusive:
  assumes "std_open (w_fds w)" "stages p \<noteq> []" "spawn_pipeline K p st w = (True, pids, children, w')"
    and "pipes_below (w_pipes w) (w_fds w)" "i < length (stages p)"
  shows "(\<exists>v. children ! i = exec_child K (stages p ! i) st v \<and>
      (\<forall>k. Suc k < length (stages p) \<longrightarrow>
         (holds_file (PipeW (w_pipes w + k)) (w_fds v) \<longleftrightarrow> k = i) \<and>
         (holds_file (PipeR (w_pipes w + k)) (w_fds v) \<longleftrightarrow> Suc k = i))) \<and>
    (\<forall>k. \<not> holds_file (PipeW (w_pipes w + k)) (w_fds w') \<and> \<not> holds_file (PipeR (w_pipes w + k)) (w_fds w'))"
proof -
  note f = spawn_pipeline_facts [OF assms(1-3)]
  obtain v where v: "children ! i = exec_child K (stages p ! i) st v"
    "w_fds v = stage_fds (w_fds w) (pipe_in (w_pipes w) i) (pipe_out (w_pipes w) (length (stages p)) i)"
    using f(7) [OF assms(5)] by (auto simp: spawned_def)
  have no: "\<not> holds_file (PipeW (w_pipes w + k)) (w_fds w)" "\<not> holds_file (PipeR (w_pipes w + k)) (w_fds w)" for k
    using assms(4) by (simp_all add: pipes_below_def)
  have "(holds_file (PipeW (w_pipes w + k)) (w_fds v) \<longleftrightarrow> k = i) \<and>
      (holds_file (PipeR (w_pipes w + k)) (w_fds v) \<longleftrightarrow> Suc k = i)" if "Suc k < length (stages p)" for k
    using stage_fds_holds [OF assms(1) no(1)] stage_fds_holds [OF assms(1) no(2)] v(2) that
    by (auto simp: pipe_in_def pipe_out_def)
  then show ?thesis using v(1) no f(3) by auto
qed

text \<open>What a stage that executes a program has.\<close>

lemma stage_program_facts:
  assumes "std_open (w_fds w)" "snd (the (w_fds w ! 0)) = False" "snd (the (w_fds w ! 1)) = False"
    and "pipeline_inv p" "spawn_pipeline K p st w = (True, pids, children, w')"
    and "i < length (stages p)" "heredoc_ok (w_fds w) (stages p ! i)"
    and "children ! i = Execs as u"
  shows "\<not> is_builtin (cmd_name (stages p ! i)) \<and> as = argv (stages p ! i) \<and>
    w_env u = w_env w \<and> w_cwd u = w_cwd w \<and> w_mask u = {} \<and>
    (\<forall>s \<in> {SIGINT, SIGQUIT, SIGTSTP, SIGTTIN, SIGTTOU, SIGCHLD}. w_disp u s = SIG_DFL) \<and>
    w_fds u ! 0 = Some (stage_reads (stages p ! i) (w_fds w) (pipe_in (w_pipes w) i), False) \<and>
    w_fds u ! 1 = Some (stage_writes (stages p ! i) (w_fds w)
                          (pipe_out (w_pipes w) (length (stages p)) i), False)"
proof -
  let ?cmd = "stages p ! i"
  have ne: "stages p \<noteq> []" using assms(6) by auto
  obtain v where v: "children ! i = exec_child K ?cmd st v"
    "w_fds v = stage_fds (w_fds w) (pipe_in (w_pipes w) i) (pipe_out (w_pipes w) (length (stages p)) i)"
    "w_env v = w_env w" "w_cwd v = w_cwd w"
    using spawn_pipeline_facts(7) [OF assms(1) ne assms(5,6)] by (auto simp: spawned_def same_context_def)
  have "command_inv ?cmd" using stages_inv [OF assms(4) nth_mem [OF assms(6)]] by simp
  then have "c_argv (args ?cmd) = argv ?cmd" by (rule c_argv_argv)
  moreover note e = exec_child_Execs [of K ?cmd st v as u]
  have "std_open (w_fds v)" "heredoc_ok (w_fds v) ?cmd"
    using stage_fds_facts(1,2) [OF assms(1)] assms(7) v(2) by simp_all
  note e = e [OF v(1) [symmetric, unfolded assms(8)] this]
  ultimately show ?thesis
    using e stage_std [OF assms(1-3,7)] v by simp
qed

text \<open>C22: a stage that executes a program is no built-in, gives it exactly its argument vector, the
  shell's environment and directory, an empty signal mask and default actions for the signals the
  shell ignores or handles; its standard input and output are what its redirections name (a
  here-document before a file), else the pipes, else the shell's own.\<close>

theorem stage_program:
  assumes "std_open (w_fds w)" "snd (the (w_fds w ! 0)) = False" "snd (the (w_fds w ! 1)) = False"
    and "pipeline_inv p" "spawn_pipeline K p st w = (True, pids, children, w')"
    and "i < length (stages p)" "heredoc_ok (w_fds w) (stages p ! i)"
    and "children ! i = Execs as u"
  shows "\<not> is_builtin (cmd_name (stages p ! i)) \<and> as = argv (stages p ! i) \<and>
    w_env u = w_env w \<and> w_cwd u = w_cwd w \<and> w_mask u = {} \<and>
    (\<forall>s \<in> {SIGINT, SIGQUIT, SIGTSTP, SIGTTIN, SIGTTOU, SIGCHLD}. w_disp u s = SIG_DFL) \<and>
    w_fds u ! 0 = Some (stage_reads (stages p ! i) (w_fds w) (pipe_in (w_pipes w) i), False) \<and>
    w_fds u ! 1 = Some (stage_writes (stages p ! i) (w_fds w)
                          (pipe_out (w_pipes w) (length (stages p)) i), False)"
  by (rule stage_program_facts [OF assms])

theorem stage_program_witness:
  "\<exists>u. fst (snd (snd (spawn_pipeline sample_kernel sample_pipeline shell_init sample_world))) ! 1 =
        Execs [''wc''] u \<and>
      w_fds u ! 0 = Some (PipeR 0, False) \<and> w_fds u ! 1 = Some (Inherited 1, False)"
proof -
  let ?r = "spawn_pipeline sample_kernel sample_pipeline shell_init sample_world"
  have ok: "spawn_pipeline sample_kernel sample_pipeline shell_init sample_world =
      (True, fst (snd ?r), fst (snd (snd ?r)), snd (snd (snd ?r)))"
    using sample_spawn(1) by (simp add: prod_eq_iff)
  have ex: "\<exists>u. fst (snd (snd ?r)) ! 1 = Execs [''wc''] u"
  proof -
    have h: "heredoc_fd (add_arg empty_command ''wc'') = -1" "input_file (add_arg empty_command ''wc'') = None"
      "output_file (add_arg empty_command ''wc'') = None"
      by (simp_all add: add_arg_def empty_command_def command_zero_def)
    have b: "cmd_name (add_arg empty_command ''wc'') = ''wc''" "c_argv (args (add_arg empty_command ''wc'')) = [''wc'']"
      by (simp_all add: add_arg_def empty_command_def command_zero_def MAX_ARGS_def c_argv_def numeral_eq_Suc)
    have "\<exists>u. exec_child K (add_arg empty_command ''wc'') st v = Execs [''wc''] u"
      if "k_exec K = (\<lambda>_ _. None)" for K st v
      using h b that
      by (simp add: exec_child_def Let_def apply_redirection_def redirect_input_def redirect_output_def is_builtin_def)
    moreover obtain v where "fst (snd (snd ?r)) ! 1 = exec_child sample_kernel (stages sample_pipeline ! 1) shell_init v"
      using spawn_pipeline_facts(7) [OF sample_spawn(3) _ ok, of 1] sample_spawn(2)
      by (auto simp: spawned_def)
    ultimately show ?thesis using sample_spawn(2) by (simp add: sample_kernel_def)
  qed
  then obtain u where u: "fst (snd (snd ?r)) ! 1 = Execs [''wc''] u" by blast
  have "heredoc_ok (w_fds sample_world) (stages sample_pipeline ! 1)"
    unfolding sample_spawn(2) by (simp add: heredoc_ok_def add_arg_def empty_command_def)
  moreover have "snd (the (w_fds sample_world ! 0)) = False" "snd (the (w_fds sample_world ! 1)) = False"
    by (simp_all add: sample_world_def)
  moreover have "stage_reads (add_arg empty_command ''wc'') (w_fds sample_world) (pipe_in 0 1) = PipeR 0"
    by (simp add: stage_reads_def pipe_in_def add_arg_def empty_command_def command_zero_def)
  moreover have "stage_writes (add_arg empty_command ''wc'') (w_fds sample_world) (pipe_out 0 2 1) = Inherited 1"
    by (simp add: stage_writes_def pipe_out_def add_arg_def empty_command_def command_zero_def
        sample_world_def)
  moreover have "w_pipes sample_world = 0" by (simp add: sample_world_def)
  moreover have "length (stages sample_pipeline) = 2" "stages sample_pipeline ! 1 = add_arg empty_command ''wc''"
    unfolding sample_spawn(2) by simp_all
  ultimately have "w_fds u ! 0 = Some (PipeR 0, False) \<and> w_fds u ! 1 = Some (Inherited 1, False)"
    using stage_program [OF sample_spawn(3) _ _ sample_inv ok, of 1 "[''wc'']" u] u
    by (simp only: simp_thms one_less_numeral_iff semiring_norm) 
  with u show ?thesis by blast
qed

text \<open>C13: a pipeline, whether it runs in the foreground or not, whether its stages are programs or
  built-ins, and whether it can be started or not, leaves the shell's environment, directory,
  signal mask, dispositions, input, history, settings and exit flag as they were, keeps its open
  descriptors open on the same files, keeps the job table well formed, and leaves the terminal with
  the shell.\<close>

theorem execute_keeps_shell:
  "case execute_pipeline K p st w of (r, children, st', w') \<Rightarrow> steady (st, w) (st', w')"
  using execute_steady by (metis (no_types, lifting) case_prodI2)


text \<open>C35: when the fork of the first of several stages fails, the two ends of the pipe made for
  it stay open in the shell: the descriptors, free before, are still in use after.\<close>

theorem fork_failure_leaks:
  assumes "stages p = c # d # cs" "sys_pipe K w = (Inr (a, b), w1)" "k_fork K (w_trace w1) = Inl err"
    and "spawn_pipeline K p st w = (ok, pids, children, w')"
  shows "\<not> ok \<and> children = [] \<and> w_fds w' = w_fds w1 \<and> a \<noteq> b \<and>
    \<not> valid_fd a (w_fds w) \<and> \<not> valid_fd b (w_fds w) \<and> valid_fd a (w_fds w') \<and> valid_fd b (w_fds w')"
proof -
  have r: "\<not> ok" "children = []" "w_fds w' = w_fds w1"
    using assms unfolding spawn_pipeline_def stages_def by (auto simp: Let_def)
  obtain m n where mn: "a = int m" "b = int n" "m \<noteq> n" "m < length (w_fds w)" "n < length (w_fds w)"
    "w_fds w ! m = None" "w_fds w ! n = None"
    "w_fds w1 = (w_fds w)[m := Some (PipeR (w_pipes w), False), n := Some (PipeW (w_pipes w), False)]"
    using sys_pipe_Inr [OF assms(2)] by metis
  then show ?thesis using r by (auto simp: valid_fd_def nth_list_update_if)
qed

theorem fork_failure_leaks_witness:
  "valid_fd 3 (w_fds (snd (snd (snd (spawn_pipeline (sample_kernel\<lparr>k_fork := \<lambda>_. Inl ''no memory''\<rparr>)
      sample_pipeline shell_init sample_world)))))"
proof -
  let ?K = "sample_kernel\<lparr>k_fork := \<lambda>_. Inl ''no memory''\<rparr>"
  let ?r = "spawn_pipeline ?K sample_pipeline shell_init sample_world"
  have p: "sys_pipe ?K sample_world = (Inr (3, 4), snd (sys_pipe ?K sample_world))"
    by (simp add: sys_pipe_def sample_simps lowest_free_def Let_def)
  have k: "k_fork ?K (w_trace (snd (sys_pipe ?K sample_world))) = Inl ''no memory''" by simp
  have "?r = (fst ?r, fst (snd ?r), fst (snd (snd ?r)), snd (snd (snd ?r)))" by simp
  from fork_failure_leaks [OF sample_spawn(2) p k this] show ?thesis by blast
qed


end
