(* ===== verification/Expand.thy ===== *)
theory Expand
  imports Grammar Posix
begin

text \<open>
  Word expansion (expand.h, expand.c): the growable buffer, variable substitution, pathname
  expansion of arguments and redirection targets, and the release of what was allocated. The
  allocator is a parameter \<open>mem\<close>: whether a request of a given size succeeds. A pointer to a
  byte buffer is the list of bytes written to it; reading it as a C string is \<open>cstr\<close>. \<open>glob\<close>
  is the kernel parameter's \<open>k_glob\<close>, called with GLOB\_NOCHECK: None is an error return.
\<close>

section \<open>The growable buffer\<close>

record strbuf_t =
  sb_data :: "char list"
  sb_cap :: nat

abbreviation sb_len :: "strbuf_t \<Rightarrow> nat" where "sb_len sb \<equiv> length (sb_data sb)"

definition sb_init :: "(nat \<Rightarrow> bool) \<Rightarrow> strbuf_t option" where
  "sb_init mem = (if mem 64 then Some \<lparr>sb_data = [], sb_cap = 64\<rparr> else None)"

text \<open>The flag is the int result: whether the character was stored.\<close>

definition sb_putc :: "(nat \<Rightarrow> bool) \<Rightarrow> strbuf_t \<Rightarrow> char \<Rightarrow> bool \<times> strbuf_t" where
  "sb_putc mem sb c =
     (if sb_len sb + 1 \<ge> sb_cap sb
      then (let ncap = sb_cap sb * 2
            in if \<not> mem ncap then (False, sb)
               else (True, sb\<lparr>sb_cap := ncap, sb_data := sb_data sb @ [c]\<rparr>))
      else (True, sb\<lparr>sb_data := sb_data sb @ [c]\<rparr>))"

fun sb_puts :: "(nat \<Rightarrow> bool) \<Rightarrow> strbuf_t \<Rightarrow> string \<Rightarrow> bool \<times> strbuf_t" where
  "sb_puts mem sb [] = (True, sb)"
| "sb_puts mem sb (c # cs) =
     (case sb_putc mem sb c of (ok, sb') \<Rightarrow> if \<not> ok then (False, sb') else sb_puts mem sb' cs)"

section \<open>Variables\<close>

text \<open>
  The two loops that copy a name into \<open>char name[256]\<close>: at most 255 characters while the test
  holds. The result is the name and what is left of the word.
\<close>

fun scan_name :: "(char \<Rightarrow> bool) \<Rightarrow> nat \<Rightarrow> string \<Rightarrow> string \<times> string" where
  "scan_name ok (Suc k) (c # cs) =
     (if ok c then (case scan_name ok k cs of (name, rest) \<Rightarrow> (c # name, rest)) else ([], c # cs))"
| "scan_name ok k s = ([], s)"

lemma scan_name_append: "scan_name ok k s = (name, rest) \<Longrightarrow> s = name @ rest"
  by (induction ok k s arbitrary: name rule: scan_name.induct) (auto split: if_splits prod.splits)

lemma scan_name_length: "(name, rest) = scan_name ok k s \<Longrightarrow> length rest \<le> length s"
  by (drule sym, drule scan_name_append) simp

definition name_char :: "char \<Rightarrow> bool" where
  "name_char c = (isalnum c \<or> c = CHR ''_'')"

definition name_start :: "char \<Rightarrow> bool" where
  "name_start c = (isalpha c \<or> c = CHR ''_'')"

definition put_value :: "(nat \<Rightarrow> bool) \<Rightarrow> strbuf_t \<Rightarrow> string option \<Rightarrow> strbuf_t" where
  "put_value mem sb v = (case v of None \<Rightarrow> sb | Some s \<Rightarrow> snd (sb_puts mem sb s))"

text \<open>
  The scan over the word. The argument is the rest of the word from index i; the character
  after the last one is the NUL.
\<close>

function expand_loop ::
  "(nat \<Rightarrow> bool) \<Rightarrow> (string \<rightharpoonup> string) \<Rightarrow> int \<Rightarrow> strbuf_t \<Rightarrow> string \<Rightarrow> strbuf_t" where
  "expand_loop mem env status sb [] = sb"
| "expand_loop mem env status sb (c # rest) =
     (if c \<noteq> CHR ''$'' then expand_loop mem env status (snd (sb_putc mem sb c)) rest
      else
        (let next_c = (case rest of [] \<Rightarrow> NUL | n # _ \<Rightarrow> n)
         in if next_c = CHR ''?'' then
              expand_loop mem env status
                (snd (sb_puts mem sb (fst (snprintf 16 (dec_int status))))) (drop 1 rest)
            else if next_c = CHR ''{'' then
              (case scan_name (\<lambda>c. c \<noteq> CHR ''}'') 255 (drop 1 rest) of
                 (name, after) \<Rightarrow>
                   if after \<noteq> [] \<and> hd after = CHR ''}''
                   then expand_loop mem env status (put_value mem sb (env name)) (tl after)
                   else expand_loop mem env status (snd (sb_putc mem sb (CHR ''$''))) rest)
            else if name_start next_c then
              (case scan_name name_char 255 rest of
                 (name, after) \<Rightarrow> expand_loop mem env status (put_value mem sb (env name)) after)
            else expand_loop mem env status (snd (sb_putc mem sb (CHR ''$''))) rest))"
  by pat_completeness auto
termination
  by (relation "measure (\<lambda>(mem, env, status, sb, s). length s)")
    (auto dest!: scan_name_length simp: le_imp_less_Suc)

declare expand_loop.simps(2) [simp del]

text \<open>The buffer that is returned, with its terminator; None when nothing could be allocated.\<close>

definition expand_variables ::
  "(nat \<Rightarrow> bool) \<Rightarrow> (string \<rightharpoonup> string) \<Rightarrow> int \<Rightarrow> string \<Rightarrow> char list option" where
  "expand_variables mem env status input =
     (case sb_init mem of
        None \<Rightarrow> None
      | Some sb \<Rightarrow> Some (sb_data (snd (sb_putc mem (expand_loop mem env status sb input) NUL))))"

section \<open>Globbing\<close>

definition has_glob :: "string \<Rightarrow> bool" where
  "has_glob s = (\<exists>c \<in> set s. c \<in> set ''*?['')"

definition strdup :: "(nat \<Rightarrow> bool) \<Rightarrow> string \<Rightarrow> string option" where
  "strdup mem s = (if mem (length s + 1) then Some s else None)"

definition expand_word ::
  "(nat \<Rightarrow> bool) \<Rightarrow> (string \<Rightarrow> string list option) \<Rightarrow> (string \<rightharpoonup> string) \<Rightarrow> int \<Rightarrow> string \<Rightarrow> string option" where
  "expand_word mem glob env status input =
     (case expand_variables mem env status input of
        None \<Rightarrow> None
      | Some v \<Rightarrow>
        (let s = cstr v
         in if has_glob s
            then (case glob s of
                    Some (first # _) \<Rightarrow> strdup mem first
                  | _ \<Rightarrow> Some s)
            else Some s))"

text \<open>
  The inner loop of \<open>expand_pipeline\<close> over the arguments of a command, with \<open>new_args[0..n)\<close>.
  An entry is NULL where \<open>strdup\<close> failed.
\<close>

fun expand_args ::
  "(nat \<Rightarrow> bool) \<Rightarrow> (string \<Rightarrow> string list option) \<Rightarrow> (string \<rightharpoonup> string) \<Rightarrow> int \<Rightarrow>
     string list \<Rightarrow> string option list \<Rightarrow> string option list" where
  "expand_args mem glob env status [] new_args = new_args"
| "expand_args mem glob env status (a # as) new_args =
     (if \<not> length new_args < MAX_ARGS - 1 then new_args
      else case expand_variables mem env status a of
             None \<Rightarrow> expand_args mem glob env status as new_args
           | Some v \<Rightarrow>
             (let word = cstr v
              in if has_glob word
                 then (case glob word of
                         Some paths \<Rightarrow>
                           expand_args mem glob env status as
                             (new_args @ map (strdup mem) (take (MAX_ARGS - 1 - length new_args) paths))
                       | None \<Rightarrow> expand_args mem glob env status as (new_args @ [Some word]))
                 else expand_args mem glob env status as (new_args @ [Some word])))"

definition expand_target ::
  "(nat \<Rightarrow> bool) \<Rightarrow> (string \<Rightarrow> string list option) \<Rightarrow> (string \<rightharpoonup> string) \<Rightarrow> int \<Rightarrow> string option \<Rightarrow> string option" where
  "expand_target mem glob env status target =
     (case target of None \<Rightarrow> None | Some f \<Rightarrow> expand_word mem glob env status f)"

definition expand_command ::
  "(nat \<Rightarrow> bool) \<Rightarrow> (string \<Rightarrow> string list option) \<Rightarrow> (string \<rightharpoonup> string) \<Rightarrow> int \<Rightarrow> command_t \<Rightarrow> command_t" where
  "expand_command mem glob env status cmd =
     (let new_args = expand_args mem glob env status (argv cmd) [];
          n = length new_args
      in cmd\<lparr>args := new_args @ [None] @ drop (n + 1) (args cmd), argc := n,
             input_file := expand_target mem glob env status (input_file cmd),
             output_file := expand_target mem glob env status (output_file cmd)\<rparr>)"

definition expand_pipeline ::
  "(nat \<Rightarrow> bool) \<Rightarrow> (string \<Rightarrow> string list option) \<Rightarrow> (string \<rightharpoonup> string) \<Rightarrow> int \<Rightarrow> pipeline_t \<Rightarrow> pipeline_t" where
  "expand_pipeline mem glob env status p =
     p\<lparr>commands := map (expand_command mem glob env status) (take (num_commands p) (commands p)) @
          drop (num_commands p) (commands p)\<rparr>"

definition free_command :: "command_t \<Rightarrow> command_t" where
  "free_command cmd =
     cmd\<lparr>args := replicate (argc cmd) None @ drop (argc cmd) (args cmd),
         input_file := None, output_file := None\<rparr>"

definition free_expansions :: "pipeline_t \<Rightarrow> pipeline_t" where
  "free_expansions p =
     p\<lparr>commands := map free_command (take (num_commands p) (commands p)) @
          drop (num_commands p) (commands p)\<rparr>"

section \<open>The buffer\<close>

lemma sb_putc_data [simp]:
  "(\<And>n. mem n) \<Longrightarrow> sb_data (snd (sb_putc mem sb c)) = sb_data sb @ [c]"
  "(\<And>n. mem n) \<Longrightarrow> fst (sb_putc mem sb c)"
  by (simp_all add: sb_putc_def Let_def)

lemma sb_puts_data [simp]: "(\<And>n. mem n) \<Longrightarrow> sb_data (snd (sb_puts mem sb s)) = sb_data sb @ s"
  by (induction s arbitrary: sb) (simp_all add: case_prod_beta)

lemma put_value_data [simp]:
  "(\<And>n. mem n) \<Longrightarrow> sb_data (put_value mem sb v) = sb_data sb @ (case v of None \<Rightarrow> [] | Some s \<Rightarrow> s)"
  by (simp add: put_value_def split: option.split)

text \<open>The buffer never overruns its capacity.\<close>

definition sb_inv :: "strbuf_t \<Rightarrow> bool" where
  "sb_inv sb \<longleftrightarrow> 64 \<le> sb_cap sb \<and> sb_len sb < sb_cap sb"

lemma sb_putc_inv: "sb_inv sb \<Longrightarrow> sb_inv (snd (sb_putc mem sb c))"
  by (auto simp: sb_inv_def sb_putc_def Let_def)

lemma sb_puts_inv: "sb_inv sb \<Longrightarrow> sb_inv (snd (sb_puts mem sb s))"
  by (induction s arbitrary: sb) (simp_all add: case_prod_beta sb_putc_inv)

section \<open>What a word expands to\<close>

text \<open>
  The reference: a word is literal characters and references. \<open>$?\<close> is the status in decimal,
  \<open>${NAME}\<close> with at most 255 characters before the brace and \<open>$NAME\<close> with the longest name of
  at most 255 characters are the value of the variable or nothing; any other dollar is itself.
\<close>

definition value_of :: "(string \<rightharpoonup> string) \<Rightarrow> string \<Rightarrow> string" where
  "value_of env name = (case env name of None \<Rightarrow> [] | Some v \<Rightarrow> v)"

fun braced :: "string \<Rightarrow> (string \<times> string) option" where
  "braced s = (let name = takeWhile (\<lambda>c. c \<noteq> CHR ''}'') s; after = drop (length name) s
               in if length name \<le> 255 \<and> after \<noteq> [] then Some (name, tl after) else None)"

lemma braced_length: "braced s = Some (name, after) \<Longrightarrow> length after < length s"
  by (auto simp: Let_def split: if_splits)

function expansion :: "(string \<rightharpoonup> string) \<Rightarrow> int \<Rightarrow> string \<Rightarrow> string" where
  "expansion env status [] = []"
| "c \<noteq> CHR ''$'' \<Longrightarrow> expansion env status (c # s) = c # expansion env status s"
| "expansion env status (CHR ''$'' # s) =
     (case s of
        [] \<Rightarrow> ''$''
      | c # s' \<Rightarrow>
        if c = CHR ''?'' then dec_int status @ expansion env status s'
        else if c = CHR ''{'' then
          (case braced s' of
             Some (name, after) \<Rightarrow> value_of env name @ expansion env status after
           | None \<Rightarrow> CHR ''$'' # expansion env status s)
        else if name_start c then
          (let name = take 255 (takeWhile name_char s)
           in value_of env name @ expansion env status (drop (length name) s))
        else CHR ''$'' # expansion env status s)"
  by (auto, metis list.exhaust)
termination
  by (relation "measure (\<lambda>(env, status, s). length s)")
    (auto simp del: braced.simps dest!: braced_length)

lemma scan_name_eq:
  "scan_name ok k s = (take k (takeWhile ok s), drop (length (take k (takeWhile ok s))) s)"
  by (induction ok k s rule: scan_name.induct) auto

lemma scan_braced:
  "scan_name (\<lambda>c. c \<noteq> CHR ''}'') 255 s = (name, after) \<Longrightarrow>
     (if after \<noteq> [] \<and> hd after = CHR ''}'' then Some (name, tl after) else None) = braced s"
proof -
  let ?w = "takeWhile (\<lambda>c. c \<noteq> CHR ''}'') s"
  assume "scan_name (\<lambda>c. c \<noteq> CHR ''}'') 255 s = (name, after)"
  then have na: "name = take 255 ?w" "after = drop (length (take 255 ?w)) s"
    by (auto simp: scan_name_eq)
  have rest: "drop (length ?w) s = dropWhile (\<lambda>c. c \<noteq> CHR ''}'') s"
    by (simp add: dropWhile_eq_drop)
  show ?thesis
  proof (cases "length ?w \<le> 255")
    case True
    have "hd (drop (length ?w) s) = CHR ''}''" if "drop (length ?w) s \<noteq> []"
      using that hd_dropWhile [of "\<lambda>c. c \<noteq> CHR ''}''" s] unfolding rest by simp
    then show ?thesis using True na by (auto simp: Let_def)
  next
    case False
    then have len: "255 < length ?w" "255 < length s"
      using length_takeWhile_le [of "\<lambda>c. c \<noteq> CHR ''}''" s] by simp_all
    then have "hd after = ?w ! 255"
      using na False by (simp add: hd_drop_conv_nth takeWhile_nth)
    moreover have "?w ! 255 \<noteq> CHR ''}''"
      using nth_mem [OF len(1)] by (auto dest: set_takeWhileD)
    ultimately show ?thesis using False by (simp add: Let_def)
  qed
qed

declare braced.simps [simp del]

text \<open>The case of a brace: with its end in reach the name's value, otherwise the dollar sign.\<close>

lemma expand_brace:
  assumes mem: "\<And>n. mem n"
    and closed: "\<And>name after sb. braced s = Some (name, after) \<Longrightarrow>
      sb_data (expand_loop mem env status sb after) = sb_data sb @ expansion env status after"
    and lone: "\<And>sb. braced s = None \<Longrightarrow> sb_data (expand_loop mem env status sb (CHR ''{'' # s)) =
      sb_data sb @ expansion env status (CHR ''{'' # s)"
  shows "sb_data (expand_loop mem env status sb (CHR ''$'' # CHR ''{'' # s)) =
    sb_data sb @ expansion env status (CHR ''$'' # CHR ''{'' # s)"
proof -
  obtain name after where sc: "scan_name (\<lambda>c. c \<noteq> CHR ''}'') 255 s = (name, after)" by fastforce
  show ?thesis
  proof (cases "after \<noteq> [] \<and> hd after = CHR ''}''")
    case True
    then have b: "braced s = Some (name, tl after)" using scan_braced [OF sc] by simp
    show ?thesis
      using sc True b mem closed [OF b] by (simp add: expand_loop.simps(2) value_of_def split: option.split)
  next
    case False
    then have b: "braced s = None" using scan_braced [OF sc] by (auto split: if_splits)
    show ?thesis using sc False b mem lone [OF b] by (auto simp: expand_loop.simps(2))
  qed
qed

lemma expand_loop_expansion:
  assumes mem: "\<And>n. mem n" and st: "is_int32 status"
  shows "sb_data (expand_loop mem env status sb s) = sb_data sb @ expansion env status s"
  using st
proof (induction env status s arbitrary: sb rule: expansion.induct)
  case (1 env status)
  then show ?case by simp
next
  case (2 c env status s)
  then show ?case using mem by (simp add: expand_loop.simps(2))
next
  case (3 env status s)
  have num: "fst (snprintf 16 (dec_int status)) = dec_int status"
    using length_dec_int [OF "3.prems"] by (simp add: snprintf_def)
  show ?case
  proof (cases s)
    case Nil
    then show ?thesis using mem by (simp add: expand_loop.simps(2) name_start_def isalpha_def)
  next
    case (Cons c s')
    consider (status) "c = CHR ''?''" | (brace) "c = CHR ''{''"
      | (name) "c \<noteq> CHR ''?''" "c \<noteq> CHR ''{''" "name_start c"
      | (other) "c \<noteq> CHR ''?''" "c \<noteq> CHR ''{''" "\<not> name_start c" by blast
    then show ?thesis
    proof cases
      case status
      then show ?thesis using Cons mem num "3.IH"(1) [OF Cons status "3.prems"]
        by (simp add: expand_loop.simps(2))
    next
      case brace
      show ?thesis unfolding Cons brace
      proof (rule expand_brace [OF mem])
        show "sb_data (expand_loop mem env status sb after) = sb_data sb @ expansion env status after"
          if "braced s' = Some (name, after)" for name after sb
          using "3.IH"(3) [OF Cons _ brace that refl "3.prems"] brace by simp
        show "sb_data (expand_loop mem env status sb (CHR ''{'' # s')) = sb_data sb @ expansion env status (CHR ''{'' # s')"
          if "braced s' = None" for sb
          using "3.IH"(2) [OF Cons _ brace that "3.prems"] brace Cons by simp
      qed
    next
      case name
      let ?n = "take 255 (takeWhile name_char s)"
      show ?thesis
        using Cons name mem "3.IH"(4) [OF Cons name refl "3.prems"]
        by (simp add: expand_loop.simps(2) scan_name_eq Let_def value_of_def split: option.split)
    next
      case other
      then show ?thesis
        using Cons mem "3.IH"(5) [OF Cons other "3.prems"]
        by (simp add: expand_loop.simps(2))
    qed
  qed
qed

section \<open>What a command expands to\<close>

text \<open>Every string of the environment is a C string.\<close>

definition env_ok :: "(string \<rightharpoonup> string) \<Rightarrow> bool" where
  "env_ok env \<longleftrightarrow> (\<forall>k v. env k = Some v \<longrightarrow> is_cstr v)"

lemma is_cstr_expansion:
  "env_ok env \<Longrightarrow> is_cstr s \<Longrightarrow> is_cstr (expansion env status s)"
proof (induction env status s rule: expansion.induct)
  case (3 env status s)
  have val: "is_cstr (value_of env n)" for n
    using "3.prems"(1) by (auto simp: value_of_def env_ok_def split: option.split)
  have sub: "is_cstr (drop n s)" for n
    using "3.prems"(2) by (auto intro: is_cstr_mono [OF set_drop_subset])
  show ?case
  proof (cases s)
    case (Cons c s')
    have after: "is_cstr after" if "braced s' = Some (name, after)" for name after
    proof -
      have "after = drop (Suc (length (takeWhile (\<lambda>c. c \<noteq> CHR ''}'') s'))) s'"
        using that by (auto simp: braced.simps Let_def drop_Suc tl_drop split: if_splits)
      then have "set after \<subseteq> set s'" by (simp only: set_drop_subset)
      then show ?thesis using "3.prems"(2) Cons by (auto intro: is_cstr_mono)
    qed
    show ?thesis
      using Cons "3.prems" "3.IH" val after sub [of "Suc n" for n] sub
      by (auto simp: Let_def split: option.split)
  qed simp
qed simp_all

lemma expand_variables_ok:
  assumes "\<And>n. mem n" "is_int32 status"
  shows "expand_variables mem env status s = Some (expansion env status s @ [NUL])"
  using expand_loop_expansion [where mem = mem, OF assms] assms(1)
  by (simp add: expand_variables_def sb_init_def)

lemma expand_variables_cstr:
  assumes "\<And>n. mem n" "is_int32 status" "env_ok env" "is_cstr s"
  shows "map_option cstr (expand_variables mem env status s) = Some (expansion env status s)"
  using expand_variables_ok [OF assms(1,2)] is_cstr_expansion [OF assms(3,4)] by simp

text \<open>The words one argument becomes.\<close>

definition glob_words :: "(string \<Rightarrow> string list option) \<Rightarrow> string \<Rightarrow> string list" where
  "glob_words glob s = (if has_glob s then (case glob s of None \<Rightarrow> [s] | Some ps \<Rightarrow> ps) else [s])"

definition word_expansion ::
  "(string \<Rightarrow> string list option) \<Rightarrow> (string \<rightharpoonup> string) \<Rightarrow> int \<Rightarrow> string list \<Rightarrow> string list" where
  "word_expansion glob env status ws = concat (map (glob_words glob \<circ> expansion env status) ws)"

lemma expand_args_words:
  assumes "\<And>n. mem n" "is_int32 status" "env_ok env" "list_all is_cstr ws"
    and "length acc \<le> MAX_ARGS - 1"
  shows "expand_args mem glob env status ws acc =
           acc @ map Some (take (MAX_ARGS - 1 - length acc) (word_expansion glob env status ws))"
  using assms(4,5)
proof (induction ws arbitrary: acc)
  case Nil
  then show ?case by (simp add: word_expansion_def)
next
  case (Cons a ws)
  let ?e = "expansion env status a"
  let ?w = "glob_words glob ?e"
  have v: "expand_variables mem env status a = Some (?e @ [NUL])" "cstr (?e @ [NUL]) = ?e"
    using expand_variables_ok [OF assms(1,2)] is_cstr_expansion [OF assms(3), of a status] Cons.prems
    by simp_all
  have dup: "strdup mem = Some" using assms(1) by (auto simp: strdup_def)
  show ?case
  proof (cases "length acc < MAX_ARGS - 1")
    case True
    let ?acc = "acc @ map Some (take (MAX_ARGS - 1 - length acc) ?w)"
    have "expand_args mem glob env status (a # ws) acc = expand_args mem glob env status ws ?acc"
      using True v dup by (simp add: glob_words_def split: option.split)
    also have "\<dots> = ?acc @ map Some
        (take (MAX_ARGS - 1 - length ?acc) (word_expansion glob env status ws))"
      using Cons.prems by (intro Cons.IH) auto
    also have "\<dots> = acc @ map Some
        (take (MAX_ARGS - 1 - length acc) (word_expansion glob env status (a # ws)))"
      by (simp add: word_expansion_def min_def)
    finally show ?thesis .
  next
    case False
    then show ?thesis using Cons.prems by simp
  qed
qed

text \<open>With memory and a glob that always gives something, a command keeps its shape.\<close>

lemma expand_command_ok:
  assumes "\<And>n. mem n" "is_int32 status" "env_ok env"
    and glob: "\<And>s ps. glob s = Some ps \<Longrightarrow> ps \<noteq> []"
    and cmd: "command_inv cmd" "list_all is_cstr (argv cmd)"
  shows "command_inv (expand_command mem glob env status cmd)"
    "argv (expand_command mem glob env status cmd) =
       take (MAX_ARGS - 1) (word_expansion glob env status (argv cmd))"
    "argc cmd \<le> argc (expand_command mem glob env status cmd)"
proof -
  let ?ws = "take (MAX_ARGS - 1) (word_expansion glob env status (argv cmd))"
  have args: "expand_args mem glob env status (argv cmd) [] = map Some ?ws"
    using expand_args_words [OF assms(1-3) cmd(2), of "[]"] by simp
  have "1 \<le> length (glob_words glob s)" for s
    using glob [of s] by (auto simp: glob_words_def Suc_le_eq split: option.split)
  then have "length ws \<le> length (word_expansion glob env status ws)" for ws
  proof (induction ws)
    case (Cons a ws)
    show ?case
      using Cons.prems [of "expansion env status a"] Cons.IH [OF Cons.prems]
      by (simp add: word_expansion_def)
  qed simp
  from this [of "argv cmd"] have "argc cmd \<le> length (word_expansion glob env status (argv cmd))"
    by (simp add: length_argv [OF cmd(1)])
  moreover have "argc cmd \<le> MAX_ARGS - 1" using cmd(1) by (auto simp: command_inv_def)
  ultimately have len: "argc cmd \<le> length ?ws" by simp
  have ws: "length ?ws < MAX_ARGS" by (simp add: MAX_ARGS_def min_def)
  define cmd' where "cmd' = expand_command mem glob env status cmd"
  have new: "args cmd' = map Some ?ws @ None # drop (Suc (length ?ws)) (args cmd)" "argc cmd' = length ?ws"
    unfolding cmd'_def by (simp_all only: expand_command_def Let_def args) simp_all
  have "drop (Suc n) (args cmd) = replicate (MAX_ARGS - Suc n) None" if "argc cmd \<le> n" for n
    using that length_argv [OF cmd(1)] by (subst args_argv [OF cmd(1)]) simp
  from this [OF len] have "args cmd' = map Some ?ws @ replicate (MAX_ARGS - length ?ws) None"
    unfolding new using ws by (metis Suc_diff_Suc replicate_Suc)
  note command_invI [OF this new(2) ws]
  then show "command_inv (expand_command mem glob env status cmd)"
    "argv (expand_command mem glob env status cmd) = ?ws" by (simp_all add: cmd'_def)
  show "argc cmd \<le> argc (expand_command mem glob env status cmd)"
    using len new(2) by (simp add: cmd'_def)
qed

section \<open>The buffer under any allocator\<close>

lemma put_value_inv: "sb_inv sb \<Longrightarrow> sb_inv (put_value mem sb v)"
  by (cases v) (simp_all add: put_value_def sb_puts_inv)

lemma expand_loop_inv: "sb_inv sb \<Longrightarrow> sb_inv (expand_loop mem env status sb s)"
proof (induction mem env status sb s rule: expand_loop.induct)
  case (2 mem env status sb c rest)
  obtain name after where b: "scan_name (\<lambda>c. c \<noteq> CHR ''}'') 255 (drop 1 rest) = (name, after)" by fastforce
  obtain name' after' where n: "scan_name name_char 255 rest = (name', after')" by fastforce
  show ?case
    using "2.IH" "2.prems" b n sb_putc_inv [OF "2.prems"] sb_puts_inv [OF "2.prems"]
      put_value_inv [OF "2.prems"]
    by (subst expand_loop.simps(2)) (simp add: Let_def del: sb_puts.simps split: if_split)
qed simp

section \<open>The correctness of expansion\<close>

text \<open>C9: with memory, a word expands to what the reference says: dollar-question is the last
  status in decimal, dollar-name and dollar-braced-name are the variable's value or nothing, every other
  character, a lone dollar and an unclosed brace included, stands for itself.\<close>

theorem expand_reference:
  assumes "\<And>n. mem n" "is_int32 status" "env_ok env" "is_cstr s"
  shows "map_option cstr (expand_variables mem env status s) = Some (expansion env status s)"
  by (rule expand_variables_cstr [OF assms])

theorem expand_reference_witness:
  "map_option cstr (expand_variables (\<lambda>_. True) [''HOME'' \<mapsto> ''/root''] 3 ''$HOME/x$?${HOME}$'') =
     Some ''/root/x3/root$''"
proof -
  have "dec_int 3 = ''3''" by code_simp
  then have "expansion [''HOME'' \<mapsto> ''/root''] 3 ''$HOME/x$?${HOME}$'' = ''/root/x3/root$''"
    by (simp add: braced.simps name_start_def name_char_def isalpha_def isalnum_def isdigit_def
        value_of_def Let_def)
  then show ?thesis
    using expand_reference [of "\<lambda>_. True" 3 "[''HOME'' \<mapsto> ''/root'']" "''$HOME/x$?${HOME}$''"]
    by (simp add: is_int32_def env_ok_def)
qed

text \<open>Without memory for the buffer every word is dropped, the command's name included, and the targets
  of its redirections become NULL: \<open>is_builtin\<close> is then called with NULL.\<close>

lemma no_memory_no_name:
  assumes "\<not> mem 64"
  shows "argc (expand_command mem glob env status cmd) = 0"
    "args (expand_command mem glob env status cmd) ! 0 = None"
    "input_file (expand_command mem glob env status cmd) = None"
    "output_file (expand_command mem glob env status cmd) = None"
proof -
  have none: "expand_variables mem env status s = None" for s
    using assms by (simp add: expand_variables_def sb_init_def)
  have "expand_args mem glob env status ws [] = []" for ws
    by (induction ws) (simp_all add: none MAX_ARGS_def)
  then show "argc (expand_command mem glob env status cmd) = 0"
    "args (expand_command mem glob env status cmd) ! 0 = None"
    "input_file (expand_command mem glob env status cmd) = None"
    "output_file (expand_command mem glob env status cmd) = None"
    by (auto simp: expand_command_def Let_def expand_target_def expand_word_def none split: option.split)
qed

text \<open>C33: with memory, a command's new argument vector is the first 63 of the words that its
  arguments expand to: each argument is expanded once, replaced by the names it matches when it
  holds a pattern character, and is never split at blanks; the command keeps a name and its shape.\<close>

theorem expand_command_words:
  assumes "\<And>n. mem n" "is_int32 status" "env_ok env" "\<And>s ps. glob s = Some ps \<Longrightarrow> ps \<noteq> []"
    and "command_inv cmd" "list_all is_cstr (argv cmd)"
  shows "command_inv (expand_command mem glob env status cmd) \<and>
    argv (expand_command mem glob env status cmd) =
      take (MAX_ARGS - 1) (concat (map (glob_words glob \<circ> expansion env status) (argv cmd))) \<and>
    argc cmd \<le> argc (expand_command mem glob env status cmd)"
  using expand_command_ok [OF assms(1-3) assms(4) assms(5,6)] by (simp add: word_expansion_def)

theorem expand_command_words_witness:
  "argv (expand_command (\<lambda>_. True) (\<lambda>_. Some [''a.c'', ''b.c'']) [''X'' \<mapsto> ''1 2''] 0
      (add_arg (add_arg (add_arg empty_command ''ls'') ''$X'') ''*.c'')) =
     [''ls'', ''1 2'', ''a.c'', ''b.c'']"
proof -
  let ?cmd = "add_arg (add_arg (add_arg empty_command ''ls'') ''$X'') ''*.c''"
  have inv: "command_inv ?cmd" "argv ?cmd = [''ls'', ''$X'', ''*.c'']"
    by (simp_all add: add_arg_inv argv_add_arg MAX_ARGS_def)
  have "concat (map (glob_words (\<lambda>_. Some [''a.c'', ''b.c'']) \<circ> expansion [''X'' \<mapsto> ''1 2''] 0)
      [''ls'', ''$X'', ''*.c'']) = [''ls'', ''1 2'', ''a.c'', ''b.c'']"
    by (simp add: name_start_def name_char_def isalpha_def isalnum_def isdigit_def value_of_def
        glob_words_def has_glob_def Let_def)
  then show ?thesis
    using expand_command_words [of "\<lambda>_. True" 0 "[''X'' \<mapsto> ''1 2'']" "\<lambda>_. Some [''a.c'', ''b.c'']" ?cmd] inv
    by (simp add: is_int32_def env_ok_def MAX_ARGS_def)
qed

text \<open>Whatever requests the allocator refuses, the growable buffer's length stays below its
  capacity after every step of an expansion, so no byte is ever written outside it.\<close>

lemma buffer_bounds:
  assumes "sb_init mem = Some sb"
  shows "sb_inv (expand_loop mem env status sb s) \<and>
    sb_inv (snd (sb_putc mem (expand_loop mem env status sb s) NUL))"
proof -
  have "sb_inv sb" using assms by (auto simp: sb_init_def sb_inv_def split: if_splits)
  then show ?thesis using expand_loop_inv sb_putc_inv by blast
qed

end
