(* ===== verification/Heredoc.thy ===== *)
theory Heredoc
  imports Grammar Shell_State
begin

text \<open>
  Here-documents (heredoc.h, heredoc.c): the body of each \<open><< WORD\<close> is read from the shell's own
  input into an unlinked temporary file whose descriptor goes into the command. The file's
  content and offset are in the descriptor table's entry; unlinking has no effect that the
  process can see through its descriptor.
\<close>

section \<open>The temporary file\<close>

text \<open>The content and the file offset of a temporary file, as the name of its open file.\<close>

definition sys_mkstemp :: "kernel \<Rightarrow> world \<Rightarrow> (string + int) \<times> world" where
  "sys_mkstemp K w =
     (let w1 = emit SysMkstemp w
      in case k_mkstemp K (w_trace w) of
           Some err \<Rightarrow> (Inl err, w1)
         | None \<Rightarrow>
           (case lowest_free (w_fds w) of
              None \<Rightarrow> (Inl EMFILE, w1)
            | Some n \<Rightarrow> (Inr (int n), w1\<lparr>w_fds := (w_fds w)[n := Some (TempFile [] 0, False)]\<rparr>)))"

text \<open>
  A \<open>write\<close> to a temporary file puts bytes at the offset and moves it behind them. The kernel
  fails it or says how many bytes it took, which may be less than all of them.
\<close>

definition sys_write :: "kernel \<Rightarrow> int \<Rightarrow> string \<Rightarrow> world \<Rightarrow> string option \<times> world" where
  "sys_write K fd bytes w =
     (let w1 = emit (SysWrite bytes) w
      in case k_write K (w_trace w) bytes of
           Inl err \<Rightarrow> (Some err, w1)
         | Inr n \<Rightarrow>
           (let text = take n bytes
            in case (if valid_fd fd (w_fds w) then w_fds w ! nat fd else None) of
                 Some (TempFile content offset, c) \<Rightarrow>
                   (None, w1\<lparr>w_fds := (w_fds w)[nat fd :=
                      Some (TempFile (take offset content @ text @ drop (offset + length text) content)
                              (offset + length text), c)]\<rparr>)
               | _ \<Rightarrow> (Some ''Bad file descriptor'', w1)))"

definition sys_rewind :: "int \<Rightarrow> world \<Rightarrow> world" where
  "sys_rewind fd w =
     (case (if valid_fd fd (w_fds w) then w_fds w ! nat fd else None) of
        Some (TempFile content offset, c) \<Rightarrow>
          w\<lparr>w_fds := (w_fds w)[nat fd := Some (TempFile content 0, c)]\<rparr>
      | _ \<Rightarrow> w)"

section \<open>Collecting one body\<close>

text \<open>
  The line without its newline, as the C string that \<open>strcmp\<close> and \<open>strlen\<close> see.
\<close>

definition chomp :: "string \<Rightarrow> string" where
  "chomp raw = cstr (if raw \<noteq> [] \<and> last raw = NL then butlast raw else raw)"

function heredoc_loop :: "kernel \<Rightarrow> string \<Rightarrow> bool \<Rightarrow> int \<Rightarrow> world \<Rightarrow> world" where
  "heredoc_loop K delim tty fd w =
     (let w1 = (if tty then emit Flush (emit (Print ''> '') w) else w)
      in case sys_getline (interrupts K w1) w1 of
           (None, w2) \<Rightarrow> w2
         | (Some raw, w2) \<Rightarrow>
           (let line = chomp raw
            in if line = delim then w2
               else case sys_write K fd line w2 of
                      (Some err, w3) \<Rightarrow> emit (PrintErr (''mysh: heredoc: '' @ err @ [NL])) w3
                    | (None, w3) \<Rightarrow>
                      (case sys_write K fd [NL] w3 of
                         (Some err, w4) \<Rightarrow> emit (PrintErr (''mysh: heredoc: '' @ err @ [NL])) w4
                       | (None, w4) \<Rightarrow> heredoc_loop K delim tty fd w4)))"
  by pat_completeness auto

lemma sys_write_stdin: "(r, w') = sys_write K fd text w \<Longrightarrow> w_stdin w' = w_stdin w"
  by (auto simp: sys_write_def Let_def split: sum.splits option.splits prod.splits ofile.splits)

lemma sys_getline_stdin: "(Some raw, w') = sys_getline b w \<Longrightarrow> w_stdin w = raw # w_stdin w'"
  by (auto simp: sys_getline_def Let_def split: list.splits if_splits)

termination heredoc_loop
  by (relation "measure (\<lambda>(K, delim, tty, fd, w). length (w_stdin w))")
    (auto dest!: sys_getline_stdin sys_write_stdin split: if_splits)

declare heredoc_loop.simps [simp del]

text \<open>The int result: the descriptor or -1.\<close>

definition read_one_heredoc :: "kernel \<Rightarrow> string \<Rightarrow> bool \<Rightarrow> world \<Rightarrow> int \<times> world" where
  "read_one_heredoc K delim tty w =
     (case sys_mkstemp K w of
        (Inl err, w1) \<Rightarrow> (-1, emit (PrintErr (''mysh: heredoc: '' @ err @ [NL])) w1)
      | (Inr fd, w1) \<Rightarrow>
        (let w2 = sys_set_cloexec fd w1;
             w3 = heredoc_loop K delim tty fd w2
         in (fd, sys_rewind fd w3)))"

section \<open>All bodies of a pipeline\<close>

text \<open>The loop over the commands; the flag is whether it returned 0.\<close>

fun collect_loop :: "kernel \<Rightarrow> bool \<Rightarrow> command_t list \<Rightarrow> world \<Rightarrow> bool \<times> command_t list \<times> world" where
  "collect_loop K tty [] w = (True, [], w)"
| "collect_loop K tty (cmd # cmds) w =
     (case heredoc_delim cmd of
        None \<Rightarrow>
          (case collect_loop K tty cmds w of (ok, cmds', w') \<Rightarrow> (ok, cmd # cmds', w'))
      | Some delim \<Rightarrow>
          (case read_one_heredoc K delim tty w of
             (fd, w1) \<Rightarrow>
               if fd < 0 then (False, cmd # cmds, w1)
               else case collect_loop K tty cmds w1 of
                      (ok, cmds', w') \<Rightarrow> (ok, cmd\<lparr>heredoc_fd := fd\<rparr> # cmds', w')))"

definition collect_heredocs ::
  "kernel \<Rightarrow> pipeline_t \<Rightarrow> shell_state_t \<Rightarrow> world \<Rightarrow> bool \<times> pipeline_t \<times> world" where
  "collect_heredocs K p st w =
     (case collect_loop K (interactive st) (take (num_commands p) (commands p)) w of
        (ok, cmds, w') \<Rightarrow>
          (ok, p\<lparr>commands := cmds @ drop (num_commands p) (commands p)\<rparr>, w'))"

fun close_loop :: "command_t list \<Rightarrow> world \<Rightarrow> command_t list \<times> world" where
  "close_loop [] w = ([], w)"
| "close_loop (cmd # cmds) w =
     (let (cmd', w1) = (if heredoc_fd cmd \<ge> 0
                        then (cmd\<lparr>heredoc_fd := -1\<rparr>, sys_close (heredoc_fd cmd) w)
                        else (cmd, w));
          (cmds', w2) = close_loop cmds w1
      in (cmd' # cmds', w2))"

definition close_heredocs :: "pipeline_t \<Rightarrow> world \<Rightarrow> pipeline_t \<times> world" where
  "close_heredocs p w =
     (case close_loop (take (num_commands p) (commands p)) w of
        (cmds, w') \<Rightarrow> (p\<lparr>commands := cmds @ drop (num_commands p) (commands p)\<rparr>, w'))"

section \<open>What the loop keeps\<close>

text \<open>A relation of processes that each call of the loop keeps, the loop keeps.\<close>

lemma heredoc_loop_closed:
  assumes prompt: "\<And>w. R w (if tty then emit Flush (emit (Print ''> '') w) else w)"
    and read: "\<And>b w r w'. sys_getline b w = (r, w') \<Longrightarrow> R w w'"
    and stored: "\<And>bs w r w'. sys_write K fd bs w = (r, w') \<Longrightarrow> R w w'"
    and report: "\<And>s w. R w (emit (PrintErr s) w)"
    and trans: "\<And>a b c. R a b \<Longrightarrow> R b c \<Longrightarrow> R a c"
  shows "R w (heredoc_loop K delim tty fd w)"
proof (induction "length (w_stdin w)" arbitrary: w rule: less_induct)
  case less
  let ?w1 = "if tty then emit Flush (emit (Print ''> '') w) else w"
  obtain r w2 where g: "sys_getline (interrupts K ?w1) ?w1 = (r, w2)" by fastforce
  have r2: "R w w2" using trans [OF prompt read [OF g]] .
  show ?case
  proof (cases r)
    case None
    then show ?thesis using g r2 by (subst heredoc_loop.simps) simp
  next
    case (Some raw)
    obtain a w3 where w3: "sys_write K fd (chomp raw) w2 = (a, w3)" by fastforce
    obtain b w4 where w4: "sys_write K fd [NL] w3 = (b, w4)" by fastforce
    have r3: "R w w3" and r4: "R w w4"
      using trans [OF r2 stored [OF w3]] trans [OF _ stored [OF w4]] by blast+
    show ?thesis
    proof (cases "chomp raw = delim \<or> a \<noteq> None \<or> b \<noteq> None")
      case True
      then show ?thesis
        using g Some w3 w4 r2 trans [OF r3 report] trans [OF r4 report]
        by (subst heredoc_loop.simps) (cases "chomp raw = delim"; cases a; cases b; simp add: Let_def)
    next
      case False
      then have loop: "heredoc_loop K delim tty fd w = heredoc_loop K delim tty fd w4"
        using g Some w3 w4 by (subst heredoc_loop.simps) (simp add: Let_def)
      have "w_stdin ?w1 = w_stdin w" by simp
      then have "w_stdin w = raw # w_stdin w4"
        using sys_getline_stdin [OF g [unfolded Some, symmetric]] sys_write_stdin [OF w3 [symmetric]]
          sys_write_stdin [OF w4 [symmetric]] by simp
      then show ?thesis unfolding loop using trans [OF r4 less.hyps] by simp
    qed
  qed
qed

section \<open>What a body is\<close>

text \<open>
  The reference: the body is the lines before the first one equal to the delimiter, each ended
  by a newline; that line is consumed too.
\<close>

definition heredoc_body :: "string \<Rightarrow> string list \<Rightarrow> string" where
  "heredoc_body delim ls = concat (map (\<lambda>l. chomp l @ [NL]) (takeWhile (\<lambda>l. chomp l \<noteq> delim) ls))"

text \<open>What a file stores of a body when a write of a text takes its first \<open>took\<close> bytes only.\<close>

definition stored_body :: "(string \<Rightarrow> nat) \<Rightarrow> string \<Rightarrow> string list \<Rightarrow> string" where
  "stored_body took delim ls = concat (map (\<lambda>l. take (took (chomp l)) (chomp l) @ take (took [NL]) [NL])
     (takeWhile (\<lambda>l. chomp l \<noteq> delim) ls))"

lemma stored_body_full [simp]: "stored_body length = heredoc_body"
  by (intro ext) (simp add: stored_body_def heredoc_body_def)

definition heredoc_rest :: "string \<Rightarrow> string list \<Rightarrow> string list" where
  "heredoc_rest delim ls = drop 1 (dropWhile (\<lambda>l. chomp l \<noteq> delim) ls)"

lemma sys_write_ok:
  assumes "n < length (w_fds w)" "w_fds w ! n = Some (TempFile content (length content), c)"
    "k_write K (w_trace w) bytes = Inr k" "text = take k bytes"
  shows "sys_write K (int n) bytes w = (None, (emit (SysWrite bytes) w)\<lparr>w_fds := (w_fds w)[n :=
           Some (TempFile (content @ text) (length (content @ text)), c)]\<rparr>)"
  using assms by (simp add: sys_write_def valid_fd_def Let_def)

text \<open>Nothing on standard error.\<close>

fun silent :: "event \<Rightarrow> bool" where
  "silent (PrintErr s) = False"
| "silent e = True"

lemma heredoc_loop_body:
  assumes "\<And>tr t. k_write K tr t = Inr (took t)" "restarts w" "n < length (w_fds w)"
    "w_fds w ! n = Some (TempFile content (length content), c)"
  shows "w_fds (heredoc_loop K delim tty (int n) w) = (w_fds w)[n := Some (TempFile
            (content @ stored_body took delim (w_stdin w))
            (length (content @ stored_body took delim (w_stdin w))), c)] \<and>
         w_stdin (heredoc_loop K delim tty (int n) w) = heredoc_rest delim (w_stdin w) \<and>
         same_context w (heredoc_loop K delim tty (int n) w) \<and>
         trace_ext silent w (heredoc_loop K delim tty (int n) w)"
  using assms(2-4)
proof (induction "w_stdin w" arbitrary: w content)
  case Nil
  have "\<not> interrupts K (if tty then emit Flush (emit (Print ''> '') w) else w)"
    using Nil(2) by (intro restarts_read) (simp add: restarts_def)
  then show ?case using Nil
    by (subst (1 2 3 4) heredoc_loop.simps)
      (simp add: sys_getline_def stored_body_def heredoc_rest_def list_update_same_conv2 trace_ext_def)
next
  case (Cons raw ls)
  let ?w1 = "if tty then emit Flush (emit (Print ''> '') w) else w"
  let ?w2 = "(emit SysRead ?w1)\<lparr>w_stdin := ls\<rparr>"
  have "\<not> interrupts K ?w1" using Cons.prems(1) by (intro restarts_read) (simp add: restarts_def)
  then have get: "sys_getline (interrupts K ?w1) ?w1 = (Some raw, ?w2)"
    using Cons.hyps(2) [symmetric] by (auto simp: sys_getline_def Let_def)
  show ?case
  proof (cases "chomp raw = delim")
    case True
    then have "heredoc_loop K delim tty (int n) w = ?w2"
      by (subst heredoc_loop.simps) (simp only: Let_def get, simp)
    then show ?thesis
      using True Cons.prems Cons.hyps(2) [symmetric]
      by (simp add: stored_body_def heredoc_rest_def list_update_same_conv2 trace_ext_def)
  next
    case False
    let ?text = "content @ take (took (chomp raw)) (chomp raw)" and ?nl = "take (took [NL]) [NL]"
    let ?w3 = "(emit (SysWrite (chomp raw)) ?w2)\<lparr>w_fds := (w_fds w)[n :=
           Some (TempFile ?text (length ?text), c)]\<rparr>"
    let ?w4 = "(emit (SysWrite [NL]) ?w3)\<lparr>w_fds := (w_fds w)[n :=
           Some (TempFile (?text @ ?nl) (length (?text @ ?nl)), c)]\<rparr>"
    have w3: "sys_write K (int n) (chomp raw) ?w2 = (None, ?w3)"
      using sys_write_ok [of n ?w2 content c K "chomp raw"] Cons.prems assms(1) by simp
    have w4: "sys_write K (int n) [NL] ?w3 = (None, ?w4)"
      using sys_write_ok [of n ?w3 ?text c K "[NL]"] Cons.prems assms(1) by simp
    have loop: "heredoc_loop K delim tty (int n) w = heredoc_loop K delim tty (int n) ?w4"
      by (subst heredoc_loop.simps) (simp only: Let_def get w3 w4 False prod.case option.case if_False)
    have "ls = w_stdin ?w4" "restarts ?w4" "n < length (w_fds ?w4)"
      "w_fds ?w4 ! n = Some (TempFile (?text @ ?nl) (length (?text @ ?nl)), c)"
      using Cons.prems by (simp_all add: restarts_def)
    note IH = Cons.hyps(1) [OF this]
    have "trace_ext silent w ?w4" by (simp add: trace_ext_def)
    then have "trace_ext silent w (heredoc_loop K delim tty (int n) ?w4)"
      using IH trace_ext_trans by blast
    then show ?thesis
      unfolding loop using IH False Cons.prems Cons.hyps(2) [symmetric]
      by (simp add: stored_body_def heredoc_rest_def same_context_def)
  qed
qed

text \<open>Even when a write fails only that descriptor's file changes.\<close>

lemma sys_write_frame:
  assumes "sys_write K (int n) text w = (r, w')" "n < length (w_fds w)"
    "w_fds w ! n = Some (TempFile content offset, c)"
  shows "\<exists>content' offset'. w_fds w' = (w_fds w)[n := Some (TempFile content' offset', c)] \<and>
     w_fds w' ! n = Some (TempFile content' offset', c)"
    "same_context w w'"
  using assms by (auto simp: sys_write_def Let_def valid_fd_def list_update_same_conv2
      split: sum.splits option.splits)

definition only_file :: "nat \<Rightarrow> bool \<Rightarrow> world \<Rightarrow> world \<Rightarrow> bool" where
  "only_file n c w w' \<longleftrightarrow> same_context w w' \<and>
     (\<exists>content offset. w_fds w' = (w_fds w)[n := Some (TempFile content offset, c)])"

lemma only_file_emit [simp]: "only_file n c w (emit e w') = only_file n c w w'"
  by (simp add: only_file_def)

lemma only_file_refl:
  "n < length (w_fds w) \<Longrightarrow> w_fds w ! n = Some (TempFile content offset, c) \<Longrightarrow>
     same_context w w' \<Longrightarrow> w_fds w' = w_fds w \<Longrightarrow> only_file n c w w'"
  by (auto simp: only_file_def list_update_same_conv2)

lemma only_file_trans [trans]: "only_file n c a b \<Longrightarrow> only_file n c b d \<Longrightarrow> only_file n c a d"
  unfolding only_file_def by (metis same_context_trans list_update_overwrite)

lemma only_file_slot:
  "only_file n c w w' \<Longrightarrow> n < length (w_fds w) \<Longrightarrow>
     n < length (w_fds w') \<and> (\<exists>content offset. w_fds w' ! n = Some (TempFile content offset, c))"
  by (auto simp: only_file_def)

lemma heredoc_loop_frame:
  assumes "n < length (w_fds w)" "w_fds w ! n = Some (TempFile content offset, c)"
  shows "only_file n c w (heredoc_loop K delim tty (int n) w)"
proof -
  let ?slot = "\<lambda>w. n < length (w_fds w) \<and> (\<exists>content offset. w_fds w ! n = Some (TempFile content offset, c))"
  have "?slot w \<longrightarrow> only_file n c w (heredoc_loop K delim tty (int n) w)"
  proof (rule heredoc_loop_closed)
    show "?slot v \<longrightarrow> only_file n c v (if tty then emit Flush (emit (Print ''> '') v) else v)" for v
      using only_file_refl [of n v] by auto
    show "?slot v \<longrightarrow> only_file n c v v'" if "sys_getline b v = (r, v')" for b v r v'
      using that only_file_refl [of n v] by (auto simp: sys_getline_def Let_def split: list.splits if_splits)
    show "?slot v \<longrightarrow> only_file n c v v'" if "sys_write K (int n) bs v = (r, v')" for bs v r v'
      using sys_write_frame [OF that] by (fastforce simp: only_file_def)
    show "?slot v \<longrightarrow> only_file n c v (emit (PrintErr e) v)" for e v
      using only_file_refl [of n v] by auto
    show "?slot u \<longrightarrow> only_file n c u x"
      if "?slot u \<longrightarrow> only_file n c u v" "?slot v \<longrightarrow> only_file n c v x" for u v x
      using that only_file_slot only_file_trans by blast
  qed
  then show ?thesis using assms by blast
qed

lemma rewind_tempfile:
  "n < length (w_fds w) \<Longrightarrow> w_fds w ! n = Some (TempFile content offset, c) \<Longrightarrow>
     sys_rewind (int n) w = w\<lparr>w_fds := (w_fds w)[n := Some (TempFile content 0, c)]\<rparr>"
  by (simp add: sys_rewind_def valid_fd_def)

lemma mkstemp_Inr:
  assumes "sys_mkstemp K w = (Inr fd, w')"
  obtains n where "fd = int n" "n < length (w_fds w)" "w_fds w ! n = None"
    "w' = (emit SysMkstemp w)\<lparr>w_fds := (w_fds w)[n := Some (TempFile [] 0, False)]\<rparr>"
  using assms lowest_free_SomeD
  by (fastforce simp: sys_mkstemp_def Let_def split: option.splits)

lemma mkstemp_Inl: "sys_mkstemp K w = (Inl err, w') \<Longrightarrow> w' = emit SysMkstemp w"
  by (auto simp: sys_mkstemp_def Let_def split: option.splits)

text \<open>
  What collecting one body does to the descriptor table: a slot that was free holds a temporary
  file with close-on-exec, or nothing changed and the result is -1.
\<close>

lemma read_one_frame:
  assumes "read_one_heredoc K delim tty w = (fd, w')"
  shows "same_context w w'"
    "fd = -1 \<and> w_fds w' = w_fds w \<or>
     (\<exists>n content. fd = int n \<and> n < length (w_fds w) \<and> w_fds w ! n = None \<and>
        w_fds w' = (w_fds w)[n := Some (TempFile content 0, True)])"
proof -
  have "same_context w w' \<and> (fd = -1 \<and> w_fds w' = w_fds w \<or>
     (\<exists>n content. fd = int n \<and> n < length (w_fds w) \<and> w_fds w ! n = None \<and>
        w_fds w' = (w_fds w)[n := Some (TempFile content 0, True)]))"
  proof (cases "sys_mkstemp K w")
    case (Pair r w1)
    show ?thesis
    proof (cases r)
      case (Inl err)
      then show ?thesis using assms Pair mkstemp_Inl [OF Pair [unfolded Inl]]
        by (auto simp: read_one_heredoc_def)
    next
      case (Inr fd1)
      obtain n where n: "fd1 = int n" "n < length (w_fds w)" "w_fds w ! n = None"
        "w1 = (emit SysMkstemp w)\<lparr>w_fds := (w_fds w)[n := Some (TempFile [] 0, False)]\<rparr>"
        using mkstemp_Inr [OF Pair [unfolded Inr]] .
      let ?w2 = "sys_set_cloexec (int n) w1"
      have w2: "w_fds ?w2 = (w_fds w)[n := Some (TempFile [] 0, True)]" "same_context w ?w2"
        using n by (simp_all add: sys_set_cloexec_def valid_fd_def)
      have o: "only_file n True ?w2 (heredoc_loop K delim tty (int n) ?w2)"
        using heredoc_loop_frame [of n ?w2 "[]" 0 True] w2(1) n(2) by simp
      obtain content offset where "w_fds (heredoc_loop K delim tty (int n) ?w2) ! n =
          Some (TempFile content offset, True)" "n < length (w_fds (heredoc_loop K delim tty (int n) ?w2))"
        using only_file_slot [OF o] w2(1) n(2) by auto
      note rw = rewind_tempfile [OF this(2,1)]
      have "same_context w w'" "fd = int n"
        "w_fds w' = (w_fds w)[n := Some (TempFile content 0, True)]"
        using assms Pair Inr n(1) o w2 same_context_trans [OF w2(2)]
        by (auto simp: read_one_heredoc_def Let_def rw only_file_def)
      then show ?thesis using n by blast
    qed
  qed
  then show "same_context w w'" "fd = -1 \<and> w_fds w' = w_fds w \<or>
     (\<exists>n content. fd = int n \<and> n < length (w_fds w) \<and> w_fds w ! n = None \<and>
        w_fds w' = (w_fds w)[n := Some (TempFile content 0, True)])" by simp_all
qed

text \<open>With writes that do not fail, the file holds what they took of the body and is read from its start.\<close>

lemma read_one_stored:
  assumes "\<And>tr t. k_write K tr t = Inr (took t)" "restarts w"
    and "read_one_heredoc K delim tty w = (fd, w')" "0 \<le> fd"
  shows "w_fds w' ! nat fd = Some (TempFile (stored_body took delim (w_stdin w)) 0, True)"
    "w_stdin w' = heredoc_rest delim (w_stdin w)" "trace_ext silent w w'"
proof -
  obtain fd1 w1 where m: "sys_mkstemp K w = (Inr fd1, w1)"
    using assms(3,4) by (auto simp: read_one_heredoc_def split: prod.splits sum.splits)
  obtain n where n: "fd1 = int n" "n < length (w_fds w)" "w_fds w ! n = None"
    "w1 = (emit SysMkstemp w)\<lparr>w_fds := (w_fds w)[n := Some (TempFile [] 0, False)]\<rparr>"
    using mkstemp_Inr [OF m] .
  let ?w2 = "sys_set_cloexec (int n) w1"
  let ?w3 = "heredoc_loop K delim tty (int n) ?w2"
  have w2: "w_fds ?w2 = (w_fds w)[n := Some (TempFile [] 0, True)]" "w_stdin ?w2 = w_stdin w"
    "restarts ?w2"
    using n assms(2) by (simp_all add: sys_set_cloexec_def valid_fd_def restarts_def)
  have w3: "w_fds ?w3 = (w_fds w)[n := Some (TempFile (stored_body took delim (w_stdin w))
        (length (stored_body took delim (w_stdin w))), True)]"
    "w_stdin ?w3 = heredoc_rest delim (w_stdin w)" "trace_ext silent ?w2 ?w3"
    using heredoc_loop_body [of K took ?w2 n "[]" True delim tty, OF assms(1)] w2 n(2) by simp_all
  have "w' = sys_rewind (int n) ?w3" "fd = int n"
    using assms(3) m n(1) by (auto simp: read_one_heredoc_def Let_def)
  moreover have "sys_rewind (int n) ?w3 = ?w3\<lparr>w_fds := (w_fds ?w3)[n :=
      Some (TempFile (stored_body took delim (w_stdin w)) 0, True)]\<rparr>"
    using w3(1) n(2) by (intro rewind_tempfile) simp_all
  ultimately have w': "w_fds w' ! nat fd = Some (TempFile (stored_body took delim (w_stdin w)) 0, True)"
    "w_stdin w' = heredoc_rest delim (w_stdin w)" "w_trace w' = w_trace ?w3"
    using w3 n(2) by simp_all
  then show "w_fds w' ! nat fd = Some (TempFile (stored_body took delim (w_stdin w)) 0, True)"
    "w_stdin w' = heredoc_rest delim (w_stdin w)" by simp_all
  have "w_trace ?w2 = w_trace w @ [SysMkstemp]" using n(4) by (simp add: sys_set_cloexec_def)
  then have "trace_ext silent w ?w2" by (simp add: trace_ext_def)
  then show "trace_ext silent w w'" using trace_ext_trans [OF _ w3(3)] w'(3) by (simp add: trace_ext_def)
qed

lemmas read_one_body = read_one_stored [where took = length, unfolded stored_body_full]

section \<open>Collecting and closing\<close>

text \<open>
  The descriptors a pipeline holds. Collecting opens exactly those: they were free before, and
  every other slot is as it was. Closing frees exactly those.
\<close>

definition heredoc_fds :: "command_t list \<Rightarrow> int set" where
  "heredoc_fds cmds = {heredoc_fd c | c. c \<in> set cmds \<and> 0 \<le> heredoc_fd c}"

lemma heredoc_fds_simps [simp]:
  "heredoc_fds [] = {}"
  "heredoc_fds (c # cmds) = (if 0 \<le> heredoc_fd c then {heredoc_fd c} else {}) \<union> heredoc_fds cmds"
  by (auto simp: heredoc_fds_def)

definition opens :: "command_t list \<Rightarrow> world \<Rightarrow> world \<Rightarrow> bool" where
  "opens cmds w w' \<longleftrightarrow> same_context w w' \<and> length (w_fds w') = length (w_fds w) \<and>
     (\<forall>i < length (w_fds w). if int i \<in> heredoc_fds cmds then w_fds w ! i = None
                             else w_fds w' ! i = w_fds w ! i)"

lemma opens_first:
  assumes r: "read_one_heredoc K delim tty w = (fd, w1)" "\<not> fd < 0" and rest: "opens cmds w1 w'"
  shows "opens (cmd\<lparr>heredoc_fd := fd\<rparr> # cmds) w w'"
proof -
  note f = read_one_frame [OF r(1)]
  obtain n content where n: "fd = int n" "n < length (w_fds w)" "w_fds w ! n = None"
    "w_fds w1 = (w_fds w)[n := Some (TempFile content 0, True)]" using f(2) r(2) by auto
  have "same_context w w'" using f(1) rest same_context_trans by (auto simp: opens_def)
  moreover have "if int i \<in> heredoc_fds (cmd\<lparr>heredoc_fd := fd\<rparr> # cmds) then w_fds w ! i = None
      else w_fds w' ! i = w_fds w ! i" if "i < length (w_fds w)" for i
  proof -
    have "if int i \<in> heredoc_fds cmds then w_fds w1 ! i = None else w_fds w' ! i = w_fds w1 ! i"
      using rest that n(4) unfolding opens_def by (metis length_list_update)
    then show ?thesis using n that by (cases "i = n") (auto split: if_splits)
  qed
  ultimately show ?thesis using rest n by (simp add: opens_def)
qed

lemma collect_loop_opens:
  "\<forall>c \<in> set cmds. heredoc_fd c = -1 \<Longrightarrow> collect_loop K tty cmds w = (ok, cmds', w') \<Longrightarrow>
     opens cmds' w w' \<and> length cmds' = length cmds"
proof (induction cmds arbitrary: w ok cmds' w')
  case Nil
  then show ?case by (simp add: opens_def)
next
  case (Cons cmd cmds)
  have none: "heredoc_fds cmds = {}" "heredoc_fd cmd = -1"
    using Cons.prems(1) by (force simp: heredoc_fds_def)+
  show ?case
  proof (cases "heredoc_delim cmd")
    case None
    obtain ok2 cs2 w2 where "collect_loop K tty cmds w = (ok2, cs2, w2)" by (metis prod_cases3)
    then show ?thesis using Cons.IH Cons.prems None none(2) by (auto simp: opens_def)
  next
    case (Some delim)
    obtain fd w1 where r1: "read_one_heredoc K delim tty w = (fd, w1)" by fastforce
    obtain ok2 cs2 w2 where r: "collect_loop K tty cmds w1 = (ok2, cs2, w2)" by (metis prod_cases3)
    show ?thesis
    proof (cases "fd < 0")
      case True
      then have "w_fds w1 = w_fds w" "same_context w w1" using read_one_frame [OF r1] by auto
      then show ?thesis using Cons.prems(2) Some r1 True none by (auto simp: opens_def)
    next
      case False
      then have res: "cmds' = cmd\<lparr>heredoc_fd := fd\<rparr> # cs2" "w' = w2" using Cons.prems(2) Some r1 r by auto
      have IH: "opens cs2 w1 w2" "length cs2 = length cmds" using Cons.IH [OF _ r] Cons.prems(1) by auto
      show ?thesis using opens_first [OF r1 False IH(1)] IH(2) res by simp
    qed
  qed
qed

lemma collect_loop_fds:
  assumes "\<forall>c \<in> set cmds. heredoc_fd c = -1" "collect_loop K tty cmds w = (ok, cmds', w')"
  shows "same_context w w'" "length (w_fds w') = length (w_fds w)" "length cmds' = length cmds"
    "\<forall>i < length (w_fds w). if int i \<in> heredoc_fds cmds' then w_fds w ! i = None
                            else w_fds w' ! i = w_fds w ! i"
  using collect_loop_opens [OF assms] by (auto simp: opens_def)

lemma close_loop_fds:
  assumes "close_loop cmds w = (cmds', w')"
  shows "same_context w w' \<and> w_stdin w' = w_stdin w \<and> w_trace w' = w_trace w \<and>
    length (w_fds w') = length (w_fds w) \<and>
    (\<forall>c \<in> set cmds'. heredoc_fd c < 0) \<and> length cmds' = length cmds \<and>
    (\<forall>i < length (w_fds w). w_fds w' ! i = (if int i \<in> heredoc_fds cmds then None else w_fds w ! i))"
  using assms
proof (induction cmds arbitrary: w cmds' w')
  case (Cons cmd cmds)
  let ?w1 = "if heredoc_fd cmd \<ge> 0 then sys_close (heredoc_fd cmd) w else w"
  obtain cs2 w2 where r: "close_loop cmds ?w1 = (cs2, w2)" by fastforce
  have w1: "same_context w ?w1" by simp
  have "w' = w2" "cmds' = (if heredoc_fd cmd \<ge> 0 then cmd\<lparr>heredoc_fd := -1\<rparr> else cmd) # cs2"
    using Cons.prems r by (auto simp: Let_def split: if_splits)
  then show ?case
    using Cons.IH [OF r] same_context_trans [OF w1, of w2] by (auto simp: fd_close_at)
qed simp

lemma collect_facts:
  assumes "collect_heredocs K p st w = (ok, p1, w1)" "\<forall>c \<in> set (stages p). heredoc_fd c = -1"
  shows "num_commands p1 = num_commands p" "same_context w w1"
    "length (stages p1) = length (stages p)" "length (w_fds w1) = length (w_fds w)"
    "\<forall>i < length (w_fds w). if int i \<in> heredoc_fds (stages p1) then w_fds w ! i = None
                            else w_fds w1 ! i = w_fds w ! i"
proof -
  obtain cmds where c: "collect_loop K (interactive st) (stages p) w = (ok, cmds, w1)"
    and p1: "p1 = p\<lparr>commands := cmds @ drop (num_commands p) (commands p)\<rparr>"
    using assms(1) by (auto simp: collect_heredocs_def stages_def split: prod.splits)
  note f = collect_loop_fds [OF assms(2) c]
  have st: "stages p1 = cmds" unfolding p1 by (rule stages_update [OF f(3)])
  show "num_commands p1 = num_commands p" by (simp add: p1)
  show "same_context w w1" "length (stages p1) = length (stages p)"
    "length (w_fds w1) = length (w_fds w)"
    "\<forall>i < length (w_fds w). if int i \<in> heredoc_fds (stages p1) then w_fds w ! i = None
                            else w_fds w1 ! i = w_fds w ! i"
    using f st by simp_all
qed

lemma close_facts:
  assumes "w' = snd (close_heredocs p w)"
  shows "same_context w w'" "w_trace w' = w_trace w" "length (w_fds w') = length (w_fds w)"
    "\<forall>i < length (w_fds w). w_fds w' ! i =
       (if int i \<in> heredoc_fds (stages p) then None else w_fds w ! i)"
proof -
  obtain cmds w2 where c: "close_loop (stages p) w = (cmds, w2)" by fastforce
  then have "w' = w2" using assms by (simp add: close_heredocs_def stages_def)
  then show "same_context w w'" "w_trace w' = w_trace w" "length (w_fds w') = length (w_fds w)"
    "\<forall>i < length (w_fds w). w_fds w' ! i =
       (if int i \<in> heredoc_fds (stages p) then None else w_fds w ! i)"
    using close_loop_fds [OF c] by simp_all
qed


section \<open>The correctness of here-documents\<close>

text \<open>C12: when its writes take every byte, collecting a here-document gives a descriptor that was free, now
  open on a temporary file that holds exactly the input lines before the first one equal to the
  delimiter, each ended by a newline, with the offset at its start and closed on exec; those lines
  and the delimiter line are consumed from the input, and no other descriptor changes.\<close>

theorem heredoc_exact:
  assumes "\<And>tr t. k_write K tr t = Inr (length t)" "restarts w"
    and "read_one_heredoc K delim tty w = (fd, w')" "0 \<le> fd"
  shows "w_fds w ! nat fd = None \<and>
    w_fds w' = (w_fds w)[nat fd := Some (TempFile (heredoc_body delim (w_stdin w)) 0, True)] \<and>
    w_stdin w' = heredoc_rest delim (w_stdin w) \<and> same_context w w'"
proof -
  note b = read_one_body [OF assms] and f = read_one_frame [OF assms(3)]
  obtain n content where n: "fd = int n" "n < length (w_fds w)" "w_fds w ! n = None"
    "w_fds w' = (w_fds w)[n := Some (TempFile content 0, True)]" using f(2) assms(4) by auto
  then show ?thesis using b f(1) by simp
qed

theorem heredoc_exact_witness:
  "let r = read_one_heredoc sample_kernel ''EOF'' False
             (sample_world\<lparr>w_stdin := [''one'' @ [NL], ''two'' @ [NL], ''EOF'' @ [NL], ''ls'' @ [NL]]\<rparr>)
   in w_fds (snd r) ! 3 = Some (TempFile (''one'' @ [NL] @ ''two'' @ [NL]) 0, True) \<and>
      w_stdin (snd r) = [''ls'' @ [NL]]"
proof -
  let ?in = "[''one'' @ [NL], ''two'' @ [NL], ''EOF'' @ [NL], ''ls'' @ [NL]]"
  let ?w = "sample_world\<lparr>w_stdin := ?in\<rparr>"
  let ?r = "read_one_heredoc sample_kernel ''EOF'' False ?w"
  have "lowest_free (w_fds ?w) = Some 3" by code_simp
  then have fd: "fst ?r = 3"
    by (simp add: read_one_heredoc_def sys_mkstemp_def sample_kernel_def Let_def)
  have "heredoc_body ''EOF'' ?in = ''one'' @ [NL] @ ''two'' @ [NL]" "heredoc_rest ''EOF'' ?in = [''ls'' @ [NL]]"
    by code_simp+
  moreover have "length (w_fds ?w) = 8" "restarts ?w" by (simp_all add: sample_world_def restarts_def)
  ultimately show ?thesis
    using heredoc_exact [of sample_kernel ?w "''EOF''" False 3 "snd ?r"] fd
    by (simp add: sample_kernel_def Let_def prod_eq_iff)
qed



text \<open>Closing a pipeline's here-documents after collecting them, also after a failure in the
  middle, gives back exactly the descriptor table the shell had before, and leaves no command with
  a descriptor; environment, directory, signal state and terminal were never touched.\<close>

lemma heredocs_released:
  assumes "collect_heredocs K p st w = (ok, p1, w1)" "\<forall>c \<in> set (stages p). heredoc_fd c = -1"
    and "close_heredocs p1 w1 = (p2, w2)"
  shows "w_fds w2 = w_fds w \<and> same_context w w2 \<and> (\<forall>c \<in> set (stages p2). heredoc_fd c < 0)"
proof -
  note c = collect_facts [OF assms(1,2)] and e = close_facts [of w2 p1 w1]
  have w2: "w2 = snd (close_heredocs p1 w1)" using assms(3) by simp
  note e = e [OF w2]
  have "w_fds w2 = w_fds w"
  proof (rule nth_equalityI)
    show "length (w_fds w2) = length (w_fds w)" using c(4) e(3) by simp
    fix i assume "i < length (w_fds w2)"
    then have i: "i < length (w_fds w)" "i < length (w_fds w1)" using c(4) e(3) by simp_all
    then show "w_fds w2 ! i = w_fds w ! i"
      using c(5) [rule_format, OF i(1)] e(4) [rule_format, OF i(2)] by (auto split: if_splits)
  qed
  moreover have "\<forall>c \<in> set (stages p2). heredoc_fd c < 0"
  proof -
    obtain cmds where l: "close_loop (stages p1) w1 = (cmds, w2)"
      and p2: "p2 = p1\<lparr>commands := cmds @ drop (num_commands p1) (commands p1)\<rparr>"
      using assms(3) by (auto simp: close_heredocs_def stages_def split: prod.splits)
    have "stages p2 = cmds" unfolding p2 using close_loop_fds [OF l] by (intro stages_update) simp
    then show ?thesis using close_loop_fds [OF l] by simp
  qed
  ultimately show ?thesis using same_context_trans [OF c(2) e(1)] by simp
qed

end
