(* ===== verification/Repl.thy ===== *)
theory Repl
  imports Executor Expand Heredoc
begin

text \<open>
  The read-eval loop (main.c): one line from prompt to result, the loop over the lines of the
  input, and the whole program. SIGCHLD is delivered where the code can be interrupted with
  effect: at each \<open>unblock_sigchld\<close>, and while the shell waits for a line.
\<close>

section \<open>One line\<close>

definition PROMPT :: string where
  "PROMPT = ''mysh> ''"

text \<open>Notification and prompt.\<close>

definition show_prompt :: "kernel \<Rightarrow> shell_state_t \<Rightarrow> world \<Rightarrow> shell_state_t \<times> world" where
  "show_prompt K st w =
     (let (prev, w1) = block_sigchld w;
          (ls, t) = jobs_notify_completed (sh_jobs st);
          w2 = print_lines ls w1;
          (st1, w3) = unblock_sigchld K prev (st\<lparr>sh_jobs := t\<rparr>) w2
      in (st1, emit Flush (emit (Print PROMPT) w3)))"

text \<open>Execution of the expanded pipeline: in this process or by the executor.\<close>

definition run_pipeline ::
  "kernel \<Rightarrow> pipeline_t \<Rightarrow> shell_state_t \<Rightarrow> world \<Rightarrow> shell_state_t \<times> world" where
  "run_pipeline K p st w =
     (if num_commands p = 1 \<and> is_builtin (cmd_name (commands p ! 0))
      then (case run_builtin K (commands p ! 0) st w of
              (code, st1, w1) \<Rightarrow> (st1\<lparr>last_status := code\<rparr>, w1))
      else (case execute_pipeline K p st w of
              (code, children, st1, w1) \<Rightarrow> (st1\<lparr>last_status := code\<rparr>, w1)))"

definition expand_with :: "kernel \<Rightarrow> shell_state_t \<Rightarrow> world \<Rightarrow> pipeline_t \<Rightarrow> pipeline_t" where
  "expand_with K st w p =
     expand_pipeline (k_malloc K (w_trace w)) (k_glob K (w_trace w)) (w_env w) (last_status st) p"

text \<open>
  From the line to the end of the loop body. The flag tells whether the body ran to its end,
  where the exit flag is tested; a blank line and a syntax error continue before.
\<close>

definition run_line ::
  "kernel \<Rightarrow> string \<Rightarrow> shell_state_t \<Rightarrow> world \<Rightarrow> bool \<times> shell_state_t \<times> world" where
  "run_line K line st w =
     (let st1 = st\<lparr>sh_history := history_add (k_malloc K (w_trace w) (length line + 1))
                                   (sh_history st) (Some line)\<rparr>
      in case parse_pipeline line of
           Inl e \<Rightarrow> (False, st1, emit (PrintErr (parse_error_message e)) w)
         | Inr p \<Rightarrow>
             if num_commands p = 0 then (False, st1, w)
             else
               (case collect_heredocs K p st1 w of
                  (ok, p1, w1) \<Rightarrow>
                    let (p2, st2, w2) =
                          (if ok
                           then (let q = expand_with K st1 w1 p1;
                                     (st2, w2) = run_pipeline K q st1 w1
                                 in (free_expansions q, st2, w2))
                           else (p1, st1, w1))
                    in (True, st2, snd (close_heredocs p2 w2))))"

section \<open>Standard input only shrinks\<close>

lemma heredoc_loop_stdin:
  "length (w_stdin (heredoc_loop K delim tty fd w)) \<le> length (w_stdin w)"
proof (rule heredoc_loop_closed)
  show "length (w_stdin w') \<le> length (w_stdin w)" if "sys_getline b w = (r, w')" for b w r w'
    using that by (auto simp: sys_getline_def Let_def split: list.splits if_splits)
  show "length (w_stdin w') \<le> length (w_stdin w)" if "sys_write K fd bs w = (r, w')" for bs w r w'
    using sys_write_stdin [OF that [symmetric]] by simp
qed simp_all

lemma rewind_stdin: "w_stdin (sys_rewind fd w) = w_stdin w"
  by (auto simp: sys_rewind_def split: option.split ofile.split)

lemma read_one_stdin:
  assumes "read_one_heredoc K delim tty w = (fd, w')"
  shows "length (w_stdin w') \<le> length (w_stdin w)"
proof -
  obtain r w1 where m: "sys_mkstemp K w = (r, w1)" by fastforce
  then have s: "w_stdin w1 = w_stdin w"
    by (auto simp: sys_mkstemp_def Let_def split: option.splits)
  show ?thesis
  proof (cases r)
    case (Inl err)
    then show ?thesis using assms m s by (auto simp: read_one_heredoc_def)
  next
    case (Inr n)
    have "w_stdin (sys_set_cloexec n w1) = w_stdin w1" by (simp add: sys_set_cloexec_def)
    then show ?thesis
      using assms m Inr s heredoc_loop_stdin [of K delim tty n "sys_set_cloexec n w1"]
      by (auto simp: read_one_heredoc_def Let_def rewind_stdin)
  qed
qed

lemma collect_loop_stdin:
  "collect_loop K tty cmds w = (ok, cmds', w') \<Longrightarrow> length (w_stdin w') \<le> length (w_stdin w)"
proof (induction cmds arbitrary: w ok cmds' w')
  case (Cons cmd cmds)
  show ?case
  proof (cases "heredoc_delim cmd")
    case None
    then show ?thesis using Cons by (auto split: prod.splits)
  next
    case (Some delim)
    obtain fd w1 where r: "read_one_heredoc K delim tty w = (fd, w1)" by fastforce
    obtain ok2 cs2 w2 where c: "collect_loop K tty cmds w1 = (ok2, cs2, w2)" by (metis prod_cases3)
    show ?thesis
      using Cons.prems Some r c read_one_stdin [OF r] Cons.IH [OF c] by (auto split: if_splits)
  qed
qed simp

lemma collect_stdin:
  "collect_heredocs K p st w = (ok, p', w') \<Longrightarrow> length (w_stdin w') \<le> length (w_stdin w)"
  by (auto simp: collect_heredocs_def split: prod.splits dest: collect_loop_stdin)

lemma close_stdin: "w_stdin (snd (close_heredocs p w)) = w_stdin w"
proof -
  obtain cmds w' where "close_loop (take (num_commands p) (commands p)) w = (cmds, w')" by fastforce
  then show ?thesis using close_loop_fds by (fastforce simp: close_heredocs_def)
qed

lemma run_pipeline_cases:
  assumes "run_pipeline K p st w = (st', w')"
  obtains
    (builtin) code st1 where "num_commands p = 1" "is_builtin (cmd_name (commands p ! 0))"
      "run_builtin K (commands p ! 0) st w = (code, st1, w')" "st' = st1\<lparr>last_status := code\<rparr>"
  | (external) code children st1 where
      "\<not> (num_commands p = 1 \<and> is_builtin (cmd_name (commands p ! 0)))"
      "execute_pipeline K p st w = (code, children, st1, w')" "st' = st1\<lparr>last_status := code\<rparr>"
proof (cases "num_commands p = 1 \<and> is_builtin (cmd_name (commands p ! 0))")
  case True
  then show ?thesis using assms builtin by (auto simp: run_pipeline_def split: prod.splits)
next
  case False
  obtain code children st1 w1 where e: "execute_pipeline K p st w = (code, children, st1, w1)"
    by (metis prod_cases4)
  then have "st' = st1\<lparr>last_status := code\<rparr>" "w' = w1"
    using assms False by (auto simp: run_pipeline_def split: if_splits)
  then show ?thesis using external [OF False] e by simp
qed

lemma run_pipeline_stdin:
  assumes "run_pipeline K p st w = (st', w')" shows "w_stdin w' = w_stdin w"
  using assms
proof (cases rule: run_pipeline_cases)
  case (builtin code st1)
  then show ?thesis using run_builtin_calm [of st w K "commands p ! 0"] by (simp add: calm_def)
next
  case (external code children st1)
  then show ?thesis using execute_steady [OF external(2)] by (simp add: steady_def)
qed

text \<open>The paths through a line.\<close>

definition recorded :: "kernel \<Rightarrow> string \<Rightarrow> shell_state_t \<Rightarrow> world \<Rightarrow> shell_state_t" where
  "recorded K line st w = st\<lparr>sh_history :=
     history_add (k_malloc K (w_trace w) (length line + 1)) (sh_history st) (Some line)\<rparr>"

lemma run_line_cases:
  assumes "run_line K line st w = (go, st', w')"
  obtains
    (malformed) e where "parse_pipeline line = Inl e" "\<not> go" "st' = recorded K line st w"
      "w' = emit (PrintErr (parse_error_message e)) w"
  | (blank) p where "parse_pipeline line = Inr p" "num_commands p = 0" "\<not> go"
      "st' = recorded K line st w" "w' = w"
  | (no_file) p p1 w1 where "parse_pipeline line = Inr p" "num_commands p \<noteq> 0"
      "collect_heredocs K p (recorded K line st w) w = (False, p1, w1)" "go"
      "st' = recorded K line st w" "w' = snd (close_heredocs p1 w1)"
  | (ran) p p1 w1 w2 where "parse_pipeline line = Inr p" "num_commands p \<noteq> 0"
      "collect_heredocs K p (recorded K line st w) w = (True, p1, w1)" "go"
      "run_pipeline K (expand_with K (recorded K line st w) w1 p1) (recorded K line st w) w1 = (st', w2)"
      "w' = snd (close_heredocs (free_expansions (expand_with K (recorded K line st w) w1 p1)) w2)"
proof (cases "parse_pipeline line")
  case (Inl e)
  then have "\<not> go" "st' = recorded K line st w" "w' = emit (PrintErr (parse_error_message e)) w"
    using assms by (simp_all add: run_line_def recorded_def)
  then show ?thesis using malformed [OF Inl] by simp
next
  case (Inr p)
  let ?st1 = "recorded K line st w"
  have line: "run_line K line st w =
     (if num_commands p = 0 then (False, ?st1, w)
      else (case collect_heredocs K p ?st1 w of
              (ok, p1, w1) \<Rightarrow>
                let (p2, st2, w2) =
                      (if ok
                       then (let q = expand_with K ?st1 w1 p1;
                                 (st2, w2) = run_pipeline K q ?st1 w1
                             in (free_expansions q, st2, w2))
                       else (p1, ?st1, w1))
                in (True, st2, snd (close_heredocs p2 w2))))"
    using Inr by (simp only: run_line_def recorded_def Let_def sum.case)
  show ?thesis
  proof (cases "num_commands p = 0")
    case True
    then have "\<not> go" "st' = ?st1" "w' = w" using assms line by auto
    then show ?thesis using blank [OF Inr True] by simp
  next
    case False
    obtain ok p1 w1 where c: "collect_heredocs K p ?st1 w = (ok, p1, w1)" by (metis prod_cases3)
    obtain st2 w2 where r: "run_pipeline K (expand_with K ?st1 w1 p1) ?st1 w1 = (st2, w2)" by fastforce
    show ?thesis
    proof (cases ok)
      case True
      then have "go" "st' = st2"
        "w' = snd (close_heredocs (free_expansions (expand_with K ?st1 w1 p1)) w2)"
        using assms line False c r by (simp_all add: Let_def)
      then show ?thesis using ran [OF Inr False, of p1 w1 w2] c r True by simp
    next
      case no: False
      then have "go" "st' = ?st1" "w' = snd (close_heredocs p1 w1)"
        using assms line False c by (simp_all add: Let_def)
      then show ?thesis using no_file [OF Inr False] c no by simp
    qed
  qed
qed

lemma run_line_stdin:
  assumes "run_line K line st w = (go, st', w')"
  shows "length (w_stdin w') \<le> length (w_stdin w)"
  using assms
proof (cases rule: run_line_cases)
  case (no_file p p1 w1)
  then show ?thesis using collect_stdin [OF no_file(3)] by (simp add: close_stdin)
next
  case (ran p p1 w1 w2)
  then show ?thesis using collect_stdin [OF ran(3)] run_pipeline_stdin [OF ran(5)] by (simp add: close_stdin)
qed simp_all

section \<open>Descriptors across a line\<close>

text \<open>The steps before and after execution change the descriptors that the commands hold, no other field.\<close>

lemma expand_facts:
  "num_commands (expand_with K st w p) = num_commands p"
  "stages (expand_with K st w p) = map (expand_command (k_malloc K (w_trace w)) (k_glob K (w_trace w))
      (w_env w) (last_status st)) (stages p)"
  by (auto simp: expand_with_def expand_pipeline_def stages_def min_def)

lemma free_facts:
  "num_commands (free_expansions p) = num_commands p"
  "stages (free_expansions p) = map free_command (stages p)"
  by (auto simp: free_expansions_def stages_def min_def)

lemma heredoc_fds_map:
  "(\<And>c. heredoc_fd (f c) = heredoc_fd c) \<Longrightarrow> heredoc_fds (map f cmds) = heredoc_fds cmds"
  by (induction cmds) simp_all

lemma prepared_heredocs:
  "heredoc_fds (stages (expand_with K st w p)) = heredoc_fds (stages p)"
  "heredoc_fds (stages (free_expansions p)) = heredoc_fds (stages p)"
  by (simp_all add: expand_facts free_facts heredoc_fds_map expand_command_def free_command_def Let_def)

text \<open>
  The result of executing, whichever way: what \<open>steady\<close> says, but for the fields of the state
  that a command sets.
\<close>

definition sound_step :: "shell_state_t \<times> world \<Rightarrow> shell_state_t \<times> world \<Rightarrow> bool" where
  "sound_step a b \<longleftrightarrow> (case a of (st, w) \<Rightarrow> case b of (st', w') \<Rightarrow>
     same_session st st' \<and> (shell_inv st \<longrightarrow> shell_inv st') \<and> w_mask w' = w_mask w \<and>
     w_disp w' = w_disp w \<and> (owns_tty st w \<longrightarrow> owns_tty st' w') \<and>
     length (w_fds w') = length (w_fds w) \<and>
     (\<forall>i < length (w_fds w). w_fds w ! i \<noteq> None \<longrightarrow> w_fds w' ! i = w_fds w ! i))"

lemma run_pipeline_sound:
  assumes "run_pipeline K p st w = (st', w')"
  shows "sound_step (st, w) (st', w')"
  using assms
proof (cases rule: run_pipeline_cases)
  case (builtin code st1)
  then show ?thesis
    using run_builtin_calm [of st w K "commands p ! 0"] run_builtin_owns [OF _ builtin(3)]
    by (simp add: sound_step_def calm_def)
next
  case (external code children st1)
  then show ?thesis
    using execute_steady [OF external(2)] by (simp add: sound_step_def steady_def only_jobs_def)
qed

lemma run_pipeline_fds:
  assumes "run_pipeline K p st w = (st', w')" "std_open (w_fds w)" "stages p \<noteq> []" "last_status st' \<noteq> -1"
  shows "w_fds w' = w_fds w"
  using assms(1)
proof (cases rule: run_pipeline_cases)
  case (builtin code st1)
  then show ?thesis using run_builtin_calm [of st w K "commands p ! 0"] by (simp add: calm_def)
next
  case (external code children st1)
  then show ?thesis using execute_fds [OF external(2) assms(2,3)] assms(4) by simp
qed

lemma recorded_facts [simp]:
  "same_session (recorded K line st w) st' = (sh_history st' = sh_history (recorded K line st w) \<and>
     interactive st' = interactive st \<and> shell_terminal st' = shell_terminal st \<and> shell_pgid st' = shell_pgid st)"
  "shell_inv st \<Longrightarrow> shell_inv (recorded K line st w)"
  "owns_tty (recorded K line st w) w' = owns_tty st w'"
  "last_status (recorded K line st w) = last_status st"
  "should_exit (recorded K line st w) = should_exit st"
  "interactive (recorded K line st w) = interactive st"
  by (simp_all add: recorded_def same_session_def shell_inv_def history_add_inv)

lemma sound_slots:
  assumes "length t1 = length t" "length t2 = length t1" "length t3 = length t2"
    and "\<forall>i < length t. if int i \<in> H then t ! i = None else t1 ! i = t ! i"
    and "\<forall>i < length t1. t1 ! i \<noteq> None \<longrightarrow> t2 ! i = t1 ! i"
    and "\<forall>i < length t2. t3 ! i = (if int i \<in> H then None else t2 ! i)"
  shows "\<forall>i < length t. t ! i \<noteq> None \<longrightarrow> t3 ! i = t ! i" "t2 = t1 \<Longrightarrow> t3 = t"
proof -
  show "\<forall>i < length t. t ! i \<noteq> None \<longrightarrow> t3 ! i = t ! i"
  proof (intro allI impI)
    fix i assume i: "i < length t" "t ! i \<noteq> None"
    then have "int i \<notin> H" "t1 ! i = t ! i" using assms(4) by (metis)+
    then show "t3 ! i = t ! i" using assms i by simp
  qed
  show "t3 = t" if "t2 = t1"
  proof (rule nth_equalityI)
    show "length t3 = length t" using assms by simp
    fix i assume "i < length t3"
    then show "t3 ! i = t ! i" using assms that by (metis)
  qed
qed

text \<open>A line keeps the shell ready for the next.\<close>

lemma run_line_sound:
  assumes "run_line K line st w = (go, st', w')"
  shows "sound_step (recorded K line st w, w) (st', w')"
  using assms
proof (cases rule: run_line_cases)
  case (malformed e)
  then show ?thesis by (simp add: sound_step_def del: append_Cons append_Nil)
next
  case (blank p)
  then show ?thesis by (simp add: sound_step_def)
next
  case (no_file p p1 w1)
  note c = collect_facts [OF no_file(3) parse_pipeline_heredoc [OF no_file(1)]]
    and e = close_facts [OF no_file(6)]
  have "\<forall>i < length (w_fds w). w_fds w ! i \<noteq> None \<longrightarrow> w_fds w' ! i = w_fds w ! i"
    by (rule sound_slots(1) [OF c(4) refl e(3) c(5) _ e(4)]) simp
  then show ?thesis
    using no_file(5) c(2,4) e(1,3) owns_tty_cong [of st st w w']
    by (simp add: sound_step_def same_context_def)
next
  case (ran p p1 w1 w2)
  let ?q = "expand_with K (recorded K line st w) w1 p1"
  note c = collect_facts [OF ran(3) parse_pipeline_heredoc [OF ran(1)]]
    and e = close_facts [OF ran(6), unfolded prepared_heredocs]
    and r = run_pipeline_sound [OF ran(5)]
  have r2: "length (w_fds w2) = length (w_fds w1)"
    "\<forall>i < length (w_fds w1). w_fds w1 ! i \<noteq> None \<longrightarrow> w_fds w2 ! i = w_fds w1 ! i"
    using r by (simp_all add: sound_step_def)
  have "\<forall>i < length (w_fds w). w_fds w ! i \<noteq> None \<longrightarrow> w_fds w' ! i = w_fds w ! i"
    by (rule sound_slots(1) [OF c(4) r2(1) e(3) c(5) r2(2) e(4)])
  moreover have "owns_tty st w1 = owns_tty st w" "owns_tty st' w' = owns_tty st' w2"
    using c(2) e(1) by (simp_all add: same_context_def owns_tty_def)
  ultimately show ?thesis
    using r c(2,4) e(1,3) by (simp add: sound_step_def same_context_def)
qed

lemma run_line_fds:
  assumes "run_line K line st w = (go, st', w')" "std_open (w_fds w)"
    "last_status st' \<noteq> -1"
  shows "w_fds w' = w_fds w"
  using assms(1)
proof (cases rule: run_line_cases)
  case (no_file p p1 w1)
  note c = collect_facts [OF no_file(3) parse_pipeline_heredoc [OF no_file(1)]]
    and e = close_facts [OF no_file(6)]
  show ?thesis by (rule sound_slots(2) [OF c(4) refl e(3) c(5) _ e(4) refl]) simp
next
  case (ran p p1 w1 w2)
  let ?q = "expand_with K (recorded K line st w) w1 p1"
  note c = collect_facts [OF ran(3) parse_pipeline_heredoc [OF ran(1)]]
    and e = close_facts [OF ran(6), unfolded prepared_heredocs]
  have "stages p \<noteq> []"
    using ran(2) length_stages [OF parse_pipeline_facts(2) [OF ran(1)]] by auto
  then have "stages ?q \<noteq> []" using c(3) by (auto simp: expand_facts)
  moreover have "std_open (w_fds w1)"
    using assms(2) c(4,5) by (auto simp: std_open_def valid_fd_def split: if_splits)
  ultimately have "w_fds w2 = w_fds w1" using run_pipeline_fds [OF ran(5)] assms(3) by simp
  then show ?thesis using sound_slots(2) [OF c(4) _ e(3) c(5) _ e(4)] by simp
qed simp_all

section \<open>The loop and the program\<close>

function main_loop :: "kernel \<Rightarrow> shell_state_t \<Rightarrow> world \<Rightarrow> shell_state_t \<times> world" where
  "main_loop K st w =
     (let (st1, w1) = show_prompt K st w;
          (st2, w2) = deliver_sigchld K st1 w1
      in case sys_getline (interrupts K w1) w2 of
           (None, w3) \<Rightarrow> (st2, emit (Print [NL]) w3)
         | (Some raw, w3) \<Rightarrow>
             (case run_line K (cstr raw) st2 w3 of
                (go, st3, w4) \<Rightarrow>
                  if go \<and> should_exit st3 then (st3, w4) else main_loop K st3 w4))"
  by pat_completeness auto

lemma show_prompt_stdin: "(st', w') = show_prompt K st w \<Longrightarrow> w_stdin w' = w_stdin w"
  using unblock_frame(12) [OF prod.collapse [symmetric]]
  by (auto simp: show_prompt_def case_prod_beta Let_def)

lemma main_loop_shorter:
  assumes "(st1, w1) = show_prompt K st w" "(st2, w2) = deliver_sigchld K st1 w1"
    "(Some raw, w3) = sys_getline b w2" "(go, st3, w4) = run_line K line st2 w3"
  shows "length (w_stdin w4) < length (w_stdin w)"
  using sys_getline_stdin [OF assms(3)] run_line_stdin [OF assms(4) [symmetric]]
    show_prompt_stdin [OF assms(1)] deliver_frame(12) [OF assms(2) [symmetric]]
  by simp

termination main_loop
  by (relation "measure (\<lambda>(K, st, w). length (w_stdin w))") (auto intro: main_loop_shorter)

declare main_loop.simps [simp del]

text \<open>
  The program: its exit status is the last status; the state and process are those at its end.
\<close>

definition main :: "kernel \<Rightarrow> world \<Rightarrow> int \<times> shell_state_t \<times> world" where
  "main K w =
     (let (st1, w1) = install_signal_handlers K shell_init w;
          (st2, w2) = main_loop K st1 w1
      in (last_status st2, st2\<lparr>sh_history := history_free (sh_history st2)\<rparr>, w2))"

section \<open>The shell at its prompt\<close>

text \<open>
  What holds whenever the shell asks for a line: its state is well formed, the two standard
  descriptors are open, SIGCHLD is not masked and has its handler, the interactive signals are
  ignored, and the shell owns the terminal.
\<close>

definition shell_signals :: "world \<Rightarrow> bool" where
  "shell_signals w \<longleftrightarrow> SIGCHLD \<notin> w_mask w \<and> w_disp w SIGCHLD = SIG_HANDLER [SA_RESTART, SA_NOCLDSTOP] \<and>
     (\<forall>s \<in> {SIGINT, SIGQUIT, SIGTSTP, SIGTTIN, SIGTTOU}. w_disp w s = SIG_IGN)"

definition ready :: "shell_state_t \<times> world \<Rightarrow> bool" where
  "ready a \<longleftrightarrow> (case a of (st, w) \<Rightarrow>
     shell_inv st \<and> std_open (w_fds w) \<and> shell_signals w \<and> owns_tty st w)"

lemma ready_emit [simp]: "ready (st, emit e w) = ready (st, w)"
  by (simp add: ready_def shell_signals_def)

lemma sound_ready:
  assumes "sound_step a b" "ready a"
  shows "ready b"
proof -
  obtain st w st' w' where ab: "a = (st, w)" "b = (st', w')" by (cases a; cases b)
  have "std_open (w_fds w')"
    using assms unfolding ab by (auto simp: ready_def sound_step_def std_open_def valid_fd_def)
  then show ?thesis using assms unfolding ab by (simp add: ready_def sound_step_def shell_signals_def)
qed

lemma install_ready:
  assumes "std_open (w_fds w)" "SIGCHLD \<notin> w_mask w" "shell_inv st"
  shows "ready (install_signal_handlers K st w)"
  using assms
  by (simp add: install_signal_handlers_def ignore_signal_def Let_def ready_def shell_signals_def
      owns_tty_def)

lemma deliver_ready: "ready (st, w) \<Longrightarrow> ready (deliver_sigchld K st w)"
proof -
  assume r: "ready (st, w)"
  obtain st' w' where d: "deliver_sigchld K st w = (st', w')" by fastforce
  note f = deliver_frame [OF d]
  have "owns_tty st' w' = owns_tty st w" by (rule owns_tty_cong [OF f(1) f(11)])
  then show ?thesis using r f unfolding d by (simp add: ready_def shell_signals_def)
qed

lemma show_prompt_ready: "ready (st, w) \<Longrightarrow> ready (show_prompt K st w)"
proof -
  assume r: "ready (st, w)"
  let ?st1 = "st\<lparr>sh_jobs := snd (jobs_notify_completed (sh_jobs st))\<rparr>"
  let ?w2 = "print_lines (fst (jobs_notify_completed (sh_jobs st))) (snd (block_sigchld w))"
  have "ready (?st1, ?w2\<lparr>w_mask := w_mask w\<rparr>)"
    using r by (simp add: ready_def shell_inv_def jobs_notify_inv shell_signals_def owns_tty_def)
  from deliver_ready [OF this, of K] show ?thesis
    by (simp add: show_prompt_def Let_def case_prod_beta unblock_sigchld_def)
qed

lemma getline_ready: "ready (st, w) \<Longrightarrow> sys_getline b w = (r, w') \<Longrightarrow> ready (st, w')"
  by (auto simp: sys_getline_def Let_def ready_def shell_signals_def owns_tty_def split: list.splits if_splits)

lemma run_line_ready:
  assumes "ready (st, w)" "run_line K line st w = (go, st', w')"
  shows "ready (st', w')"
proof -
  have "ready (recorded K line st w, w)" using assms(1) by (simp add: ready_def)
  then show ?thesis by (rule sound_ready [OF run_line_sound [OF assms(2)]])
qed

text \<open>The loop, by its three ways to go on.\<close>

lemma main_loop_cases:
  obtains
    (eof) st1 w1 st2 w2 w3 where "show_prompt K st w = (st1, w1)" "deliver_sigchld K st1 w1 = (st2, w2)"
      "sys_getline (interrupts K w1) w2 = (None, w3)" "main_loop K st w = (st2, emit (Print [NL]) w3)"
  | (exit) st1 w1 st2 w2 w3 raw st3 w4 where
      "show_prompt K st w = (st1, w1)" "deliver_sigchld K st1 w1 = (st2, w2)"
      "sys_getline (interrupts K w1) w2 = (Some raw, w3)" "run_line K (cstr raw) st2 w3 = (True, st3, w4)" "should_exit st3"
      "main_loop K st w = (st3, w4)"
  | (again) st1 w1 st2 w2 w3 raw go st3 w4 where
      "show_prompt K st w = (st1, w1)" "deliver_sigchld K st1 w1 = (st2, w2)"
      "sys_getline (interrupts K w1) w2 = (Some raw, w3)" "run_line K (cstr raw) st2 w3 = (go, st3, w4)"
      "\<not> (go \<and> should_exit st3)" "main_loop K st w = main_loop K st3 w4"
      "length (w_stdin w4) < length (w_stdin w)"
proof -
  obtain st1 w1 where s: "show_prompt K st w = (st1, w1)" by fastforce
  obtain st2 w2 where d: "deliver_sigchld K st1 w1 = (st2, w2)" by fastforce
  obtain r w3 where g: "sys_getline (interrupts K w1) w2 = (r, w3)" by fastforce
  show ?thesis
  proof (cases r)
    case None
    then show ?thesis using eof [OF s d] g s d by (simp add: main_loop.simps [of K st w])
  next
    case (Some raw)
    obtain go st3 w4 where r: "run_line K (cstr raw) st2 w3 = (go, st3, w4)" by (metis prod_cases3)
    have loop: "main_loop K st w = (if go \<and> should_exit st3 then (st3, w4) else main_loop K st3 w4)"
      using s d g Some r by (simp add: main_loop.simps [of K st w])
    show ?thesis
    proof (cases "go \<and> should_exit st3")
      case True
      then show ?thesis using exit [OF s d] g Some r loop by simp
    next
      case False
      have "length (w_stdin w4) < length (w_stdin w)"
        using main_loop_shorter [OF s [symmetric] d [symmetric], of raw w3 "interrupts K w1" go st3 w4 "cstr raw"] g Some r
        by simp
      then show ?thesis using again [OF s d, of raw w3 go st3 w4] g Some r loop False by simp
    qed
  qed
qed

text \<open>
  What every step of the loop keeps, a session keeps: the notification and the prompt, after which
  the shell asks for a line, the handler, a line that is read and run, and the end of the input.
\<close>

locale session =
  fixes K :: kernel
    and inv asks :: "shell_state_t \<times> world \<Rightarrow> bool"
  assumes prompt: "inv (st, w) \<Longrightarrow> asks (show_prompt K st w)"
    and signal: "asks (st, w) \<Longrightarrow> asks (deliver_sigchld K st w)"
    and at_end: "asks (st, w) \<Longrightarrow> sys_getline b w = (None, w1) \<Longrightarrow> inv (st, emit (Print [NL]) w1)"
    and line: "asks (st, w) \<Longrightarrow> sys_getline b w = (Some raw, w1) \<Longrightarrow>
      run_line K (cstr raw) st w1 = (go, st', w') \<Longrightarrow> inv (st', w')"
begin

lemma before_line:
  assumes "inv (st, w)" "show_prompt K st w = (st1, w1)" "deliver_sigchld K st1 w1 = (st2, w2)"
  shows "asks (st2, w2)"
  using prompt [OF assms(1)] signal [of st1 w1] assms(2,3) by simp

lemma loop: "inv (st, w) \<Longrightarrow> inv (main_loop K st w)"
proof (induction "length (w_stdin w)" arbitrary: st w rule: less_induct)
  case less
  show ?case
  proof (cases rule: main_loop_cases [of K st w])
    case (eof st1 w1 st2 w2 w3)
    then show ?thesis using at_end [OF before_line [OF less.prems eof(1,2)]] by simp
  next
    case (exit st1 w1 st2 w2 w3 raw st3 w4)
    then show ?thesis using line [OF before_line [OF less.prems exit(1,2)]] by simp
  next
    case (again st1 w1 st2 w2 w3 raw go st3 w4)
    then show ?thesis
      using less.hyps [OF again(7) line [OF before_line [OF less.prems again(1,2)] again(3,4)]] by simp
  qed
qed

end

interpretation at_prompt: session K ready ready for K
proof unfold_locales
  show "ready (st, emit (Print [NL]) w1)" if "ready (st, w)" "sys_getline b w = (None, w1)" for st w b w1
    using getline_ready [OF that] by simp
  show "ready (st', w')" if "ready (st, w)" "sys_getline b w = (Some raw, w1)"
    "run_line K (cstr raw) st w1 = (go, st', w')" for st w b raw w1 go st' w'
    by (rule run_line_ready [OF getline_ready [OF that(1,2)] that(3)])
qed (fact show_prompt_ready deliver_ready)+

text \<open>The loop ends with the input or with the exit flag.\<close>

lemma show_prompt_disp: "show_prompt K st w = (st', w') \<Longrightarrow> w_disp w' = w_disp w"
  using unblock_frame(10) [OF prod.collapse [symmetric]]
  by (auto simp: show_prompt_def case_prod_beta Let_def)

lemma main_loop_end:
  "main_loop K st w = (st', w') \<Longrightarrow> restarts w \<Longrightarrow> w_stdin w' = [] \<or> should_exit st'"
proof (induction "length (w_stdin w)" arbitrary: st w rule: less_induct)
  case less
  show ?case
  proof (cases rule: main_loop_cases [of K st w])
    case (eof st1 w1 st2 w2 w3)
    have "restarts w1" using less.prems(2) show_prompt_disp [OF eof(1)] restarts_cong by blast
    then have "w_stdin w3 = []" using eof(3) by (auto simp: sys_getline_def Let_def split: list.splits)
    then show ?thesis using eof less.prems by auto
  next
    case (exit st1 w1 st2 w2 w3 raw st3 w4)
    then show ?thesis using less.prems by simp
  next
    case (again st1 w1 st2 w2 w3 raw go st3 w4)
    have "w_disp w4 = w_disp w3" using run_line_sound [OF again(4)] by (simp add: sound_step_def)
    also have "\<dots> = w_disp w2" using again(3) by (auto simp: sys_getline_def Let_def split: list.splits if_splits)
    also have "\<dots> = w_disp w" using deliver_frame(10) [OF again(2)] show_prompt_disp [OF again(1)] by simp
    finally have "restarts w4" using less.prems(2) restarts_cong by blast
    then show ?thesis using less.hyps [of w4 st3] again less.prems by simp
  qed
qed

section \<open>The correctness of the loop\<close>




text \<open>A line that is read is added to the history exactly once before anything else, whether it
  is blank, malformed, a built-in or a program, and nothing that it runs changes the history or
  the session's settings afterwards.\<close>

lemma line_recorded:
  assumes "run_line K line st w = (go, st', w')" "history_inv (sh_history st)"
    and "k_malloc K (w_trace w) (length line + 1)"
  shows "history_list (sh_history st') =
      last_n (nat HISTORY_CAPACITY) (history_list (sh_history st) @ history_keep line) \<and>
    interactive st' = interactive st \<and> shell_terminal st' = shell_terminal st \<and>
    shell_pgid st' = shell_pgid st"
proof -
  have "same_session (recorded K line st w) st'"
    using run_line_sound [OF assms(1)] by (simp add: sound_step_def)
  then have "sh_history st' = history_add True (sh_history st) (Some line)" "interactive st' = interactive st"
    "shell_terminal st' = shell_terminal st" "shell_pgid st' = shell_pgid st"
    using assms(3) by (simp_all add: recorded_def same_session_def)
  then show ?thesis using history_add_list [OF assms(2)] by simp
qed

text \<open>C25: unless its pipes or forks failed, a line leaves the shell with exactly the descriptors it
  had before, here-documents, pipes and redirections included.\<close>

theorem line_releases:
  assumes "run_line K line st w = (go, st', w')" "std_open (w_fds w)" "last_status st' \<noteq> -1"
  shows "w_fds w' = w_fds w"
  by (rule run_line_fds [OF assms])

theorem line_releases_witness:
  "w_fds (snd (snd (run_line sample_kernel ''cat <'' shell_init sample_world))) = w_fds sample_world"
proof -
  obtain go st' w' where r: "run_line sample_kernel ''cat <'' shell_init sample_world = (go, st', w')"
    by (metis prod_cases3)
  have "isl (parse_pipeline ''cat <'')" by code_simp
  then obtain e where "parse_pipeline ''cat <'' = Inl e" by (cases "parse_pipeline ''cat <''") auto
  with r have "last_status st' \<noteq> -1"
    by (cases rule: run_line_cases) (simp_all add: shell_init_def)
  moreover have "std_open (w_fds sample_world)" by (simp add: sample_world_def std_open_def valid_fd_def)
  ultimately show ?thesis using line_releases [OF r] r by simp
qed

end
