(* ===== verification/Interleave.thy ===== *)
theory Interleave
  imports Signals
begin

text \<open>
  The shell and its asynchronous SIGCHLD handler as two threads over one job table. The main
  thread is a list of actions, each a step the handler cannot split; the other steps are a
  child's death and a run of the handler, possible whenever SIGCHLD is not masked. The rest of
  the development runs the handler only where \<open>sigprocmask\<close> unmasks SIGCHLD; the theorem here is
  that nothing is lost by that: as long as the main thread touches the table only in its
  critical sections, every interleaving ends in a table that a run with the handler at the ends
  of those sections computes.
\<close>

section \<open>Actions and configurations\<close>

text \<open>
  The main thread masks and unmasks SIGCHLD, forks a child, waits for one, or changes the table.
  A change is any function, so a routine that writes field by field is a list of them.
\<close>

datatype action =
    Block
  | Unblock
  | Fork int
  | Wait int
  | Table "jobs_table_t \<Rightarrow> jobs_table_t"

text \<open>
  What is left of the main thread, the mask, the table, the children that run and those that
  have ended and that nobody has waited for.
\<close>

record conf =
  c_acts :: "action list"
  c_masked :: bool
  c_table :: jobs_table_t
  c_live :: "int set"
  c_dead :: "(int \<times> wstatus) list"

definition dead_pids :: "conf \<Rightarrow> int set" where
  "dead_pids c = fst ` set (c_dead c)"

definition start :: "action list \<Rightarrow> conf" where
  "start as = \<lparr>c_acts = as, c_masked = False, c_table = jobs_init, c_live = {}, c_dead = []\<rparr>"

text \<open>
  A new child gets a positive pid that no child, running or ended, has. A wait for a child
  returns once it has ended. The handler collects every child that has ended.
\<close>

inductive race_step :: "conf \<Rightarrow> conf \<Rightarrow> bool" where
  block: "c_acts c = Block # as \<Longrightarrow> race_step c (c\<lparr>c_acts := as, c_masked := True\<rparr>)"
| unblock: "c_acts c = Unblock # as \<Longrightarrow> race_step c (c\<lparr>c_acts := as, c_masked := False\<rparr>)"
| fork: "c_acts c = Fork p # as \<Longrightarrow> 0 < p \<Longrightarrow> p \<notin> c_live c \<union> dead_pids c \<Longrightarrow>
    race_step c (c\<lparr>c_acts := as, c_live := insert p (c_live c)\<rparr>)"
| wait: "c_acts c = Wait p # as \<Longrightarrow> p \<in> dead_pids c \<Longrightarrow>
    race_step c (c\<lparr>c_acts := as, c_dead := filter (\<lambda>d. fst d \<noteq> p) (c_dead c)\<rparr>)"
| table: "c_acts c = Table f # as \<Longrightarrow> race_step c (c\<lparr>c_acts := as, c_table := f (c_table c)\<rparr>)"
| ends: "p \<in> c_live c \<Longrightarrow>
    race_step c (c\<lparr>c_live := c_live c - {p}, c_dead := c_dead c @ [(p, status)]\<rparr>)"
| handler: "\<not> c_masked c \<Longrightarrow>
    race_step c (c\<lparr>c_table := reap_loop (c_dead c) (c_table c), c_dead := []\<rparr>)"

inductive_cases race_stepE: "race_step c d"

abbreviation race_steps :: "conf \<Rightarrow> conf \<Rightarrow> bool" where
  "race_steps \<equiv> race_step\<^sup>*\<^sup>*"

text \<open>The discipline: the table is touched, and children are made and waited for, while SIGCHLD is masked.\<close>

fun guarded :: "bool \<Rightarrow> action list \<Rightarrow> bool" where
  "guarded masked [] = (\<not> masked)"
| "guarded masked (Block # as) = (\<not> masked \<and> guarded True as)"
| "guarded masked (Unblock # as) = (masked \<and> guarded False as)"
| "guarded masked (a # as) = (masked \<and> guarded masked as)"

lemma guarded_append: "guarded m as \<Longrightarrow> guarded False bs \<Longrightarrow> guarded m (as @ bs)"
  by (induction m as rule: guarded.induct) auto

lemma guarded_concat: "(\<And>as. as \<in> set ass \<Longrightarrow> guarded False as) \<Longrightarrow> guarded False (concat ass)"
  by (induction ass) (simp_all add: guarded_append)

section \<open>Serial runs\<close>

text \<open>
  The table a thread computes when the handler runs only at its \<open>Unblock\<close> actions, on the given
  answers, one list for each.
\<close>

fun serial :: "action list \<Rightarrow> (int \<times> wstatus) list list \<Rightarrow> jobs_table_t \<Rightarrow> jobs_table_t" where
  "serial [] answers t = t"
| "serial (Unblock # as) (a # answers) t = serial as answers (reap_loop a t)"
| "serial (Table f # as) answers t = serial as answers (f t)"
| "serial (_ # as) answers t = serial as answers t"

text \<open>The handler's loop on the answers of two runs, when all of them are pids.\<close>

lemma reap_loop_append:
  "list_all (\<lambda>d. 0 < fst d) as \<Longrightarrow> reap_loop (as @ bs) t = reap_loop bs (reap_loop as t)"
  by (induction as t rule: reap_loop.induct) simp_all

definition pids_ok :: "conf \<Rightarrow> bool" where
  "pids_ok c \<longleftrightarrow> (\<forall>p \<in> c_live c. 0 < p) \<and> list_all (\<lambda>d. 0 < fst d) (c_dead c)"

lemma race_step_pids: "race_step c d \<Longrightarrow> pids_ok c \<Longrightarrow> pids_ok d"
  by (induction rule: race_step.induct) (auto simp: pids_ok_def list_all_iff)

lemma race_step_guarded:
  "race_step c d \<Longrightarrow> guarded (c_masked c) (c_acts c) \<Longrightarrow> guarded (c_masked d) (c_acts d)"
  by (induction rule: race_step.induct) auto

text \<open>
  One step, seen from its end: what the rest of the run computes serially from the new
  configuration, the whole computes serially from the old one.
\<close>

lemma race_step_serial:
  assumes "race_step c d" "pids_ok c" "guarded (c_masked c) (c_acts c)"
    and later: "T = serial (c_acts d) answers (reap_loop first (c_table d))"
      "list_all (\<lambda>x. 0 < fst x) first" "c_masked d \<longrightarrow> first = []"
  shows "\<exists>first answers. T = serial (c_acts c) answers (reap_loop first (c_table c)) \<and>
    list_all (\<lambda>x. 0 < fst x) first \<and> (c_masked c \<longrightarrow> first = [])"
  using assms(1)
proof (cases rule: race_step.cases)
  case (block as)
  then show ?thesis using later by (intro exI [of _ "[]"] exI [of _ answers]) simp
next
  case (unblock as)
  then show ?thesis using later by (intro exI [of _ "[]"] exI [of _ "first # answers"]) simp
next
  case (table f as)
  then show ?thesis using later assms(3) by (intro exI [of _ "[]"] exI [of _ answers]) simp
next
  case handler
  then have "T = serial (c_acts c) answers (reap_loop (c_dead c @ first) (c_table c))"
    using later assms(2) by (simp add: reap_loop_append pids_ok_def)
  then show ?thesis using handler later(2) assms(2)
    by (intro exI [of _ "c_dead c @ first"] exI [of _ answers]) (simp add: pids_ok_def)
qed (use later in auto)

lemma race_serial:
  assumes "race_steps c d" "c_acts d = []"
  shows "pids_ok c \<Longrightarrow> guarded (c_masked c) (c_acts c) \<Longrightarrow>
    \<exists>first answers. c_table d = serial (c_acts c) answers (reap_loop first (c_table c)) \<and>
      list_all (\<lambda>x. 0 < fst x) first \<and> (c_masked c \<longrightarrow> first = [])"
  using assms(1)
proof (induction rule: converse_rtranclp_induct)
  case base
  have "c_table d = serial (c_acts d) [] (reap_loop [] (c_table d))" using assms(2) by simp
  then show ?case by (intro exI [of _ "[]"]) auto
next
  case (step c e)
  obtain first answers where "c_table d = serial (c_acts e) answers (reap_loop first (c_table e))"
    "list_all (\<lambda>x. 0 < fst x) first" "c_masked e \<longrightarrow> first = []"
    using step.IH race_step_pids [OF step.hyps(1) step.prems(1)]
      race_step_guarded [OF step.hyps(1) step.prems(2)] by blast
  then show ?case using race_step_serial [OF step.hyps(1) step.prems] by blast
qed

end
