(* ===== verification/Tracking.thy ===== *)
theory Tracking
  imports Interleave
begin

text \<open>
  What the masking is for: the shell never loses the end of a background child. Over the
  interleavings of Interleave, a job that the table says is running belongs to a child that
  runs, or has ended and has not been waited for yet. The discipline is the code's: a child is
  forked, and recorded or waited for, inside one critical section. Two unprotected or unforeseen
  sequences that break it are run at the end.
\<close>

section \<open>The running jobs of a table\<close>

definition runs :: "job_t \<Rightarrow> bool" where
  "runs j \<longleftrightarrow> job_in_use j \<and> job_state j = JOB_RUNNING"

definition running_pids :: "jobs_table_t \<Rightarrow> int list" where
  "running_pids t = map job_pid (filter runs (jobs t))"

lemma update_split:
  "i < length xs \<Longrightarrow> xs = take i xs @ xs ! i # drop (Suc i) xs \<and> xs[i := y] = take i xs @ y # drop (Suc i) xs"
  by (simp add: id_take_nth_drop [symmetric] upd_conv_take_nth_drop)

lemma filter_absent: "p \<notin> set xs \<Longrightarrow> filter (\<lambda>q. q \<noteq> p) xs = xs"
  by (induction xs) auto

lemma mark_done_running:
  assumes "distinct (running_pids t)"
  shows "running_pids (jobs_mark_done t p s) = filter (\<lambda>q. q \<noteq> p) (running_pids t)"
proof (cases "first_index (\<lambda>j. job_in_use j \<and> job_pid j = p \<and> job_state j = JOB_RUNNING) (jobs t)")
  case None
  then have "p \<notin> set (running_pids t)" by (auto simp: running_pids_def runs_def)
  then have "filter (\<lambda>q. q \<noteq> p) (running_pids t) = running_pids t" by (auto intro: filter_True)
  then show ?thesis unfolding jobs_mark_done_def None by simp
next
  case (Some i)
  note f = first_index_SomeD [OF Some]
  define a b where "a = take i (jobs t)" and "b = drop (Suc i) (jobs t)"
  let ?j = "jobs t ! i"
  note sp = update_split [of i "jobs t", folded a_def b_def]
  have t: "running_pids t = map job_pid (filter runs a) @ p # map job_pid (filter runs b)"
    using f by (subst running_pids_def, subst conjunct1 [OF sp]) (simp_all add: runs_def)
  then have "filter (\<lambda>q. q \<noteq> p) (running_pids t) = map job_pid (filter runs a) @ map job_pid (filter runs b)"
    using assms by (simp add: filter_absent)
  then show ?thesis
    using f sp by (simp add: jobs_mark_done_def Some running_pids_def) (simp add: runs_def)
qed

lemma reap_loop_running:
  "distinct (running_pids t) \<Longrightarrow> list_all (\<lambda>d. 0 < fst d) answers \<Longrightarrow>
     running_pids (reap_loop answers t) = filter (\<lambda>q. q \<notin> fst ` set answers) (running_pids t)"
  by (induction answers t rule: reap_loop.induct) (auto simp: mark_done_running intro: filter_cong)

lemma jobs_add_running:
  "set (running_pids (snd (jobs_add t p l s))) \<subseteq> insert p (set (running_pids t))"
  "distinct (running_pids t) \<Longrightarrow> p \<notin> set (running_pids t) \<Longrightarrow>
     distinct (running_pids (snd (jobs_add t p l s)))"
proof -
  have "set (running_pids (snd (jobs_add t p l s))) \<subseteq> insert p (set (running_pids t)) \<and>
    (distinct (running_pids t) \<longrightarrow> p \<notin> set (running_pids t) \<longrightarrow>
     distinct (running_pids (snd (jobs_add t p l s))))"
  proof (cases "first_index (\<lambda>j. \<not> job_in_use j) (jobs t)")
    case None
    show ?thesis unfolding jobs_add_def None by auto
  next
    case (Some i)
    note f = first_index_SomeD [OF Some]
    define a b where "a = take i (jobs t)" and "b = drop (Suc i) (jobs t)"
    note sp = update_split [of i "jobs t", folded a_def b_def]
    have t: "running_pids t = map job_pid (filter runs a) @ map job_pid (filter runs b)"
      using f by (subst running_pids_def, subst conjunct1 [OF sp]) (simp_all add: runs_def)
    show ?thesis
      using f sp by (auto simp: jobs_add_def Some running_pids_def runs_def t [unfolded running_pids_def])
  qed
  then show "set (running_pids (snd (jobs_add t p l s))) \<subseteq> insert p (set (running_pids t))"
    "distinct (running_pids t) \<Longrightarrow> p \<notin> set (running_pids t) \<Longrightarrow>
     distinct (running_pids (snd (jobs_add t p l s)))" by blast+
qed

text \<open>Changes of the table that start no job.\<close>

definition quiet :: "(jobs_table_t \<Rightarrow> jobs_table_t) \<Rightarrow> bool" where
  "quiet f \<longleftrightarrow> (\<forall>t. set (running_pids (f t)) \<subseteq> set (running_pids t) \<and>
     (distinct (running_pids t) \<longrightarrow> distinct (running_pids (f t))))"

section \<open>The discipline\<close>

text \<open>
  The children forked in the current critical section and neither recorded nor waited for are
  carried along; SIGCHLD is not unmasked in the middle of a section.
\<close>

inductive tracked :: "bool \<Rightarrow> int set \<Rightarrow> action list \<Rightarrow> bool" where
  finish: "tracked False {} []"
| block: "tracked True {} as \<Longrightarrow> tracked False {} (Block # as)"
| unblock: "tracked False {} as \<Longrightarrow> tracked True ps (Unblock # as)"
| fork: "tracked True (insert p ps) as \<Longrightarrow> tracked True ps (Fork p # as)"
| wait: "p \<in> ps \<Longrightarrow> tracked True (ps - {p}) as \<Longrightarrow> tracked True ps (Wait p # as)"
| add: "p \<in> ps \<Longrightarrow> tracked True (ps - {p}) as \<Longrightarrow>
    tracked True ps (Table (\<lambda>t. snd (jobs_add t p l s)) # as)"
| quiet: "quiet f \<Longrightarrow> tracked True ps as \<Longrightarrow> tracked True ps (Table f # as)"

inductive_cases tracked_BlockE: "tracked m ps (Block # as)"
inductive_cases tracked_UnblockE: "tracked m ps (Unblock # as)"
inductive_cases tracked_ForkE: "tracked m ps (Fork p # as)"
inductive_cases tracked_WaitE: "tracked m ps (Wait p # as)"
inductive_cases tracked_TableE: "tracked m ps (Table f # as)"
inductive_cases tracked_unmaskedE: "tracked False ps as"

definition tracking_inv :: "conf \<Rightarrow> bool" where
  "tracking_inv c \<longleftrightarrow> pids_ok c \<and> distinct (running_pids (c_table c)) \<and>
     (\<exists>ps. tracked (c_masked c) ps (c_acts c) \<and>
        ps \<union> set (running_pids (c_table c)) \<subseteq> c_live c \<union> dead_pids c \<and>
        ps \<inter> set (running_pids (c_table c)) = {})"

lemma tracking_start: "tracked False {} as \<Longrightarrow> tracking_inv (start as)"
proof -
  have "running_pids jobs_init = []"
    by (simp add: running_pids_def jobs_init_def runs_def job_zero_def)
  then show "tracked False {} as \<Longrightarrow> tracking_inv (start as)"
    by (auto simp: tracking_inv_def start_def pids_ok_def)
qed

lemma tracking_invI:
  assumes "tracked (c_masked c) ps (c_acts c)" "ps \<union> set (running_pids (c_table c)) \<subseteq> c_live c \<union> dead_pids c"
    and "ps \<inter> set (running_pids (c_table c)) = {}" "distinct (running_pids (c_table c))" "pids_ok c"
  shows "tracking_inv c"
  using assms unfolding tracking_inv_def by blast

lemma tracking_invE:
  assumes "tracking_inv c"
  obtains ps where "tracked (c_masked c) ps (c_acts c)"
    "ps \<union> set (running_pids (c_table c)) \<subseteq> c_live c \<union> dead_pids c"
    "ps \<inter> set (running_pids (c_table c)) = {}" "distinct (running_pids (c_table c))" "pids_ok c"
  using assms unfolding tracking_inv_def by blast

text \<open>A table operation hands a tracked process over to the table, or adds none to it.\<close>

lemma tracked_table_step:
  assumes "tracked m ps (Table f # as)" "distinct (running_pids t)" "ps \<inter> set (running_pids t) = {}"
  obtains ps' where "tracked m ps' as" "distinct (running_pids (f t))"
    "ps' \<union> set (running_pids (f t)) \<subseteq> ps \<union> set (running_pids t)" "ps' \<inter> set (running_pids (f t)) = {}"
proof -
  from assms(1) consider
      (add) p l s where "f = (\<lambda>t. snd (jobs_add t p l s))" "p \<in> ps" "tracked m (ps - {p}) as"
    | (quiet) "quiet f" "tracked m ps as"
    by (auto elim: tracked_TableE)
  then show thesis
  proof cases
    case add
    then have "set (running_pids (f t)) \<subseteq> insert p (set (running_pids t))" "distinct (running_pids (f t))"
      using jobs_add_running [of t p l s] assms(2,3) by auto
    then show thesis using add(2,3) assms(3) by (intro that [of "ps - {p}"]) auto
  next
    case quiet
    then show thesis using assms(2,3) by (intro that [of ps]) (auto simp: quiet_def)
  qed
qed

lemma tracking_step:
  assumes "race_step c d" "tracking_inv c"
  shows "tracking_inv d"
proof -
  obtain ps where ps: "tracked (c_masked c) ps (c_acts c)"
    "ps \<union> set (running_pids (c_table c)) \<subseteq> c_live c \<union> dead_pids c"
    "ps \<inter> set (running_pids (c_table c)) = {}" and dist: "distinct (running_pids (c_table c))" and pos: "pids_ok c"
    using tracking_invE [OF assms(2)] .
  have ok: "pids_ok d" using race_step_pids [OF assms(1) pos] .
  show ?thesis using assms(1)
  proof (cases rule: race_step.cases)
    case (block as)
    then have "ps = {}" "tracked True {} as" using ps(1) by (auto elim: tracked_BlockE)
    then show ?thesis using block ps dist ok by (intro tracking_invI [of d ps]) (auto simp: dead_pids_def)
  next
    case (unblock as)
    then have "tracked False {} as" using ps(1) by (auto elim: tracked_UnblockE)
    then show ?thesis using unblock ps dist ok by (intro tracking_invI [of d "{}"]) (auto simp: dead_pids_def)
  next
    case (fork p as)
    then have "tracked True (insert p ps) as" "c_masked c" using ps(1) by (auto elim: tracked_ForkE)
    then show ?thesis using fork ps dist ok
      by (intro tracking_invI [of d "insert p ps"]) (auto simp: dead_pids_def)
  next
    case (wait p as)
    then have "p \<in> ps" "tracked True (ps - {p}) as" "c_masked c" using ps(1) by (auto elim: tracked_WaitE)
    moreover have "dead_pids d = dead_pids c - {p}" using wait(1) by (auto simp: dead_pids_def)
    ultimately show ?thesis using wait ps dist ok by (intro tracking_invI [of d "ps - {p}"]) auto
  next
    case (table f as)
    obtain ps' where "tracked (c_masked c) ps' as" "distinct (running_pids (f (c_table c)))"
      "ps' \<union> set (running_pids (f (c_table c))) \<subseteq> ps \<union> set (running_pids (c_table c))"
      "ps' \<inter> set (running_pids (f (c_table c))) = {}"
      using tracked_table_step [OF ps(1) [unfolded table(2)] dist ps(3)] .
    then show ?thesis using table(1) ps(2) ok
      by (intro tracking_invI [of d ps']) (auto simp: dead_pids_def)
  next
    case (ends p status)
    then show ?thesis using ps dist ok by (intro tracking_invI [of d ps]) (auto simp: dead_pids_def)
  next
    case handler
    have "ps = {}" using ps(1) handler(2) by (auto elim: tracked_unmaskedE)
    moreover have "running_pids (reap_loop (c_dead c) (c_table c)) =
        filter (\<lambda>q. q \<notin> dead_pids c) (running_pids (c_table c))"
      using reap_loop_running [OF dist] pos by (simp add: pids_ok_def dead_pids_def)
    ultimately show ?thesis using handler ps dist ok
      by (intro tracking_invI [of d "{}"]) (auto simp: dead_pids_def)
  qed
qed

lemma tracking_steps: "race_steps c d \<Longrightarrow> tracking_inv c \<Longrightarrow> tracking_inv d"
  by (induction rule: rtranclp_induct) (auto intro: tracking_step)

end
