(* ===== verification/Sections.thy ===== *)
theory Sections
  imports Repl Tracking
begin

text \<open>
  The critical sections of the shell, as the code has them between \<open>block_sigchld\<close> and
  \<open>unblock_sigchld\<close>, and the two ways to see a session: what the detailed model does to the job
  table is a serial run of these sections, and every interleaving of them with the handler is
  one. The last part states what the sections guarantee of the children, and where they fail.
\<close>

section \<open>The sections\<close>

text \<open>
  The loop of \<open>wait_foreground_group\<close>, as far as the table is concerned, and the re-marking of a
  stopped job by \<open>fg\<close> and \<open>bg\<close>.
\<close>

fun wait_table :: "(int \<times> wstatus) list \<Rightarrow> int \<Rightarrow> string \<Rightarrow> jobs_table_t \<Rightarrow> jobs_table_t" where
  "wait_table [] pgid label t = jobs_remove_by_pid t pgid"
| "wait_table ((p, status) # answers) pgid label t =
     (if p < 0 then jobs_remove_by_pid t pgid
      else if WIFSTOPPED status
      then (case jobs_find_by_pid t pgid of
              Some i \<Rightarrow> jobs_set_state t i JOB_STOPPED
            | None \<Rightarrow> snd (jobs_add t pgid label JOB_STOPPED))
      else wait_table answers pgid label t)"

definition resume :: "int \<Rightarrow> jobs_table_t \<Rightarrow> jobs_table_t" where
  "resume k t = (case jobs_find_by_id t k of
     None \<Rightarrow> t
   | Some i \<Rightarrow> if job_state (jobs t ! i) = JOB_STOPPED then jobs_set_state t i JOB_RUNNING else t)"

definition fg_wait :: "int \<Rightarrow> (int \<times> wstatus) list \<Rightarrow> jobs_table_t \<Rightarrow> jobs_table_t" where
  "fg_wait k answers t = (case jobs_find_by_id t k of
     None \<Rightarrow> t
   | Some i \<Rightarrow> wait_table answers (job_pid (jobs t ! i)) (job_command (jobs t ! i)) t)"

text \<open>The members that a wait collects: those that ended, before one that stopped.\<close>

fun collected :: "(int \<times> wstatus) list \<Rightarrow> int list" where
  "collected [] = []"
| "collected ((p, status) # answers) =
     (if p < 0 \<or> WIFSTOPPED status then [] else p # collected answers)"

datatype csection =
    Notify
  | Listing
  | Lookup
  | Failed "int list"
  | Background "int list" string
  | Foreground "int list" "(int \<times> wstatus) list" string
  | Fg int "(int \<times> wstatus) list"
  | Bg int

text \<open>At the prompt; in the built-ins \<open>jobs\<close>, \<open>kill\<close> and, where they find no job, \<open>fg\<close> and \<open>bg\<close>.\<close>

definition notify_section :: "action list" where
  "notify_section = [Block, Table (\<lambda>t. snd (jobs_notify_completed t)), Unblock]"

definition listing_section :: "action list" where
  "listing_section = [Block, Table jobs_clear_done, Unblock]"

definition lookup_section :: "action list" where
  "lookup_section = [Block, Unblock]"

text \<open>A pipeline that could not be forked entirely, one in the background, one in the foreground.\<close>

definition failed_section :: "int list \<Rightarrow> action list" where
  "failed_section pids = Block # map Fork pids @ [Unblock]"

definition background_section :: "int list \<Rightarrow> string \<Rightarrow> action list" where
  "background_section pids label =
     Block # map Fork pids @ [Table (\<lambda>t. snd (jobs_add t (hd pids) label JOB_RUNNING)), Unblock]"

definition foreground_section :: "int list \<Rightarrow> (int \<times> wstatus) list \<Rightarrow> string \<Rightarrow> action list" where
  "foreground_section pids answers label =
     Block # map Fork pids @ map Wait (collected answers) @
       [Table (wait_table answers (hd pids) label), Unblock]"

text \<open>A job brought to the foreground, and one continued in the background.\<close>

definition fg_section :: "int \<Rightarrow> (int \<times> wstatus) list \<Rightarrow> action list" where
  "fg_section k answers =
     [Block, Table (resume k)] @ map Wait (collected answers) @ [Table (fg_wait k answers), Unblock]"

definition bg_section :: "int \<Rightarrow> action list" where
  "bg_section k = [Block, Table (resume k), Unblock]"

lemmas section_defs = notify_section_def listing_section_def lookup_section_def failed_section_def
  background_section_def foreground_section_def fg_section_def bg_section_def

fun section_actions :: "csection \<Rightarrow> action list" where
  "section_actions Notify = notify_section"
| "section_actions Listing = listing_section"
| "section_actions Lookup = lookup_section"
| "section_actions (Failed pids) = failed_section pids"
| "section_actions (Background pids label) = background_section pids label"
| "section_actions (Foreground pids answers label) = foreground_section pids answers label"
| "section_actions (Fg k answers) = fg_section k answers"
| "section_actions (Bg k) = bg_section k"

abbreviation session :: "csection list \<Rightarrow> action list" where
  "session ss \<equiv> concat (map section_actions ss)"

lemma guarded_forks: "guarded True (map Fork ps @ as) = guarded True as"
  "guarded True (map Wait ps @ as) = guarded True as"
  by (induction ps) simp_all

lemma session_guarded: "guarded False (session ss)"
proof -
  have "guarded False (section_actions s)" for s by (cases s) (simp_all add: section_defs guarded_forks)
  then show ?thesis by (intro guarded_concat) auto
qed

section \<open>What a section does to the table\<close>

definition section_effect :: "csection \<Rightarrow> jobs_table_t \<Rightarrow> jobs_table_t" where
  "section_effect s t = (case s of
     Notify \<Rightarrow> snd (jobs_notify_completed t)
   | Listing \<Rightarrow> jobs_clear_done t
   | Lookup \<Rightarrow> t
   | Failed pids \<Rightarrow> t
   | Background pids label \<Rightarrow> snd (jobs_add t (hd pids) label JOB_RUNNING)
   | Foreground pids answers label \<Rightarrow> wait_table answers (hd pids) label t
   | Fg k answers \<Rightarrow> fg_wait k answers (resume k t)
   | Bg k \<Rightarrow> resume k t)"

lemma serial_forks:
  "serial (map Fork ps @ as) answers t = serial as answers t"
  "serial (map Wait ps @ as) answers t = serial as answers t"
  by (induction ps) simp_all

lemma serial_section:
  "serial (section_actions s @ as) (a # answers) t = serial as answers (reap_loop a (section_effect s t))"
  by (cases s) (simp_all add: section_defs section_effect_def serial_forks)

text \<open>Tables that a serial run leads to, one handler run for each section.\<close>

definition serially :: "jobs_table_t \<Rightarrow> jobs_table_t \<Rightarrow> bool" where
  "serially t t' \<longleftrightarrow> (\<exists>ss answers. length answers = length ss \<and> t' = serial (session ss) answers t)"

lemma serial_session_append:
  "length answers = length ss \<Longrightarrow>
     serial (session ss @ as) (answers @ bs) t = serial as bs (serial (session ss) answers t)"
proof (induction ss arbitrary: answers t)
  case (Cons s ss)
  then obtain a rest where "answers = a # rest" "length rest = length ss" by (cases answers) auto
  then show ?case using Cons.IH by (simp add: serial_section)
qed simp

lemma serially_refl [simp]: "serially t t"
  unfolding serially_def by (intro exI [of _ "[]"]) simp

lemma serially_trans: "serially t u \<Longrightarrow> serially u v \<Longrightarrow> serially t v"
  unfolding serially_def using serial_session_append by (metis length_append map_append concat_append)

lemma serially_section: "serially t (reap_loop a (section_effect s t))"
  unfolding serially_def using serial_section [of s "[]" a "[]" t]
  by (intro exI [of _ "[s]"] exI [of _ "[a]"]) simp

text \<open>A second delivery after a section is part of the first.\<close>

lemma reap_loop_more: "\<exists>a. reap_loop cs (reap_loop bs t) = reap_loop a t"
proof -
  have "reap_loop bs t = reap_loop (takeWhile (\<lambda>d. 0 < fst d) bs) t"
    by (induction bs t rule: reap_loop.induct) simp_all
  moreover have "list_all (\<lambda>d. 0 < fst d) (takeWhile (\<lambda>d. 0 < fst d) bs)"
    by (auto simp: list_all_iff dest: set_takeWhileD)
  ultimately show ?thesis using reap_loop_append by metis
qed

section \<open>The detailed model runs sections\<close>

lemma deliver_table: "\<exists>a. sh_jobs (fst (deliver_sigchld K st w)) = reap_loop a (sh_jobs st)"
proof (cases "SIGCHLD \<notin> w_mask w \<and> (case w_disp w SIGCHLD of SIG_HANDLER flags \<Rightarrow> True | _ \<Rightarrow> False)")
  case True
  then show ?thesis by (auto simp: deliver_sigchld_def sigchld_handler_def Let_def)
next
  case False
  then show ?thesis by (intro exI [of _ "[]"]) (auto simp: deliver_sigchld_def split: disposition.splits)
qed

text \<open>A section ends by unmasking, from the table it computed.\<close>

lemma unblock_section:
  assumes "unblock_sigchld K prev st1 w = (st', w')" "sh_jobs st1 = section_effect s t"
  shows "serially t (sh_jobs st')"
  using deliver_table [of K st1 "w\<lparr>w_mask := prev\<rparr>"] assms serially_section [of t _ s]
  by (auto simp: unblock_sigchld_def)

lemma show_prompt_serial:
  assumes "show_prompt K st w = (st1, w1)" "deliver_sigchld K st1 w1 = (st2, w2)"
  shows "serially (sh_jobs st) (sh_jobs st2)"
proof -
  let ?t = "section_effect Notify (sh_jobs st)"
  let ?w = "print_lines (fst (jobs_notify_completed (sh_jobs st))) (snd (block_sigchld w))"
  have "sh_jobs st1 = sh_jobs (fst (unblock_sigchld K (w_mask w) (st\<lparr>sh_jobs := ?t\<rparr>) ?w))"
    using assms(1) by (auto simp: show_prompt_def Let_def case_prod_beta section_effect_def)
  then obtain a where "sh_jobs st1 = reap_loop a ?t"
    using deliver_table [of K "st\<lparr>sh_jobs := ?t\<rparr>" "?w\<lparr>w_mask := w_mask w\<rparr>"]
    by (auto simp: unblock_sigchld_def)
  moreover obtain b where "sh_jobs st2 = reap_loop b (sh_jobs st1)"
    using deliver_table [of K st1 w1] assms(2) by auto
  ultimately show ?thesis using reap_loop_more [of b a ?t] serially_section [of "sh_jobs st" _ Notify] by auto
qed

lemma wait_loop_table:
  "wait_loop answers st pgid label code i w = (r, st', w') \<Longrightarrow>
     sh_jobs st' = wait_table answers pgid label (sh_jobs st)"
  by (induction answers st pgid label code i w rule: wait_loop.induct)
    (auto simp: wait_done_def wait_stopped_def Let_def case_prod_beta split: if_splits option.splits)

lemma wait_foreground_table:
  "wait_foreground_group K st pgid label w = (r, st', w') \<Longrightarrow>
     \<exists>answers. sh_jobs st' = wait_table answers pgid label (sh_jobs st)"
  unfolding wait_foreground_group_def using wait_loop_table by blast

lemma execute_serial:
  assumes "execute_pipeline K p st w = (r, children, st', w')"
  shows "serially (sh_jobs st) (sh_jobs st')"
  using assms
proof (cases rule: execute_cases)
  case (failed pids w2)
  then show ?thesis using unblock_section [OF failed(3), of "Failed pids"] by (simp add: section_effect_def)
next
  case (background pids w2 t k w3)
  then show ?thesis
    using unblock_section [OF background(5), of "Background pids (format_pipeline_label p JOB_CMD_LEN)"]
    by (simp add: section_effect_def)
next
  case (foreground pids w2 w3 st1 w4)
  obtain answers where
    "sh_jobs st1 = wait_table answers (hd pids) (format_pipeline_label p JOB_CMD_LEN) (sh_jobs st)"
    using wait_foreground_table [OF foreground(4)] by blast
  then show ?thesis
    using unblock_section [OF foreground(5), of "Foreground pids answers (format_pipeline_label p JOB_CMD_LEN)"]
    by (simp add: section_effect_def)
qed

text \<open>The built-ins that touch the table.\<close>

lemma find_by_id_lt: "jobs_find_by_id t k = Some i \<Longrightarrow> i < length (jobs t)"
  unfolding jobs_find_by_id_def by (rule first_index_lt)

lemma set_state_find: "jobs_find_by_id (jobs_set_state t i s) k = jobs_find_by_id t k"
  unfolding jobs_find_by_id_def jobs_set_state_def by (auto intro!: first_index_update)

lemma resume_found:
  assumes "jobs_find_by_id t k = Some i"
  shows "resume k t = (if job_state (jobs t ! i) = JOB_STOPPED then jobs_set_state t i JOB_RUNNING else t)"
    and "jobs_find_by_id (resume k t) k = Some i"
    and "job_pid (jobs (resume k t) ! i) = job_pid (jobs t ! i)"
    and "job_command (jobs (resume k t) ! i) = job_command (jobs t ! i)"
  using assms find_by_id_lt [OF assms]
  by (auto simp: resume_def set_state_find) (auto simp: jobs_set_state_def)

lemma fg_job_table:
  assumes "jobs_find_by_id (sh_jobs st) k = Some i" "fg_job K i st w = (code, st', w')"
  shows "\<exists>answers. sh_jobs st' = section_effect (Fg k answers) (sh_jobs st)"
proof -
  let ?t = "sh_jobs st" and ?job = "jobs (sh_jobs st) ! i"
  note r = resume_found [OF assms(1)]
  let ?w3 = "if interactive st then sys_tcsetpgrp (shell_terminal st) (job_pid ?job)
      (emit (Print (job_command ?job @ [NL])) w) else emit (Print (job_command ?job @ [NL])) w"
  let ?w4 = "if job_state ?job = JOB_STOPPED then snd (sys_kill K (- job_pid ?job) SIGCONT ?w3) else ?w3"
  obtain c st2 w5 where wait: "wait_foreground_group K (st\<lparr>sh_jobs := resume k ?t\<rparr>) (job_pid ?job)
      (job_command ?job) ?w4 = (c, st2, w5)" by (metis prod_cases3)
  have "st' = st2"
  proof (cases "job_state ?job = JOB_STOPPED")
    case True
    then show ?thesis using assms(2) wait r(1) by (simp add: fg_job_def Let_def)
  next
    case False
    then show ?thesis using assms(2) wait r(1) by (simp add: fg_job_def Let_def)
  qed
  moreover obtain answers where
    "sh_jobs st2 = wait_table answers (job_pid ?job) (job_command ?job) (resume k ?t)"
    using wait_foreground_table [OF wait] by auto
  ultimately have "sh_jobs st' = fg_wait k answers (resume k ?t)"
    using r by (simp add: fg_wait_def)
  then show ?thesis by (auto simp: section_effect_def)
qed

lemma builtin_fg_serial:
  assumes "builtin_fg K cmd st w = (code, st', w')"
  shows "serially (sh_jobs st) (sh_jobs st')"
proof (cases "parse_job_id (args cmd ! 1) < 0")
  case True
  then show ?thesis using assms by (auto simp: builtin_fg_def Let_def)
next
  case pos: False
  let ?k = "parse_job_id (args cmd ! 1)"
  show ?thesis
  proof (cases "jobs_find_by_id (sh_jobs st) ?k")
    case None
    obtain st1 w2 where u: "unblock_sigchld K (w_mask w) st (snd (block_sigchld w)) = (st1, w2)" by fastforce
    have "st' = st1" using assms pos None u by (simp add: builtin_fg_def Let_def case_prod_beta)
    then show ?thesis using unblock_section [OF u, of Lookup] by (simp add: section_effect_def)
  next
    case (Some i)
    obtain c st1 w2 where f: "fg_job K i st (snd (block_sigchld w)) = (c, st1, w2)" by (metis prod_cases3)
    obtain st2 w3 where u: "unblock_sigchld K (w_mask w) st1 w2 = (st2, w3)" by fastforce
    have "st' = st2" using assms pos Some f u by (simp add: builtin_fg_def Let_def case_prod_beta)
    then show ?thesis using fg_job_table [OF Some f] unblock_section [OF u] by blast
  qed
qed

lemma builtin_bg_serial:
  assumes "builtin_bg K cmd st w = (code, st', w')"
  shows "serially (sh_jobs st) (sh_jobs st')"
proof (cases "parse_job_id (args cmd ! 1) < 0")
  case True
  then show ?thesis using assms by (auto simp: builtin_bg_def Let_def)
next
  case pos: False
  let ?k = "parse_job_id (args cmd ! 1)"
  show ?thesis
  proof (cases "jobs_find_by_id (sh_jobs st) ?k")
    case None
    obtain st1 w2 where u: "unblock_sigchld K (w_mask w) st (snd (block_sigchld w)) = (st1, w2)" by fastforce
    have "st' = st1" using assms pos None u by (simp add: builtin_bg_def Let_def case_prod_beta)
    then show ?thesis using unblock_section [OF u, of Lookup] by (simp add: section_effect_def)
  next
    case (Some i)
    obtain st1 w2 where b: "bg_job K i st (snd (block_sigchld w)) = (st1, w2)" by fastforce
    obtain st2 w3 where u: "unblock_sigchld K (w_mask w) st1 w2 = (st2, w3)" by fastforce
    have "st' = st2" using assms pos Some b u by (simp add: builtin_bg_def Let_def case_prod_beta)
    moreover have "sh_jobs st1 = section_effect (Bg ?k) (sh_jobs st)"
      using b resume_found(1) [OF Some]
      by (auto simp: bg_job_def Let_def section_effect_def split: if_splits)
    ultimately show ?thesis using unblock_section [OF u] by blast
  qed
qed

lemma builtin_kill_serial:
  assumes "builtin_kill K cmd st w = (code, st', w')"
  shows "serially (sh_jobs st) (sh_jobs st')"
proof (cases "args cmd ! 1")
  case None
  then show ?thesis using assms by (auto simp: builtin_kill_def)
next
  case (Some s)
  have kt: "kill_target K t a v = (c, b, v') \<Longrightarrow> b = a" for t a v c b v'
    by (auto simp: kill_target_def split: prod.splits option.splits)
  show ?thesis
  proof (cases "s \<noteq> [] \<and> hd s = CHR ''%''")
    case True
    obtain st1 w2 where u: "unblock_sigchld K (w_mask w) st (snd (block_sigchld w)) = (st1, w2)" by fastforce
    have "st' = st1" using assms True Some u
      by (auto simp: builtin_kill_def Let_def case_prod_beta split: option.splits dest: kt)
    then show ?thesis using unblock_section [OF u, of Lookup] by (simp add: section_effect_def)
  next
    case False
    then show ?thesis using assms Some by (auto simp: builtin_kill_def dest!: kt)
  qed
qed

lemma builtin_jobs_serial:
  assumes "builtin_jobs K st w = (code, st', w')"
  shows "serially (sh_jobs st) (sh_jobs st')"
proof -
  let ?w = "print_lines (jobs_print (sh_jobs st)) (snd (block_sigchld w))"
  let ?st = "st\<lparr>sh_jobs := jobs_clear_done (sh_jobs st)\<rparr>"
  obtain st1 w1 where u: "unblock_sigchld K (w_mask w) ?st ?w = (st1, w1)" by fastforce
  have "st' = st1" using assms u by (simp add: builtin_jobs_def Let_def case_prod_beta)
  then show ?thesis using unblock_section [OF u, of Listing] by (simp add: section_effect_def)
qed

lemma run_builtin_serial:
  assumes "run_builtin K cmd st w = (code, st', w')"
  shows "serially (sh_jobs st) (sh_jobs st')"
  using assms builtin_fg_serial builtin_bg_serial builtin_kill_serial builtin_jobs_serial
  unfolding run_builtin_def
  by (auto simp: builtin_exit_def Let_def case_prod_beta prod_eq_iff split: if_splits option.splits)

lemma run_line_serial:
  assumes "run_line K line st w = (go, st', w')"
  shows "serially (sh_jobs st) (sh_jobs st')"
  using assms
proof (cases rule: run_line_cases)
  case (ran p p1 w1 w2)
  show ?thesis using ran(5)
  proof (cases rule: run_pipeline_cases)
    case (builtin code st1)
    then show ?thesis using run_builtin_serial [OF builtin(3)] by (simp add: recorded_def)
  next
    case (external code children st1)
    then show ?thesis using execute_serial [OF external(2)] by (simp add: recorded_def)
  qed
qed (simp_all add: recorded_def)

lemma main_loop_serial:
  "main_loop K st w = (st', w') \<Longrightarrow> serially (sh_jobs st) (sh_jobs st')"
proof (induction K st w arbitrary: st' w' rule: main_loop.induct)
  case (1 K st w)
  obtain st1 w1 where s: "show_prompt K st w = (st1, w1)" by fastforce
  obtain st2 w2 where d: "deliver_sigchld K st1 w1 = (st2, w2)" by fastforce
  note prompt = show_prompt_serial [OF s d]
  obtain r w3 where g: "sys_getline (interrupts K w1) w2 = (r, w3)" by fastforce
  show ?case
  proof (cases r)
    case None
    then show ?thesis using "1.prems" s d g prompt by (subst (asm) main_loop.simps) simp
  next
    case (Some raw)
    obtain go st3 w4 where l: "run_line K (cstr raw) st2 w3 = (go, st3, w4)" by (metis prod_cases3)
    have t: "serially (sh_jobs st) (sh_jobs st3)"
      using serially_trans [OF prompt run_line_serial [OF l]] .
    have "(st', w') = (if go \<and> should_exit st3 then (st3, w4) else main_loop K st3 w4)"
      using "1.prems" s d g l Some by (subst (asm) main_loop.simps) simp
    then show ?thesis
      using t serially_trans [OF t "1.IH" [OF s [symmetric] refl d [symmetric] refl g [symmetric] Some l [symmetric] refl]]
      by (auto split: if_splits dest: sym)
  qed
qed

section \<open>What the sections guarantee of the children\<close>

lemma notify_running: "running_pids (snd (jobs_notify_completed t)) = running_pids t"
proof -
  have "filter runs (snd (notify_loop js)) = filter runs js" for js
    by (induction js) (auto simp: Let_def case_prod_beta runs_def)
  then show ?thesis by (simp add: jobs_notify_completed_def running_pids_def Let_def case_prod_beta)
qed

lemma clear_running: "running_pids (jobs_clear_done t) = running_pids t"
proof -
  have "filter runs (clear_loop js) = filter runs js" for js
    by (induction js) (auto simp: runs_def)
  then show ?thesis by (simp add: jobs_clear_done_def running_pids_def)
qed

lemma quiet_remove: "quiet (\<lambda>t. jobs_remove_by_pid t p)"
  unfolding quiet_def
proof
  fix t
  show "set (running_pids (jobs_remove_by_pid t p)) \<subseteq> set (running_pids t) \<and>
    (distinct (running_pids t) \<longrightarrow> distinct (running_pids (jobs_remove_by_pid t p)))"
  proof (cases "jobs_find_by_pid t p")
    case None
    then show ?thesis by (simp add: jobs_remove_by_pid_def)
  next
    case (Some i)
    then have "i < length (jobs t)" unfolding jobs_find_by_pid_def by (rule first_index_lt)
    note sp = update_split [OF this, of "(jobs t ! i)\<lparr>job_in_use := False\<rparr>"]
    have "running_pids t = map job_pid (filter runs (take i (jobs t) @ jobs t ! i # drop (Suc i) (jobs t)))"
      unfolding running_pids_def using sp by simp
    moreover have "running_pids (jobs_remove_by_pid t p) =
        map job_pid (filter runs (take i (jobs t))) @ map job_pid (filter runs (drop (Suc i) (jobs t)))"
      unfolding running_pids_def using sp by (simp add: jobs_remove_by_pid_def Some jobs_free_slot_def) (simp add: runs_def)
    ultimately show ?thesis by auto
  qed
qed

lemma wait_table_ended: "ended answers \<Longrightarrow> wait_table answers pgid label = (\<lambda>t. jobs_remove_by_pid t pgid)"
  by (induction answers) (auto simp: ended_def fun_eq_iff)

lemma collected_ended: "ended answers \<Longrightarrow> collected answers = map fst answers"
  by (induction answers) (auto simp: ended_def)

lemma tracked_forks: "tracked True (set pids \<union> ps) as \<Longrightarrow> tracked True ps (map Fork pids @ as)"
proof (induction pids arbitrary: ps)
  case (Cons p pids)
  then show ?case using Cons.IH [of "insert p ps"] by (auto intro!: tracked.fork simp: Un_commute)
qed simp

lemma tracked_waits:
  "distinct ws \<Longrightarrow> set ws \<subseteq> ps \<Longrightarrow> tracked True (ps - set ws) as \<Longrightarrow> tracked True ps (map Wait ws @ as)"
proof (induction ws arbitrary: ps)
  case (Cons p ws)
  have "ps - {p} - set ws = ps - set (p # ws)" by auto
  then have "tracked True (ps - {p}) (map Wait ws @ as)" using Cons by (intro Cons.IH) auto
  then show ?case using Cons.prems(2) by (auto intro: tracked.wait)
qed simp

text \<open>
  The sections of a session without stopped jobs: every waited pipeline runs to its end, and a
  wait collects members of the group it forked.
\<close>

fun plain :: "csection \<Rightarrow> bool" where
  "plain (Background pids label) = (pids \<noteq> [])"
| "plain (Foreground pids answers label) =
     (ended answers \<and> distinct (map fst answers) \<and> fst ` set answers \<subseteq> set pids)"
| "plain (Fg k answers) = False"
| "plain (Bg k) = False"
| "plain _ = True"

lemma tracked_section:
  assumes "plain s" "tracked False {} as"
  shows "tracked False {} (section_actions s @ as)"
proof -
  have un: "tracked True ps (Unblock # as)" for ps using assms(2) by (rule tracked.unblock)
  note tab = tracked.quiet [OF _ un]
  show ?thesis
  proof (cases s)
    case (Background pids label)
    have "hd pids \<in> set pids" using assms(1) Background by simp
    then have "tracked True (set pids) (Table (\<lambda>t. snd (jobs_add t (hd pids) label JOB_RUNNING)) # Unblock # as)"
      using un by (rule tracked.add)
    then show ?thesis using Background tracked_forks [of pids "{}"] by (auto simp: section_defs intro: tracked.block)
  next
    case (Foreground pids answers label)
    then have e: "ended answers" "distinct (map fst answers)" "fst ` set answers \<subseteq> set pids"
      using assms(1) by simp_all
    have "tracked True (set pids - fst ` set answers) (Table (wait_table answers (hd pids) label) # Unblock # as)"
      using tab quiet_remove by (simp add: wait_table_ended [OF e(1)])
    then have "tracked True (set pids) (map Wait (collected answers) @
        Table (wait_table answers (hd pids) label) # Unblock # as)"
      using e by (intro tracked_waits) (simp_all add: collected_ended)
    then show ?thesis using Foreground tracked_forks [of pids "{}"] by (auto simp: section_defs intro: tracked.block)
  next
    case (Failed pids)
    then show ?thesis using un tracked_forks [of pids "{}"] by (auto simp: section_defs intro: tracked.block)
  qed (use assms(1) un tab in
      \<open>auto intro!: tracked.block tab simp: section_defs quiet_def notify_running clear_running\<close>)
qed

lemma tracked_session: "list_all plain ss \<Longrightarrow> tracked False {} (session ss)"
  by (induction ss) (auto intro: tracked.finish tracked_section)

text \<open>A run of the relation, from its front.\<close>

lemmas go = converse_rtranclp_into_rtranclp [where r = race_step]

lemma stopped_run:
  "race_steps \<lparr>c_acts = [Block, Fork 7, Fork 8, Wait 7, Table f, Unblock, Block, Table g, Unblock],
      c_masked = False, c_table = t, c_live = {}, c_dead = []\<rparr>
    \<lparr>c_acts = [], c_masked = False, c_table = reap_loop [(8, exit_word 0)] (g (f t)),
      c_live = {}, c_dead = []\<rparr>"
  apply (rule go [OF race_step.block], simp)
  apply (rule go [OF race_step.fork], simp, simp, simp add: dead_pids_def)
  apply (rule go [OF race_step.fork], simp, simp, simp add: dead_pids_def)
  apply (rule go [OF race_step.ends [where p = 7 and status = "exit_word 0"]], simp)
  apply (rule go [OF race_step.wait], simp, simp add: dead_pids_def)
  apply (rule go [OF race_step.table], simp)
  apply (rule go [OF race_step.unblock], simp)
  apply (rule go [OF race_step.block], simp)
  apply (rule go [OF race_step.table], simp)
  apply (rule go [OF race_step.unblock], simp)
  apply (rule go [OF race_step.ends [where p = 8 and status = "exit_word 0"]], simp)
  apply (rule go [OF race_step.handler], simp)
  apply (simp add: insert_Diff_if)
  done

definition stopped_session :: "csection list" where
  "stopped_session = [Foreground [7, 8] [(7, exit_word 0), (8, stop_word 20)] ''true | cat'', Bg 1]"

definition stopped_table :: jobs_table_t where
  "stopped_table = reap_loop [(8, exit_word 0)] (resume 1
     (wait_table [(7, exit_word 0), (8, stop_word 20)] 7 ''true | cat'' jobs_init))"

lemma stopped_reached:
  "race_steps (start (session stopped_session))
     \<lparr>c_acts = [], c_masked = False, c_table = stopped_table, c_live = {}, c_dead = []\<rparr>"
proof -
  let ?w = "wait_table [(7, exit_word 0), (8, stop_word 20)] 7 ''true | cat''"
  have "WIFSTOPPED (stop_word 20)" "\<not> WIFSTOPPED (exit_word 0)" by code_simp+
  then have "start (session stopped_session) =
      \<lparr>c_acts = [Block, Fork 7, Fork 8, Wait 7, Table ?w, Unblock, Block, Table (resume 1), Unblock],
       c_masked = False, c_table = jobs_init, c_live = {}, c_dead = []\<rparr>"
    by (simp add: start_def stopped_session_def section_defs del: wait_table.simps)
  then show ?thesis
    using stopped_run [of ?w "resume 1" jobs_init] unfolding stopped_table_def by simp
qed

lemma background_reached:
  "race_steps (start (session [Background [7] ''sleep 5'']))
     \<lparr>c_acts = [], c_masked = False, c_table = snd (jobs_add jobs_init 7 ''sleep 5'' JOB_RUNNING),
      c_live = {}, c_dead = [(7, exit_word 0)]\<rparr>"
  unfolding start_def
  apply (simp add: section_defs)
  apply (rule go [OF race_step.block], simp)
  apply (rule go [OF race_step.fork], simp, simp, simp add: dead_pids_def)
  apply (rule go [OF race_step.ends [where p = 7 and status = "exit_word 0"]], simp)
  apply (rule go [OF race_step.table], simp)
  apply (rule go [OF race_step.unblock], simp)
  apply simp
  done



text \<open>C7: the handler may run between any two steps of the shell's critical sections
  at which SIGCHLD is not masked, and children may end at any time; whatever the order, the table
  at the end is that of the serial run of the same sections, for some answers to the handler.\<close>

theorem interleavings_serial:
  assumes "race_steps c d" "c_acts c = session ss" "\<not> c_masked c" "pids_ok c" "c_acts d = []"
  shows "\<exists>first answers. c_table d = serial (session ss) answers (reap_loop first (c_table c))"
  using race_serial [OF assms(1,5,4)] assms(2,3) session_guarded by force

theorem interleavings_serial_witness:
  "\<exists>first answers. stopped_table = serial (session stopped_session) answers (reap_loop first jobs_init)"
  using interleavings_serial [OF stopped_reached] by (simp add: start_def pids_ok_def)

text \<open>C8: in a session whose foreground pipelines run to their end, at every point
  of every interleaving with the handler and the ends of the children, each job that the table
  shows as running has its first process running or ended and not yet collected, and no two have
  the same; so once all children are gone and collected, no job is shown as running.\<close>

theorem running_jobs_tracked:
  assumes "list_all plain ss" "race_steps (start (session ss)) c"
  shows "set (running_pids (c_table c)) \<subseteq> c_live c \<union> dead_pids c \<and>
    distinct (running_pids (c_table c)) \<and>
    (c_live c = {} \<and> c_dead c = [] \<longrightarrow> running_pids (c_table c) = [])"
proof -
  have "tracking_inv c"
    by (rule tracking_steps [OF assms(2) tracking_start [OF tracked_session [OF assms(1)]]])
  then show ?thesis by (auto simp: tracking_inv_def dead_pids_def)
qed

theorem running_jobs_tracked_witness:
  "\<exists>c. race_steps (start (session [Background [7] ''sleep 5''])) c \<and> running_pids (c_table c) = [7] \<and>
     set (running_pids (c_table c)) \<subseteq> c_live c \<union> dead_pids c"
proof -
  let ?t = "snd (jobs_add jobs_init 7 ''sleep 5'' JOB_RUNNING)"
  have "running_pids ?t = [7]" by code_simp
  then show ?thesis using background_reached
      running_jobs_tracked [of "[Background [7] ''sleep 5'']", OF _ background_reached] by force
qed


end
