(* ===== verification/Line_Buffer.thy ===== *)
theory Line_Buffer
  imports Parser
begin

text \<open>
  The line's buffer and the tokenizer that writes to it (parser.c): a pointer is an offset, a C
  string is what lies between it and the next NUL, and \<open>strtok_r\<close> overwrites the delimiter behind
  the token it returns. The lemmas say which strings such a write leaves alone.
\<close>

section \<open>The buffer\<close>

type_synonym buffer = "char list"

definition string_at :: "buffer \<Rightarrow> nat \<Rightarrow> string" where
  "string_at buf p = cstr (drop p buf)"

text \<open>Some bytes of a range that were not NUL have been overwritten.\<close>

definition writes_in :: "nat \<Rightarrow> nat \<Rightarrow> buffer \<Rightarrow> buffer \<Rightarrow> bool" where
  "writes_in lo hi buf buf' \<longleftrightarrow> length buf' = length buf \<and>
     (\<forall>i < length buf. buf' ! i \<noteq> buf ! i \<longrightarrow> lo \<le> i \<and> i < hi \<and> buf ! i \<noteq> NUL)"

lemma writes_in_refl [simp]: "writes_in lo hi buf buf"
  by (simp add: writes_in_def)

lemma writes_in_trans:
  "writes_in lo hi a b \<Longrightarrow> writes_in lo hi b c \<Longrightarrow> writes_in lo hi a c"
  unfolding writes_in_def by metis

lemma writes_in_mono:
  "writes_in lo hi a b \<Longrightarrow> lo' \<le> lo \<Longrightarrow> hi \<le> hi' \<Longrightarrow> writes_in lo' hi' a b"
  unfolding writes_in_def by (metis order.trans order.strict_trans2)

lemma string_at_length: "p \<le> length buf \<Longrightarrow> p + length (string_at buf p) \<le> length buf"
  using length_takeWhile_le [of "\<lambda>c. c \<noteq> NUL" "drop p buf"] by (simp add: string_at_def cstr_def)

text \<open>The string at a pointer, byte by byte.\<close>

lemma string_at_nth:
  assumes "i < length (string_at buf q)"
  shows "q + i < length buf" "buf ! (q + i) = string_at buf q ! i" "buf ! (q + i) \<noteq> NUL"
proof -
  have i: "i < length (takeWhile (\<lambda>c. c \<noteq> NUL) (drop q buf))" using assms by (simp add: string_at_def cstr_def)
  then have l: "i < length (drop q buf)" using length_takeWhile_le order.strict_trans2 by blast
  then show lt: "q + i < length buf" by simp
  show e: "buf ! (q + i) = string_at buf q ! i"
    using takeWhile_nth [OF i] lt by (simp add: string_at_def cstr_def)
  show "buf ! (q + i) \<noteq> NUL"
    unfolding e using nth_mem [OF assms] by (auto simp: string_at_def cstr_def dest: set_takeWhileD)
qed

lemma string_at_end: "q + length (string_at buf q) < length buf \<Longrightarrow> buf ! (q + length (string_at buf q)) = NUL"
  using nth_length_takeWhile [of "\<lambda>c. c \<noteq> NUL" "drop q buf"] by (simp add: string_at_def cstr_def)

lemma string_at_eqI:
  assumes "\<And>i. i < length t \<Longrightarrow> q + i < length buf \<and> buf ! (q + i) = t ! i \<and> t ! i \<noteq> NUL"
    and "q + length t < length buf \<Longrightarrow> buf ! (q + length t) = NUL"
  shows "string_at buf q = t"
proof -
  have "takeWhile (\<lambda>c. c \<noteq> NUL) (drop q buf) = take (length t) (drop q buf)"
  proof (rule takeWhile_eq_take_P_nth)
    show "drop q buf ! i \<noteq> NUL" if "i < length t" "i < length (drop q buf)" for i
      using that assms(1) [of i] by simp
    show "\<not> drop q buf ! length t \<noteq> NUL" if "length t < length (drop q buf)"
      using that assms(2) by simp
  qed
  also have "\<dots> = t"
  proof (rule nth_equalityI)
    have "t = [] \<or> q + (length t - 1) < length buf" using assms(1) [of "length t - 1"] by (cases t) auto
    then show "length (take (length t) (drop q buf)) = length t" by (cases t) auto
    show "take (length t) (drop q buf) ! i = t ! i" if "i < length (take (length t) (drop q buf))" for i
      using that assms(1) [of i] by simp
  qed
  finally show ?thesis by (simp add: string_at_def cstr_def)
qed

text \<open>A string that ends where the writes begin, or that begins where they end, stays.\<close>

lemma string_at_below:
  assumes "writes_in lo hi buf buf'" "q + length (string_at buf q) \<le> lo"
  shows "string_at buf' q = string_at buf q"
proof (rule string_at_eqI)
  have len: "length buf' = length buf" using assms(1) by (simp add: writes_in_def)
  show "q + i < length buf' \<and> buf' ! (q + i) = string_at buf q ! i \<and> string_at buf q ! i \<noteq> NUL"
    if i: "i < length (string_at buf q)" for i
  proof -
    have "buf' ! (q + i) = buf ! (q + i)"
      using assms i string_at_nth(1) [OF i] by (auto simp: writes_in_def)
    then show ?thesis using string_at_nth [OF i] len by simp
  qed
  show "buf' ! (q + length (string_at buf q)) = NUL" if "q + length (string_at buf q) < length buf'"
    using that string_at_end [of q buf] assms(1) len by (auto simp: writes_in_def)
qed

lemma string_at_above:
  assumes "writes_in lo hi buf buf'" "hi \<le> q"
  shows "string_at buf' q = string_at buf q"
proof -
  have "buf' ! (q + i) = buf ! (q + i)" if "i < length buf - q" for i
    using assms that unfolding writes_in_def by (metis add.commute le_add1 less_diff_conv order.strict_trans2 not_le)
  then have "drop q buf' = drop q buf"
    using assms(1) by (intro nth_equalityI) (auto simp: writes_in_def)
  then show ?thesis by (simp add: string_at_def)
qed

section \<open>strtok\_r on a buffer\<close>

text \<open>
  Called with the pointer to start from: \<open>strspn\<close> skips delimiters; at the NUL there is no
  token; otherwise \<open>strcspn\<close> finds the end, which is overwritten with a NUL unless it is one.
  The result is the token or NULL, the new save pointer, and the buffer.
\<close>

definition strtok_mem :: "string \<Rightarrow> nat \<Rightarrow> buffer \<Rightarrow> nat option \<times> nat \<times> buffer" where
  "strtok_mem delims p buf =
     (let s = string_at buf p;
          b = p + length (takeWhile (\<lambda>c. c \<in> set delims) s);
          t = string_at buf b;
          e = b + length (takeWhile (\<lambda>c. c \<notin> set delims) t)
      in if t = [] then (None, b, buf)
         else if string_at buf e = [] then (Some b, e, buf)
         else (Some b, e + 1, buf[e := NUL]))"

lemma string_at_add:
  assumes "k \<le> length (string_at buf p)"
  shows "string_at buf (p + k) = drop k (string_at buf p)"
  using assms
proof (induction k)
  case (Suc k)
  then have IH: "string_at buf (p + k) = drop k (string_at buf p)" "drop k (string_at buf p) \<noteq> []" by simp_all
  then obtain c r where c: "drop (p + k) buf = c # r" "c \<noteq> NUL"
    by (cases "drop (p + k) buf") (auto simp: string_at_def cstr_def split: if_splits)
  then have "drop (p + Suc k) buf = r" by (metis add_Suc_right drop_Suc tl_drop list.sel(3) add.commute)
  moreover have "drop (Suc k) (string_at buf p) = tl (string_at buf (p + k))"
    by (simp add: IH drop_Suc tl_drop)
  ultimately show ?case using c by (simp add: string_at_def cstr_def)
qed simp

lemma span_length: "length (takeWhile P xs) + length (dropWhile P xs) = length xs"
  by (metis length_append takeWhile_dropWhile_id)

text \<open>A NUL written over a byte of a string ends it there and leaves its rest behind the NUL.\<close>

lemma cut_string:
  assumes "m < length (string_at buf b)"
  shows "string_at (buf[b + m := NUL]) b = take m (string_at buf b)"
    "string_at (buf[b + m := NUL]) (b + m + 1) = drop (m + 1) (string_at buf b)"
    "writes_in (b + m) (b + m + 1) buf (buf[b + m := NUL])"
proof -
  note e = string_at_nth(1,3) [OF assms]
  show w: "writes_in (b + m) (b + m + 1) buf (buf[b + m := NUL])"
    using e by (auto simp: writes_in_def nth_list_update)
  show "string_at (buf[b + m := NUL]) b = take m (string_at buf b)"
  proof (rule string_at_eqI)
    show "b + i < length (buf[b + m := NUL]) \<and> buf[b + m := NUL] ! (b + i) = take m (string_at buf b) ! i \<and>
        take m (string_at buf b) ! i \<noteq> NUL" if "i < length (take m (string_at buf b))" for i
      using that string_at_nth [of i buf b] by auto
    show "buf[b + m := NUL] ! (b + length (take m (string_at buf b))) = NUL"
      using e assms by simp
  qed
  have "string_at (buf[b + m := NUL]) (b + (m + 1)) = string_at buf (b + (m + 1))"
    by (rule string_at_above [OF w]) simp
  also have "\<dots> = drop (m + 1) (string_at buf b)" using assms by (intro string_at_add) simp
  finally show "string_at (buf[b + m := NUL]) (b + m + 1) = drop (m + 1) (string_at buf b)" by simp
qed

text \<open>
  The three ways a call ends, against \<open>next_token\<close> on the string: only delimiters are left; the
  token ends with the string; the token is cut off from what follows it.
\<close>

lemma strtok_mem_cases:
  assumes "strtok_mem delims p buf = (t, q, buf')" "next_token delims (string_at buf p) = (tok, save)"
  obtains (no_token) "t = None" "tok = None" "save = []" "buf' = buf" "string_at buf q = []" "p \<le> q"
      "q = p + length (string_at buf p)"
    | (last_token) b where "t = Some b" "tok = Some (string_at buf b)" "save = []" "buf' = buf"
      "string_at buf q = []" "p \<le> b" "q = b + length (string_at buf b)" "q = p + length (string_at buf p)"
      "string_at buf b \<noteq> []"
    | (cut_token) b m where "t = Some b" "tok = Some (take m (string_at buf b))"
      "save = drop (m + 1) (string_at buf b)" "buf' = buf[b + m := NUL]" "q = b + m + 1" "p \<le> b"
      "b + length (string_at buf b) = p + length (string_at buf p)" "0 < m" "m < length (string_at buf b)"
proof -
  let ?D = "\<lambda>c. c \<in> set delims" and ?N = "\<lambda>c. c \<notin> set delims" and ?s = "string_at buf p"
  define b where "b = p + length (takeWhile ?D ?s)"
  define u where "u = dropWhile ?D ?s"
  define m where "m = length (takeWhile ?N u)"
  have u: "string_at buf b = u"
    unfolding b_def u_def string_at_add [OF length_takeWhile_le] by (simp add: dropWhile_eq_drop)
  have b: "p \<le> b" "b + length u = p + length ?s"
    unfolding b_def u_def using span_length [of ?D ?s] by simp_all
  have "m \<le> length (string_at buf b)" unfolding u m_def by (rule length_takeWhile_le)
  from string_at_add [OF this] have e: "string_at buf (b + m) = drop m u" unfolding u .
  have cut: "dropWhile ?N u = drop m u" "takeWhile ?N u = take m u"
    unfolding m_def by (simp_all add: dropWhile_eq_drop flip: takeWhile_eq_take)
  have mem: "(t, q, buf') = (if u = [] then (None, b, buf) else if drop m u = [] then (Some b, b + m, buf)
      else (Some b, b + m + 1, buf[b + m := NUL]))"
    unfolding assms(1) [symmetric] strtok_mem_def Let_def b_def [symmetric] u m_def [symmetric] e ..
  have tok: "(tok, save) = (if u = [] then (None, []) else (Some (take m u), drop 1 (drop m u)))"
    unfolding assms(2) [symmetric] by (simp add: next_token_def strtok_r_def Let_def u_def [symmetric] cut)
  show thesis
  proof (cases "u = []")
    case True
    then show thesis using no_token mem tok b u by simp
  next
    case ne: False
    then have "hd u \<notin> set delims" unfolding u_def by (rule hd_dropWhile)
    then have "0 < m" using ne unfolding m_def by (cases u) auto
    show thesis
    proof (cases "drop m u = []")
      case True
      moreover from True have "m = length u" unfolding m_def using length_takeWhile_le [of ?N u] by simp
      ultimately show thesis using last_token [of b] mem tok b u e ne by simp
    next
      case False
      then show thesis using cut_token [of b m] mem tok b ne u \<open>0 < m\<close> by simp
    qed
  qed
qed

lemma strtok_mem_spec:
  assumes "strtok_mem delims p buf = (t, q, buf')" "next_token delims (string_at buf p) = (tok, save)"
  shows "tok = map_option (string_at buf') t" "save = string_at buf' q"
    "writes_in p (p + length (string_at buf p)) buf buf'"
    "q + length (string_at buf' q) = p + length (string_at buf p)" "p \<le> q"
    "\<And>b. t = Some b \<Longrightarrow> p \<le> b \<and> b + length (string_at buf' b) \<le> q \<and> p < q \<and> q \<le> length buf"
proof -
  have in_buf: "p + length (string_at buf p) \<le> length buf" if "string_at buf b \<noteq> []" "p \<le> b" for b
  proof (rule string_at_length)
    show "p \<le> length buf" using string_at_nth(1) [of 0 buf b] that by simp
  qed
  have "tok = map_option (string_at buf') t \<and> save = string_at buf' q \<and>
    writes_in p (p + length (string_at buf p)) buf buf' \<and>
    q + length (string_at buf' q) = p + length (string_at buf p) \<and> p \<le> q \<and>
    (\<forall>b. t = Some b \<longrightarrow> p \<le> b \<and> b + length (string_at buf' b) \<le> q \<and> p < q \<and> q \<le> length buf)"
    using assms
  proof (cases rule: strtok_mem_cases)
    case no_token
    then show ?thesis by simp
  next
    case (last_token b)
    moreover have "0 < length (string_at buf b)" using last_token(9) by simp
    ultimately show ?thesis using in_buf [of b] by (simp del: length_greater_0_conv)
  next
    case (cut_token b m)
    note c = cut_string [OF cut_token(9), folded cut_token(4)]
    have "writes_in p (p + length (string_at buf p)) buf buf'"
      using writes_in_mono [OF c(3)] cut_token(6,7,9) by simp
    moreover have "p + length (string_at buf p) \<le> length buf"
      using in_buf [of b] cut_token(6,9) by fastforce
    ultimately show ?thesis using c(1,2) cut_token by simp
  qed
  then show "tok = map_option (string_at buf') t" "save = string_at buf' q"
    "writes_in p (p + length (string_at buf p)) buf buf'"
    "q + length (string_at buf' q) = p + length (string_at buf p)" "p \<le> q"
    "\<And>b. t = Some b \<Longrightarrow> p \<le> b \<and> b + length (string_at buf' b) \<le> q \<and> p < q \<and> q \<le> length buf"
    by blast+
qed

lemma strtok_mem_measure:
  assumes "(t, q, buf') = strtok_mem delims p buf"
  shows "length buf' - q + (if t = None then 0 else 1) \<le> length buf - p"
proof -
  obtain tok save where "next_token delims (string_at buf p) = (tok, save)" by fastforce
  note sp = strtok_mem_spec [OF assms [symmetric] this]
  have "length buf' = length buf" using sp(3) by (simp add: writes_in_def)
  then show ?thesis using sp(5,6) by (cases t) force+
qed

lemma strtok_mem_less:
  "length buf - p \<le> n \<Longrightarrow> (case strtok_mem delims p buf of (t, q, buf') \<Rightarrow>
     length buf' - q + (if t = None then 0 else 1)) < Suc n"
  using strtok_mem_measure [of "fst (strtok_mem delims p buf)" "fst (snd (strtok_mem delims p buf))"
      "snd (snd (strtok_mem delims p buf))" delims p buf]
  by (simp add: case_prod_beta)

end
