(* ===== verification/Inplace.thy ===== *)
theory Inplace
  imports Grammar Line_Buffer
begin

text \<open>
  The parser as it works on memory (parser.c): both tokenizers write NULs into the line's
  buffer, the inner one inside a segment the outer one is still in the middle of, and the
  command structs hold pointers into that buffer. A pointer is an offset. The theorem is that
  the pointers left in the structs, read when the whole line has been parsed, are the strings
  that Parser computes: no later write of either tokenizer reaches a token once it is taken.
\<close>

section \<open>Commands of pointers\<close>

record pcommand =
  p_args :: "nat option list"
  p_argc :: nat
  p_input :: "nat option"
  p_output :: "nat option"
  p_append :: bool
  p_background :: bool
  p_delim :: "nat option"
  p_heredoc_fd :: int

definition pcommand_zero :: pcommand where
  "pcommand_zero = \<lparr>p_args = replicate MAX_ARGS None, p_argc = 0, p_input = None, p_output = None,
     p_append = False, p_background = False, p_delim = None, p_heredoc_fd = 0\<rparr>"

definition p_add_arg :: "pcommand \<Rightarrow> nat \<Rightarrow> pcommand" where
  "p_add_arg cmd token = cmd\<lparr>p_args := (p_args cmd)[p_argc cmd := Some token], p_argc := p_argc cmd + 1\<rparr>"

text \<open>The loop of \<open>parse_command\<close>, with the buffer it writes to.\<close>

function p_parse_loop ::
  "pcommand \<Rightarrow> nat option \<Rightarrow> nat \<Rightarrow> buffer \<Rightarrow> (parse_error + pcommand) \<times> buffer" where
  "p_parse_loop cmd token save buf =
     (case token of
        None \<Rightarrow> (Inr cmd, buf)
      | Some tok \<Rightarrow>
        if \<not> p_argc cmd < MAX_ARGS - 1 then (Inr cmd, buf)
        else if string_at buf tok = ''&'' then
          (let (token', save', buf') = strtok_mem TOKEN_DELIMITERS save buf
           in p_parse_loop (cmd\<lparr>p_background := True\<rparr>) token' save' buf')
        else if string_at buf tok = ''<<'' then
          (case strtok_mem TOKEN_DELIMITERS save buf of
             (None, save1, buf1) \<Rightarrow> (Inl Expected_delimiter, buf1)
           | (Some delim, save1, buf1) \<Rightarrow>
             (let (token', save', buf') = strtok_mem TOKEN_DELIMITERS save1 buf1
              in p_parse_loop (cmd\<lparr>p_delim := Some delim\<rparr>) token' save' buf'))
        else if string_at buf tok = ''<'' \<or> string_at buf tok = ''>'' \<or> string_at buf tok = ''>>'' then
          (let is_input = (string_at buf tok = ''<''); is_append = (string_at buf tok = ''>>'')
           in case strtok_mem TOKEN_DELIMITERS save buf of
             (None, save1, buf1) \<Rightarrow> (Inl (Expected_filename (string_at buf1 tok)), buf1)
           | (Some filename, save1, buf1) \<Rightarrow>
             (let (token', save', buf') = strtok_mem TOKEN_DELIMITERS save1 buf1
              in p_parse_loop
                   (if is_input then cmd\<lparr>p_input := Some filename\<rparr>
                    else cmd\<lparr>p_output := Some filename, p_append := is_append\<rparr>)
                   token' save' buf'))
        else
          (let (token', save', buf') = strtok_mem TOKEN_DELIMITERS save buf
           in p_parse_loop (p_add_arg cmd tok) token' save' buf'))"
  by pat_completeness auto

termination p_parse_loop
  by (relation "measure (\<lambda>(cmd, token, save, buf). length buf - save + (if token = None then 0 else 1))")
    (auto simp: strtok_mem_less simp del: not_None_eq dest!: strtok_mem_measure intro!: strtok_mem_less)

declare p_parse_loop.simps [simp del]

definition p_parse_command :: "nat \<Rightarrow> buffer \<Rightarrow> (parse_error + pcommand) \<times> buffer" where
  "p_parse_command segment buf =
     (let (token, save, buf1) = strtok_mem TOKEN_DELIMITERS segment buf
      in case p_parse_loop (pcommand_zero\<lparr>p_heredoc_fd := -1\<rparr>) token save buf1 of
           (Inl e, buf') \<Rightarrow> (Inl e, buf')
         | (Inr cmd, buf') \<Rightarrow> (Inr (cmd\<lparr>p_args := (p_args cmd)[p_argc cmd := None]\<rparr>), buf'))"

section \<open>The pointers a command holds\<close>

definition pointers :: "pcommand \<Rightarrow> nat set" where
  "pointers cmd = Union (set_option ` set (p_args cmd)) \<union> set_option (p_input cmd) \<union>
     set_option (p_output cmd) \<union> set_option (p_delim cmd)"

text \<open>The command as its pointers read in a buffer.\<close>

definition read_command :: "buffer \<Rightarrow> pcommand \<Rightarrow> command_t" where
  "read_command buf cmd =
     \<lparr>args = map (map_option (string_at buf)) (p_args cmd), argc = p_argc cmd,
      input_file = map_option (string_at buf) (p_input cmd),
      output_file = map_option (string_at buf) (p_output cmd),
      append_mode = p_append cmd, cmd_background = p_background cmd,
      heredoc_delim = map_option (string_at buf) (p_delim cmd), heredoc_fd = p_heredoc_fd cmd\<rparr>"

lemma read_command_simps [simp]:
  "argc (read_command buf cmd) = p_argc cmd"
  "read_command buf (cmd\<lparr>p_background := b\<rparr>) = (read_command buf cmd)\<lparr>cmd_background := b\<rparr>"
  "read_command buf (cmd\<lparr>p_delim := Some q\<rparr>) = (read_command buf cmd)\<lparr>heredoc_delim := Some (string_at buf q)\<rparr>"
  "read_command buf (cmd\<lparr>p_input := Some q\<rparr>) = (read_command buf cmd)\<lparr>input_file := Some (string_at buf q)\<rparr>"
  "read_command buf (cmd\<lparr>p_output := Some q, p_append := b\<rparr>) =
     (read_command buf cmd)\<lparr>output_file := Some (string_at buf q), append_mode := b\<rparr>"
  "read_command buf (p_add_arg cmd q) = add_arg (read_command buf cmd) (string_at buf q)"
  "read_command buf (cmd\<lparr>p_args := (p_args cmd)[i := None]\<rparr>) =
     (read_command buf cmd)\<lparr>args := (args (read_command buf cmd))[i := None]\<rparr>"
  by (simp_all add: read_command_def p_add_arg_def add_arg_def map_update)

lemma read_command_zero: "read_command buf pcommand_zero = command_zero"
  by (simp add: read_command_def pcommand_zero_def command_zero_def)

lemma pointers_simps:
  "pointers pcommand_zero = {}"
  "pointers (cmd\<lparr>p_background := b\<rparr>) = pointers cmd"
  "pointers (cmd\<lparr>p_heredoc_fd := n\<rparr>) = pointers cmd"
  "pointers (cmd\<lparr>p_delim := Some q\<rparr>) \<subseteq> insert q (pointers cmd)"
  "pointers (cmd\<lparr>p_input := Some q\<rparr>) \<subseteq> insert q (pointers cmd)"
  "pointers (cmd\<lparr>p_output := Some q, p_append := b\<rparr>) \<subseteq> insert q (pointers cmd)"
  "pointers (p_add_arg cmd q) \<subseteq> insert q (pointers cmd)"
  "pointers (cmd\<lparr>p_args := (p_args cmd)[i := None]\<rparr>) \<subseteq> pointers cmd"
  by (auto simp: pointers_def pcommand_zero_def p_add_arg_def dest!: set_mp [OF set_update_subset_insert])

lemma read_command_cong:
  "(\<And>q. q \<in> pointers cmd \<Longrightarrow> string_at buf' q = string_at buf q) \<Longrightarrow> read_command buf' cmd = read_command buf cmd"
  by (auto simp: read_command_def pointers_def intro!: option.map_cong0)

text \<open>Pointers whose strings end before a limit; below it lies what is still to be tokenized.\<close>

definition settled :: "buffer \<Rightarrow> nat \<Rightarrow> nat set \<Rightarrow> bool" where
  "settled buf lim Q \<longleftrightarrow> (\<forall>q \<in> Q. q + length (string_at buf q) \<le> lim)"

lemma settled_simps [simp]:
  "settled buf lim {}" "settled buf lim (insert q Q) \<longleftrightarrow> q + length (string_at buf q) \<le> lim \<and> settled buf lim Q"
  "settled buf lim (A \<union> B) \<longleftrightarrow> settled buf lim A \<and> settled buf lim B"
  by (auto simp: settled_def)

lemma settled_mono: "settled buf lim Q \<Longrightarrow> lim \<le> lim' \<Longrightarrow> Q' \<subseteq> Q \<Longrightarrow> settled buf lim' Q'"
  by (fastforce simp: settled_def)

lemma settled_writes:
  assumes "settled buf lo Q" "writes_in lo hi buf buf'"
  shows "q \<in> Q \<Longrightarrow> string_at buf' q = string_at buf q" "settled buf' lo Q"
  using assms string_at_below [OF assms(2)] by (auto simp: settled_def)

text \<open>One call of the tokenizer, for a command whose pointers are settled before the save pointer.\<close>

lemma next_token_mem:
  assumes "strtok_mem d save buf = (t, save', buf')" "settled buf save (pointers cmd)"
  shows "next_token d (string_at buf save) = (map_option (string_at buf') t, string_at buf' save')"
    and "read_command buf' cmd = read_command buf cmd"
    and "settled buf' save' (pointers cmd)" "settled buf' save' (set_option t)"
    and "writes_in save (save + length (string_at buf save)) buf buf'"
    and "save' + length (string_at buf' save') = save + length (string_at buf save)" "save \<le> save'"
proof -
  obtain tok rest where n: "next_token d (string_at buf save) = (tok, rest)" by fastforce
  note sp = strtok_mem_spec [OF assms(1) n]
  show "next_token d (string_at buf save) = (map_option (string_at buf') t, string_at buf' save')"
    using n sp(1,2) by simp
  show "read_command buf' cmd = read_command buf cmd"
    using settled_writes(1) [OF assms(2) sp(3)] by (rule read_command_cong)
  show "settled buf' save' (pointers cmd)"
    using settled_writes(2) [OF assms(2) sp(3)] sp(5) settled_mono by blast
  show "settled buf' save' (set_option t)" using sp(6) by (cases t) auto
  show "writes_in save (save + length (string_at buf save)) buf buf'" by (rule sp(3))
  show "save' + length (string_at buf' save') = save + length (string_at buf save)" by (rule sp(4))
  show "save \<le> save'" by (rule sp(5))
qed

lemma strtok_r_next:
  "next_token d s = (None, x) \<Longrightarrow> strtok_r d s = None"
  "next_token d s = (Some t, x) \<Longrightarrow> strtok_r d s = Some (t, x)"
  by (auto simp: next_token_def split: option.splits)

text \<open>What a run of the loop is to have done: read as strings, it is the run of the reference.\<close>

definition parsed :: "nat \<Rightarrow> nat \<Rightarrow> buffer \<Rightarrow> (parse_error + pcommand) \<times> buffer \<Rightarrow> parse_error + command_t \<Rightarrow> bool" where
  "parsed lo hi buf res ref \<longleftrightarrow> (case res of (r, buf') \<Rightarrow>
     map_sum id (read_command buf') r = ref \<and> writes_in lo hi buf buf' \<and>
     (case r of Inl e \<Rightarrow> True | Inr cmd \<Rightarrow> settled buf' hi (pointers cmd)))"

lemma parsed_later:
  assumes "writes_in lo hi buf buf1" "lo \<le> lo1" "parsed lo1 hi buf1 res ref"
  shows "parsed lo hi buf res ref"
proof -
  obtain r b where res: "res = (r, b)" by (cases res)
  then have "writes_in lo1 hi buf1 b" using assms(3) by (simp add: parsed_def)
  then have "writes_in lo hi buf b"
    using assms(1,2) writes_in_mono writes_in_trans by (metis order_refl)
  then show ?thesis using assms(3) res by (simp add: parsed_def)
qed

section \<open>The loop reads as the reference\<close>

text \<open>One call of the tokenizer and the rest of the loop, from what holds of the rest.\<close>

lemma loop_step:
  assumes "strtok_mem d save buf = (t, q, b1)" "settled buf save (pointers cmd)"
    and "settled b1 q (pointers cmd) \<Longrightarrow> settled b1 q (set_option t) \<Longrightarrow>
      parsed q (q + length (string_at b1 q)) b1 res
        (parse_loop (read_command b1 cmd) (map_option (string_at b1) t) (string_at b1 q))"
  shows "parsed save (save + length (string_at buf save)) buf res
    (case next_token d (string_at buf save) of (tok, rest) \<Rightarrow> parse_loop (read_command buf cmd) tok rest)"
proof -
  note n = next_token_mem [OF assms(1,2)]
  have "parsed q (save + length (string_at buf save)) b1 res
      (parse_loop (read_command buf cmd) (map_option (string_at b1) t) (string_at b1 q))"
    using assms(3) [OF n(3,4)] by (simp only: n(2,6))
  then show ?thesis using parsed_later [OF n(5,7)] by (simp add: n(1))
qed

text \<open>An operator takes a second token, which the command then holds.\<close>

lemma operator_step:
  assumes "strtok_mem d save buf = (Some f, s1, b1)" "settled buf save (pointers cmd)"
    and "pointers c1 \<subseteq> insert f (pointers cmd)" "read_command b1 c1 = put (read_command b1 cmd) (string_at b1 f)"
    and "strtok_mem d s1 b1 = (t, q, b2)"
    and "settled b2 q (pointers c1) \<Longrightarrow> settled b2 q (set_option t) \<Longrightarrow>
      parsed q (q + length (string_at b2 q)) b2 res
        (parse_loop (read_command b2 c1) (map_option (string_at b2) t) (string_at b2 q))"
  shows "\<exists>g rest. strtok_r d (string_at buf save) = Some (g, rest) \<and>
    parsed save (save + length (string_at buf save)) buf res
      (case next_token d rest of (tok, rest') \<Rightarrow> parse_loop (put (read_command buf cmd) g) tok rest')"
proof -
  note n = next_token_mem [OF assms(1,2)]
  have "settled b1 s1 (insert f (pointers cmd))" using n(3,4) by simp
  then have "settled b1 s1 (pointers c1)" using assms(3) settled_mono by blast
  from loop_step [OF assms(5) this assms(6)]
  have "parsed s1 (save + length (string_at buf save)) b1 res
      (case next_token d (string_at b1 s1) of (tok, rest') \<Rightarrow>
         parse_loop (put (read_command buf cmd) (string_at b1 f)) tok rest')"
    by (simp only: assms(4) n(2,6))
  then show ?thesis using parsed_later [OF n(5,7)] strtok_r_next(2) n(1) by simp
qed

lemma operator_missing:
  assumes "strtok_mem d save buf = (None, s1, b1)" "settled buf save (pointers cmd)"
  shows "strtok_r d (string_at buf save) = None"
    "parsed save (save + length (string_at buf save)) buf (Inl e, b1) (Inl e)"
  using next_token_mem [OF assms] strtok_r_next(1) by (simp_all add: parsed_def)

text \<open>
  The refinement for one state of the loop, and how it follows, token by token, from that for the
  state after the token.
\<close>

definition parses :: "pcommand \<Rightarrow> nat option \<Rightarrow> nat \<Rightarrow> buffer \<Rightarrow> bool" where
  "parses cmd token save buf \<longleftrightarrow>
     (settled buf save (pointers cmd) \<longrightarrow> settled buf save (set_option token) \<longrightarrow>
      parsed save (save + length (string_at buf save)) buf (p_parse_loop cmd token save buf)
        (parse_loop (read_command buf cmd) (map_option (string_at buf) token) (string_at buf save)))"

lemma parsesD:
  "parses cmd token save buf \<Longrightarrow> settled buf save (pointers cmd) \<Longrightarrow> settled buf save (set_option token) \<Longrightarrow>
   parsed save (save + length (string_at buf save)) buf (p_parse_loop cmd token save buf)
     (parse_loop (read_command buf cmd) (map_option (string_at buf) token) (string_at buf save))"
  unfolding parses_def by blast

lemma parses_flag:
  assumes "string_at buf tok = ''&''" "p_argc cmd < MAX_ARGS - 1" "strtok_mem TOKEN_DELIMITERS save buf = (t, q, b1)"
    and more: "parses (cmd\<lparr>p_background := True\<rparr>) t q b1"
  shows "parses cmd (Some tok) save buf"
  unfolding parses_def
proof (intro impI)
  assume "settled buf save (pointers cmd)"
  then have s: "settled buf save (pointers (cmd\<lparr>p_background := True\<rparr>))" by (simp add: pointers_simps)
  have p: "p_parse_loop cmd (Some tok) save buf = p_parse_loop (cmd\<lparr>p_background := True\<rparr>) t q b1"
    using assms(1-3) by (subst p_parse_loop.simps) simp
  have r: "parse_loop (read_command buf cmd) (map_option (string_at buf) (Some tok)) (string_at buf save) =
      (case next_token TOKEN_DELIMITERS (string_at buf save) of (tok, rest) \<Rightarrow>
         parse_loop (read_command buf (cmd\<lparr>p_background := True\<rparr>)) tok rest)"
    using assms(1,2) by (subst parse_loop.simps) (simp add: case_prod_beta)
  show "parsed save (save + length (string_at buf save)) buf (p_parse_loop cmd (Some tok) save buf)
      (parse_loop (read_command buf cmd) (map_option (string_at buf) (Some tok)) (string_at buf save))"
    unfolding p r by (rule loop_step [OF assms(3) s parsesD [OF more]])
qed

lemma parses_arg:
  assumes "string_at buf tok \<notin> operators" "p_argc cmd < MAX_ARGS - 1"
    and "strtok_mem TOKEN_DELIMITERS save buf = (t, q, b1)" and more: "parses (p_add_arg cmd tok) t q b1"
  shows "parses cmd (Some tok) save buf"
  unfolding parses_def
proof (intro impI)
  assume "settled buf save (pointers cmd)" "settled buf save (set_option (Some tok))"
  then have "settled buf save (insert tok (pointers cmd))" by simp
  then have s: "settled buf save (pointers (p_add_arg cmd tok))"
    using settled_mono pointers_simps(7) by blast
  have p: "p_parse_loop cmd (Some tok) save buf = p_parse_loop (p_add_arg cmd tok) t q b1"
    using assms(1-3) by (subst p_parse_loop.simps) (simp add: operators_def)
  have r: "parse_loop (read_command buf cmd) (map_option (string_at buf) (Some tok)) (string_at buf save) =
      (case next_token TOKEN_DELIMITERS (string_at buf save) of (tk, rest) \<Rightarrow>
         parse_loop (read_command buf (p_add_arg cmd tok)) tk rest)"
    using assms(1,2) by (subst parse_loop.simps) (simp add: case_prod_beta operators_def)
  show "parsed save (save + length (string_at buf save)) buf (p_parse_loop cmd (Some tok) save buf)
      (parse_loop (read_command buf cmd) (map_option (string_at buf) (Some tok)) (string_at buf save))"
    unfolding p r by (rule loop_step [OF assms(3) s parsesD [OF more]])
qed

lemma parses_heredoc:
  assumes "string_at buf tok = ''<<''" "p_argc cmd < MAX_ARGS - 1"
    and n: "strtok_mem TOKEN_DELIMITERS save buf = (f, s1, b1)"
    and more: "\<And>d t q b2. f = Some d \<Longrightarrow> strtok_mem TOKEN_DELIMITERS s1 b1 = (t, q, b2) \<Longrightarrow>
      parses (cmd\<lparr>p_delim := Some d\<rparr>) t q b2"
  shows "parses cmd (Some tok) save buf"
  unfolding parses_def
proof (intro impI)
  assume set: "settled buf save (pointers cmd)"
  obtain t q b2 where n2: "strtok_mem TOKEN_DELIMITERS s1 b1 = (t, q, b2)" by (metis prod_cases3)
  show "parsed save (save + length (string_at buf save)) buf (p_parse_loop cmd (Some tok) save buf)
      (parse_loop (read_command buf cmd) (map_option (string_at buf) (Some tok)) (string_at buf save))"
  proof (cases f)
    case None
    note m = operator_missing(1) [OF n [unfolded None] set]
      operator_missing(2) [OF n [unfolded None] set, where e = Expected_delimiter]
    show ?thesis
      using m assms(1,2) n None by (subst p_parse_loop.simps, subst parse_loop.simps) simp
  next
    case (Some d)
    have p: "p_parse_loop cmd (Some tok) save buf = p_parse_loop (cmd\<lparr>p_delim := Some d\<rparr>) t q b2"
      using assms(1,2) n n2 Some by (subst p_parse_loop.simps) simp
    obtain g rest where "strtok_r TOKEN_DELIMITERS (string_at buf save) = Some (g, rest)"
      "parsed save (save + length (string_at buf save)) buf (p_parse_loop cmd (Some tok) save buf)
        (case next_token TOKEN_DELIMITERS rest of (tok, rest') \<Rightarrow>
           parse_loop ((read_command buf cmd)\<lparr>heredoc_delim := Some g\<rparr>) tok rest')"
      using operator_step [where put = "\<lambda>c g. c\<lparr>heredoc_delim := Some g\<rparr>",
          OF n [unfolded Some] set pointers_simps(4)
          read_command_simps(3) [where buf = b1 and cmd = cmd and q = d] n2 parsesD [OF more [OF Some n2]]]
      unfolding p by blast
    then show ?thesis
      using assms(1,2) by (subst parse_loop.simps) (simp add: case_prod_beta)
  qed
qed

lemma parses_redirect:
  assumes w: "string_at buf tok = ''<'' \<or> string_at buf tok = ''>'' \<or> string_at buf tok = ''>>''"
    and room: "p_argc cmd < MAX_ARGS - 1" and n: "strtok_mem TOKEN_DELIMITERS save buf = (f, s1, b1)"
    and more: "\<And>d t q b2. f = Some d \<Longrightarrow> strtok_mem TOKEN_DELIMITERS s1 b1 = (t, q, b2) \<Longrightarrow>
      parses (if string_at buf tok = ''<'' then cmd\<lparr>p_input := Some d\<rparr>
              else cmd\<lparr>p_output := Some d, p_append := (string_at buf tok = ''>>'')\<rparr>) t q b2"
  shows "parses cmd (Some tok) save buf"
  unfolding parses_def
proof (intro impI)
  assume set: "settled buf save (pointers cmd)" "settled buf save (set_option (Some tok))"
  let ?w = "string_at buf tok"
  let ?c = "\<lambda>f. if ?w = ''<'' then cmd\<lparr>p_input := Some f\<rparr>
      else cmd\<lparr>p_output := Some f, p_append := (?w = ''>>'')\<rparr>"
  let ?put = "\<lambda>c g. if ?w = ''<'' then c\<lparr>input_file := Some g\<rparr>
      else c\<lparr>output_file := Some g, append_mode := (?w = ''>>'')\<rparr>"
  obtain t q b2 where n2: "strtok_mem TOKEN_DELIMITERS s1 b1 = (t, q, b2)" by (metis prod_cases3)
  have w': "?w \<noteq> ''&''" "?w \<noteq> ''<<''" using w by auto
  show "parsed save (save + length (string_at buf save)) buf (p_parse_loop cmd (Some tok) save buf)
      (parse_loop (read_command buf cmd) (map_option (string_at buf) (Some tok)) (string_at buf save))"
  proof (cases f)
    case None
    have "string_at b1 tok = ?w"
      using string_at_below [OF next_token_mem(5) [OF n set(1)]] set(2) by simp
    then show ?thesis
      using operator_missing(1) [OF n [unfolded None] set(1)] w w' room n None
        operator_missing(2) [OF n [unfolded None] set(1), where e = "Expected_filename ?w"]
      by (subst p_parse_loop.simps, subst parse_loop.simps) simp
  next
    case (Some d)
    have p: "p_parse_loop cmd (Some tok) save buf = p_parse_loop (?c d) t q b2"
      using w w' room n n2 Some by (subst p_parse_loop.simps) simp
    have ptr: "pointers (?c d) \<subseteq> insert d (pointers cmd)" using pointers_simps(5,6) by simp
    have rd: "read_command b1 (?c d) = ?put (read_command b1 cmd) (string_at b1 d)" by simp
    obtain g rest where "strtok_r TOKEN_DELIMITERS (string_at buf save) = Some (g, rest)"
      "parsed save (save + length (string_at buf save)) buf (p_parse_loop cmd (Some tok) save buf)
        (case next_token TOKEN_DELIMITERS rest of (tok, rest') \<Rightarrow> parse_loop (?put (read_command buf cmd) g) tok rest')"
      using operator_step [where put = ?put, OF n [unfolded Some] set(1) ptr rd n2 parsesD [OF more [OF Some n2]]]
      unfolding p by blast
    then show ?thesis
      using w w' room by (subst parse_loop.simps) (cases "?w = ''<''"; simp add: case_prod_beta)
  qed
qed

lemma parses_loop: "parses cmd token save buf"
proof (induction cmd token save buf rule: p_parse_loop.induct)
  case (1 cmd token save buf)
  show ?case
  proof (cases "\<exists>tok. token = Some tok \<and> p_argc cmd < MAX_ARGS - 1")
    case False
    then have "p_parse_loop cmd token save buf = (Inr cmd, buf)"
      "parse_loop (read_command buf cmd) (map_option (string_at buf) token) (string_at buf save) =
         Inr (read_command buf cmd)"
      by (subst p_parse_loop.simps parse_loop.simps, auto split: option.split)+
    then show ?thesis
      using settled_mono [of buf save "pointers cmd" "save + length (string_at buf save)"]
      by (simp add: parses_def parsed_def)
  next
    case True
    then obtain tok where tok: "token = Some tok" "p_argc cmd < MAX_ARGS - 1" by blast
    then have room: "\<not> \<not> p_argc cmd < MAX_ARGS - 1" by simp
    obtain t q b1 where n: "strtok_mem TOKEN_DELIMITERS save buf = (t, q, b1)" by (metis prod_cases3)
    let ?w = "string_at buf tok"
    consider (amp) "?w = ''&''" | (heredoc) "?w \<noteq> ''&''" "?w = ''<<''"
      | (redirect) "?w \<noteq> ''&''" "?w \<noteq> ''<<''" "?w = ''<'' \<or> ?w = ''>'' \<or> ?w = ''>>''"
      | (arg) "?w \<noteq> ''&''" "?w \<noteq> ''<<''" "\<not> (?w = ''<'' \<or> ?w = ''>'' \<or> ?w = ''>>'')" by fastforce
    then show ?thesis
      unfolding tok(1)
    proof cases
      case amp
      show "parses cmd (Some tok) save buf"
        by (rule parses_flag [OF amp tok(2) n "1.IH"(1) [OF tok(1) room amp n [symmetric] refl refl]])
    next
      case heredoc
      show "parses cmd (Some tok) save buf"
        by (rule parses_heredoc [OF heredoc(2) tok(2) n])
          (rule "1.IH"(2) [OF tok(1) room heredoc n [symmetric] _ refl _ refl refl]; simp)
    next
      case redirect
      show "parses cmd (Some tok) save buf"
        by (rule parses_redirect [OF redirect(3) tok(2) n])
          (rule "1.IH"(3) [OF tok(1) room redirect refl refl n [symmetric] _ refl _ refl refl]; simp)
    next
      case arg
      then have "?w \<notin> operators" by (simp add: operators_def)
      then show "parses cmd (Some tok) save buf"
        by (rule parses_arg [OF _ tok(2) n "1.IH"(4) [OF tok(1) room arg n [symmetric] refl refl]])
    qed
  qed
qed

lemmas p_parse_loop_parsed = parsesD [OF parses_loop]

text \<open>A whole command: the writes stay in its segment, and its pointers end there.\<close>

lemma p_parse_command_parsed:
  "parsed seg (seg + length (string_at buf seg)) buf (p_parse_command seg buf) (parse_command (string_at buf seg))"
proof -
  let ?z = "pcommand_zero\<lparr>p_heredoc_fd := -1\<rparr>" and ?E = "seg + length (string_at buf seg)"
  obtain t q b1 where n: "strtok_mem TOKEN_DELIMITERS seg buf = (t, q, b1)" by (metis prod_cases3)
  have s: "settled buf seg (pointers ?z)" by (simp add: pointers_simps)
  have z: "read_command buf ?z = command_zero\<lparr>heredoc_fd := -1\<rparr>"
    by (simp add: read_command_def pcommand_zero_def command_zero_def)
  obtain r b' where l: "p_parse_loop ?z t q b1 = (r, b')" by fastforce
  have "parsed seg ?E buf (r, b') (case next_token TOKEN_DELIMITERS (string_at buf seg) of
      (tok, rest) \<Rightarrow> parse_loop (command_zero\<lparr>heredoc_fd := -1\<rparr>) tok rest)"
    using loop_step [OF n s p_parse_loop_parsed] unfolding l z by simp
  then show ?thesis
    using n l pointers_simps(8) settled_mono
    by (fastforce simp: parsed_def p_parse_command_def parse_command_def Let_def case_prod_beta split: sum.splits)
qed


section \<open>Pipelines of pointers\<close>

record ppipeline =
  pp_commands :: "pcommand list"
  pp_num :: nat
  pp_background :: bool

definition ppipeline_zero :: ppipeline where
  "ppipeline_zero = \<lparr>pp_commands = replicate MAX_COMMANDS pcommand_zero, pp_num = 0, pp_background = False\<rparr>"

lemma p_parse_command_length:
  "(r, buf') = p_parse_command seg buf \<Longrightarrow> length buf' = length buf"
  using p_parse_command_parsed [of seg buf] by (auto simp: parsed_def writes_in_def split: prod.splits)

function p_pipeline_loop ::
  "ppipeline \<Rightarrow> nat option \<Rightarrow> nat \<Rightarrow> buffer \<Rightarrow> (parse_error + ppipeline) \<times> buffer" where
  "p_pipeline_loop p segment save buf =
     (case segment of
        None \<Rightarrow> (Inr p, buf)
      | Some seg \<Rightarrow>
        if \<not> pp_num p < MAX_COMMANDS then (Inr p, buf)
        else
          (case p_parse_command seg buf of
             (Inl e, buf1) \<Rightarrow> (Inl e, buf1)
           | (Inr cmd, buf1) \<Rightarrow>
             (let p' = p\<lparr>pp_commands := (pp_commands p)[pp_num p := cmd],
                         pp_num := (if p_argc cmd > 0 then pp_num p + 1 else pp_num p)\<rparr>;
                  (segment', save', buf2) = strtok_mem PIPE_DELIMITER save buf1
              in p_pipeline_loop p' segment' save' buf2)))"
  by pat_completeness auto
termination p_pipeline_loop
  by (relation "measure (\<lambda>(p, segment, save, buf). length buf - save + (if segment = None then 0 else 1))")
    (auto simp del: not_None_eq dest!: p_parse_command_length intro!: strtok_mem_less)

declare p_pipeline_loop.simps [simp del]

definition p_parse_pipeline :: "nat \<Rightarrow> buffer \<Rightarrow> (parse_error + ppipeline) \<times> buffer" where
  "p_parse_pipeline line buf =
     (let (segment, save, buf1) = strtok_mem PIPE_DELIMITER line buf
      in case p_pipeline_loop ppipeline_zero segment save buf1 of
           (Inl e, buf') \<Rightarrow> (Inl e, buf')
         | (Inr p, buf') \<Rightarrow>
           (Inr (if pp_num p > 0
                 then p\<lparr>pp_background := p_background (pp_commands p ! (pp_num p - 1))\<rparr> else p), buf'))"

definition all_pointers :: "ppipeline \<Rightarrow> nat set" where
  "all_pointers p = Union (pointers ` set (pp_commands p))"

definition read_pipeline :: "buffer \<Rightarrow> ppipeline \<Rightarrow> pipeline_t" where
  "read_pipeline buf p = \<lparr>commands = map (read_command buf) (pp_commands p), num_commands = pp_num p,
     pl_background = pp_background p\<rparr>"

lemma read_pipeline_cong:
  "(\<And>q. q \<in> all_pointers p \<Longrightarrow> string_at buf' q = string_at buf q) \<Longrightarrow> read_pipeline buf' p = read_pipeline buf p"
  by (auto simp: read_pipeline_def all_pointers_def intro!: read_command_cong)

lemma pipeline_zero_pointers: "all_pointers ppipeline_zero = {}" "read_pipeline buf ppipeline_zero = pipeline_zero"
  by (auto simp: all_pointers_def ppipeline_zero_def pointers_simps read_pipeline_def read_command_zero
      pipeline_zero_def)

lemma all_pointers_set:
  "all_pointers (p\<lparr>pp_commands := (pp_commands p)[i := cmd], pp_num := n\<rparr>) \<subseteq> all_pointers p \<union> pointers cmd"
  by (auto simp: all_pointers_def dest!: set_mp [OF set_update_subset_insert])

text \<open>The first byte the next step of the loop may write.\<close>

definition front :: "nat option \<Rightarrow> nat \<Rightarrow> nat" where
  "front segment save = (case segment of None \<Rightarrow> save | Some seg \<Rightarrow> seg)"

text \<open>One stage and the call of the outer tokenizer behind it.\<close>

lemma stage_step:
  assumes "settled buf seg (all_pointers p)" "seg + length (string_at buf seg) \<le> save"
    and "p_parse_command seg buf = (Inr cmd, b1)" "strtok_mem PIPE_DELIMITER save b1 = (t, q, b2)"
    and p': "p' = p\<lparr>pp_commands := (pp_commands p)[pp_num p := cmd], pp_num := n\<rparr>"
  shows "parse_command (string_at buf seg) = Inr (read_command b1 cmd)"
    and "next_token PIPE_DELIMITER (string_at buf save) = (map_option (string_at b2) t, string_at b2 q)"
    and "read_pipeline b2 p' = (read_pipeline buf p)\<lparr>commands :=
           (commands (read_pipeline buf p))[num_commands (read_pipeline buf p) := read_command b1 cmd],
           num_commands := n\<rparr>"
    and "settled b2 (front t q) (all_pointers p')" "settled b2 q (set_option t)"
    and "writes_in seg (save + length (string_at buf save)) buf b2"
    and "q + length (string_at b2 q) = save + length (string_at buf save)" "seg \<le> front t q"
proof -
  let ?E = "seg + length (string_at buf seg)"
  have c: "parse_command (string_at buf seg) = Inr (read_command b1 cmd)" "writes_in seg ?E buf b1"
    "settled b1 ?E (pointers cmd)"
    using p_parse_command_parsed [of seg buf] unfolding assms(3) parsed_def by auto
  show "parse_command (string_at buf seg) = Inr (read_command b1 cmd)" by (rule c)
  have save: "string_at b1 save = string_at buf save" by (rule string_at_above [OF c(2) assms(2)])
  obtain tok rest where n: "next_token PIPE_DELIMITER (string_at b1 save) = (tok, rest)" by fastforce
  note sp = strtok_mem_spec [OF assms(4) n]
  show "next_token PIPE_DELIMITER (string_at buf save) = (map_option (string_at b2) t, string_at b2 q)"
    using n sp(1,2) save by simp
  have old: "settled b1 save (all_pointers p \<union> pointers cmd)"
    using settled_mono [OF settled_writes(2) [OF assms(1) c(2)]] settled_mono [OF c(3) assms(2)] assms(2) by simp
  have "front t q \<ge> save" using sp(5,6) by (cases t) (auto simp: front_def)
  then show "settled b2 (front t q) (all_pointers p')"
    unfolding p' by (rule settled_mono [OF settled_writes(2) [OF old sp(3)] _ all_pointers_set])
  show "seg \<le> front t q" using \<open>front t q \<ge> save\<close> assms(2) by simp
  have same: "read_pipeline b2 p = read_pipeline buf p" "read_command b2 cmd = read_command b1 cmd"
    using settled_writes(1) [OF old sp(3)] settled_writes(1) [OF assms(1) c(2)]
    by (auto intro!: read_pipeline_cong read_command_cong)
  then show "read_pipeline b2 p' = (read_pipeline buf p)\<lparr>commands :=
       (commands (read_pipeline buf p))[num_commands (read_pipeline buf p) := read_command b1 cmd],
       num_commands := n\<rparr>"
    unfolding p' using arg_cong [OF same(1), of commands]
    by (simp add: read_pipeline_def map_update del: map_eq_conv)
  show "settled b2 q (set_option t)" using sp(6) by (cases t) auto
  show "q + length (string_at b2 q) = save + length (string_at buf save)" using sp(4) save by simp
  have "writes_in seg (save + length (string_at buf save)) buf b1" "writes_in seg (save + length (string_at buf save)) b1 b2"
    using writes_in_mono [OF c(2)] writes_in_mono [OF sp(3)] assms(2) save by auto
  then show "writes_in seg (save + length (string_at buf save)) buf b2" by (rule writes_in_trans)
qed

lemma p_pipeline_loop_read:
  assumes "p_pipeline_loop p segment save buf = (r, buf')"
    and "settled buf (front segment save) (all_pointers p)" "settled buf save (set_option segment)"
  shows "map_sum id (read_pipeline buf') r =
      pipeline_loop (read_pipeline buf p) (map_option (string_at buf) segment) (string_at buf save) \<and>
    writes_in (front segment save) (save + length (string_at buf save)) buf buf' \<and>
    (case r of Inl e \<Rightarrow> True | Inr p' \<Rightarrow> settled buf' (save + length (string_at buf save)) (all_pointers p'))"
  using assms
proof (induction p segment save buf arbitrary: r buf' rule: p_pipeline_loop.induct)
  case (1 p segment save buf)
  show ?case
  proof (cases "\<exists>seg. segment = Some seg \<and> pp_num p < MAX_COMMANDS")
    case False
    then have "r = Inr p" "buf' = buf" using "1.prems"(1)
      by (subst (asm) p_pipeline_loop.simps, auto split: option.splits)+
    moreover have "settled buf (save + length (string_at buf save)) (all_pointers p)"
      using settled_mono [OF "1.prems"(2) _ subset_refl] "1.prems"(3) by (cases segment) (auto simp: front_def)
    ultimately show ?thesis using False
      by (subst pipeline_loop.simps) (auto simp: read_pipeline_def split: option.split)
  next
    case True
    then obtain seg where seg: "segment = Some seg" "pp_num p < MAX_COMMANDS" by blast
    then have pre: "settled buf seg (all_pointers p)" "seg + length (string_at buf seg) \<le> save"
      "front segment save = seg"
      using "1.prems"(2,3) by (simp_all add: front_def)
    obtain c b1 where c: "p_parse_command seg buf = (c, b1)" by fastforce
    show ?thesis
    proof (cases c)
      case (Inl e)
      then have "parse_command (string_at buf seg) = Inl e" "writes_in seg (seg + length (string_at buf seg)) buf b1"
        using p_parse_command_parsed [of seg buf] unfolding c parsed_def by auto
      moreover have "r = Inl e" "buf' = b1" using "1.prems"(1) seg c Inl
        by (subst (asm) p_pipeline_loop.simps, simp)+
      ultimately show ?thesis using seg pre writes_in_mono
        by (subst pipeline_loop.simps) (auto simp: read_pipeline_def)
    next
      case (Inr cmd)
      obtain t q b2 where n: "strtok_mem PIPE_DELIMITER save b1 = (t, q, b2)" by (metis prod_cases3)
      let ?p = "p\<lparr>pp_commands := (pp_commands p)[pp_num p := cmd],
          pp_num := (if p_argc cmd > 0 then pp_num p + 1 else pp_num p)\<rparr>"
      have eq: "?p = p\<lparr>pp_commands := (pp_commands p)[pp_num p := cmd],
          pp_num := (if p_argc cmd > 0 then pp_num p + 1 else pp_num p)\<rparr>" by (rule refl)
      note st = stage_step [OF pre(1,2) c [unfolded Inr] n eq]
      have room: "\<not> \<not> pp_num p < MAX_COMMANDS" using seg(2) by simp
      have l: "p_pipeline_loop ?p t q b2 = (r, buf')"
        using "1.prems"(1) seg c Inr n by (subst (asm) p_pipeline_loop.simps) simp
      have ref: "pipeline_loop (read_pipeline buf p) (map_option (string_at buf) segment) (string_at buf save) =
          pipeline_loop (read_pipeline b2 ?p) (map_option (string_at b2) t) (string_at b2 q)"
        using seg st(1,2) unfolding st(3)
        by (subst pipeline_loop.simps) (simp add: read_pipeline_def)
      have "map_sum id (read_pipeline buf') r =
          pipeline_loop (read_pipeline b2 ?p) (map_option (string_at b2) t) (string_at b2 q) \<and>
        writes_in (front t q) (q + length (string_at b2 q)) b2 buf' \<and>
        (case r of Inl e \<Rightarrow> True | Inr p' \<Rightarrow> settled buf' (q + length (string_at b2 q)) (all_pointers p'))"
        by (rule "1.IH" [OF seg(1) room c [symmetric] Inr refl n [symmetric] refl refl l st(4,5)])
      then show ?thesis unfolding ref pre(3) st(7)
        using writes_in_trans [OF st(6) writes_in_mono [OF _ st(8) order_refl]] by blast
    qed
  qed
qed

text \<open>All that holds after a line is parsed: the pointers lie within the line, too.\<close>

lemma inplace_facts:
  assumes "is_cstr line" "p_parse_pipeline 0 (line @ [NUL]) = (r, buf)"
  shows "map_sum id (read_pipeline buf) r = parse_pipeline line \<and>
    writes_in 0 (length line) (line @ [NUL]) buf \<and>
    (case r of Inl e \<Rightarrow> True | Inr p \<Rightarrow> settled buf (length line) (all_pointers p))"
proof -
  let ?b = "line @ [NUL]"
  have line: "string_at ?b 0 = line" using assms(1) by (simp add: string_at_def)
  obtain t q b1 where n: "strtok_mem PIPE_DELIMITER 0 ?b = (t, q, b1)" by (metis prod_cases3)
  obtain tok rest where nt: "next_token PIPE_DELIMITER (string_at ?b 0) = (tok, rest)" by fastforce
  note sp = strtok_mem_spec [OF n nt]
  obtain r' b' where l: "p_pipeline_loop ppipeline_zero t q b1 = (r', b')" by fastforce
  have s: "settled b1 q (set_option t)" using sp(6) by (cases t) auto
  have "map_sum id (read_pipeline b') r' = pipeline_loop pipeline_zero tok rest \<and>
      writes_in (front t q) (length line) b1 b' \<and>
      (case r' of Inl e \<Rightarrow> True | Inr p \<Rightarrow> settled b' (length line) (all_pointers p))"
    using p_pipeline_loop_read [OF l _ s] sp(1,2,4) unfolding line by (auto simp: pipeline_zero_pointers split: sum.split)
  then have w: "writes_in 0 (length line) b1 b'" and
      ref: "map_sum id (read_pipeline b') r' = pipeline_loop pipeline_zero tok rest" and
      out: "case r' of Inl e \<Rightarrow> True | Inr p \<Rightarrow> settled b' (length line) (all_pointers p)"
    using writes_in_mono [of _ _ b1 b' 0] by auto
  have "writes_in 0 (length line) ?b b1" using sp(3) unfolding line by simp
  then have "writes_in 0 (length line) ?b b'" using w by (rule writes_in_trans)
  moreover have "buf = b'" using assms(2) n l by (auto simp: p_parse_pipeline_def split: sum.splits)
  moreover have "case r of Inl e \<Rightarrow> True | Inr p \<Rightarrow> settled b' (length line) (all_pointers p)"
    using assms(2) n l out by (auto simp: p_parse_pipeline_def all_pointers_def split: sum.splits)
  moreover have "map_sum id (read_pipeline b') r = parse_pipeline line"
  proof (cases r')
    case (Inl e)
    then have "r = Inl e" using assms(2) n l by (simp add: p_parse_pipeline_def)
    moreover have "pipeline_loop pipeline_zero tok rest = Inl e" using ref Inl by simp
    ultimately show ?thesis using nt unfolding line by (simp add: parse_pipeline_def)
  next
    case (Inr p)
    have r: "r = Inr (if pp_num p > 0
        then p\<lparr>pp_background := p_background (pp_commands p ! (pp_num p - 1))\<rparr> else p)"
      using assms(2) n l Inr by (simp add: p_parse_pipeline_def)
    have "pipeline_loop pipeline_zero tok rest = Inr (read_pipeline b' p)" using ref Inr by simp
    then have P: "parse_pipeline line = Inr (if pp_num p > 0
        then (read_pipeline b' p)\<lparr>pl_background := cmd_background (map (read_command b') (pp_commands p) ! (pp_num p - 1))\<rparr>
        else read_pipeline b' p)"
      using nt unfolding line by (simp add: parse_pipeline_def read_pipeline_def)
    then have "pp_num p \<le> length (pp_commands p)"
      using parse_pipeline_facts(2) [OF P] by (auto simp: pipeline_inv_def read_pipeline_def split: if_splits)
    then show ?thesis unfolding P r by (auto simp: read_pipeline_def read_command_def)
  qed
  ultimately show ?thesis by (auto split: sum.splits)
qed

text \<open>C6: parsing writes only over bytes of the line, and when it is done every pointer in the
  command structs, read as a C string in the buffer as it then is, is the string the parser on
  strings computes; the syntax errors are the same.\<close>

theorem inplace_parse:
  assumes "is_cstr line" "p_parse_pipeline 0 (line @ [NUL]) = (r, buf)"
  shows "map_sum id (read_pipeline buf) r = parse_pipeline line \<and>
    writes_in 0 (length line) (line @ [NUL]) buf"
  using inplace_facts [OF assms] by blast

theorem inplace_parse_witness:
  "\<exists>p buf. p_parse_pipeline 0 (''sort  -r<in|wc > out &'' @ [NUL]) = (Inr p, buf) \<and>
     Inr (read_pipeline buf p) = parse_pipeline ''sort  -r<in|wc > out &'' \<and>
     string_at buf (the (p_output (pp_commands p ! 1))) = ''out'' \<and> pp_background p"
proof -
  let ?l = "''sort  -r<in|wc > out &''"
  obtain r buf where p: "p_parse_pipeline 0 (?l @ [NUL]) = (r, buf)" by fastforce
  have "is_cstr ?l" by code_simp
  note t = inplace_parse [OF this p]
  have "case p_parse_pipeline 0 (?l @ [NUL]) of (Inl e, b) \<Rightarrow> False
      | (Inr p, b) \<Rightarrow> string_at b (the (p_output (pp_commands p ! 1))) = ''out'' \<and> pp_background p"
    by code_simp
  then show ?thesis using t p by (auto split: sum.splits)
qed

end
