(* ===== verification/Memory.thy ===== *)
theory Memory
  imports Clib "HOL-Library.Monad_Syntax" "HOL-Library.Multiset"
begin

text \<open>
  The memory the shell allocates: a heap of blocks of bytes, each byte unset until it is written,
  with malloc, realloc, free, strdup and the reading of a C string. An access that C leaves
  undefined (beyond a block, in a block that was freed, of an unset byte, a free of what malloc
  did not return) has the result None, so that a run whose result is Some has none of them. The
  allocator is a parameter: whether the n-th request for some bytes succeeds.
\<close>

section \<open>Blocks\<close>

type_synonym bytes = "char option list"

record heap =
  blocks :: "nat \<rightharpoonup> bytes"
  requests :: nat

record allocator =
  malloc_ok :: "nat \<Rightarrow> nat \<Rightarrow> bool"
  realloc_ok :: "nat \<Rightarrow> nat \<Rightarrow> bool"

text \<open>NULL, a position in the line's buffer, or the start of a block.\<close>

datatype pointer = Null | Line nat | Block nat

definition put_block :: "nat \<Rightarrow> bytes option \<Rightarrow> heap \<Rightarrow> heap" where
  "put_block a bs h = h\<lparr>blocks := (blocks h)(a := bs)\<rparr>"

definition request :: "heap \<Rightarrow> heap" where
  "request h = h\<lparr>requests := requests h + 1\<rparr>"

definition m_malloc :: "allocator \<Rightarrow> nat \<Rightarrow> heap \<Rightarrow> nat option \<times> heap" where
  "m_malloc A n h =
     (if malloc_ok A (requests h) n
      then (Some (requests h), request (put_block (requests h) (Some (replicate n None)) h))
      else (None, request h))"

text \<open>The block keeps its bytes and may move; when there is no memory it stays as it was.\<close>

definition m_realloc :: "allocator \<Rightarrow> nat \<Rightarrow> nat \<Rightarrow> heap \<Rightarrow> (nat option \<times> heap) option" where
  "m_realloc A a n h =
     (case blocks h a of
        None \<Rightarrow> None
      | Some bs \<Rightarrow>
        if realloc_ok A (requests h) n
        then (let bs' = take n bs @ replicate (n - length bs) None
              in Some (Some (requests h), request (put_block (requests h) (Some bs') (put_block a None h))))
        else Some (None, request h))"

fun m_free :: "pointer \<Rightarrow> heap \<Rightarrow> heap option" where
  "m_free Null h = Some h"
| "m_free (Line q) h = None"
| "m_free (Block a) h = (case blocks h a of None \<Rightarrow> None | Some bs \<Rightarrow> Some (put_block a None h))"

definition m_store :: "nat \<Rightarrow> nat \<Rightarrow> char \<Rightarrow> heap \<Rightarrow> heap option" where
  "m_store a i c h =
     (case blocks h a of
        None \<Rightarrow> None
      | Some bs \<Rightarrow> if i < length bs then Some (put_block a (Some (bs[i := Some c])) h) else None)"

text \<open>The bytes up to the NUL, which must come before the end of the block and an unset byte.\<close>

fun read_bytes :: "bytes \<Rightarrow> string option" where
  "read_bytes [] = None"
| "read_bytes (None # bs) = None"
| "read_bytes (Some c # bs) = (if c = NUL then Some [] else map_option ((#) c) (read_bytes bs))"

fun m_string :: "char list \<Rightarrow> heap \<Rightarrow> pointer \<Rightarrow> string option" where
  "m_string buf h Null = None"
| "m_string buf h (Line q) = read_bytes (map Some (drop q buf))"
| "m_string buf h (Block a) = (case blocks h a of None \<Rightarrow> None | Some bs \<Rightarrow> read_bytes bs)"

definition m_strdup :: "allocator \<Rightarrow> string \<Rightarrow> heap \<Rightarrow> pointer \<times> heap" where
  "m_strdup A s h =
     (case m_malloc A (length s + 1) h of
        (None, h1) \<Rightarrow> (Null, h1)
      | (Some a, h1) \<Rightarrow> (Block a, put_block a (Some (map Some (s @ [NUL]))) h1))"

section \<open>Facts\<close>

text \<open>Every block is from a request that was made.\<close>

definition heap_inv :: "heap \<Rightarrow> bool" where
  "heap_inv h \<longleftrightarrow> (\<forall>a \<in> dom (blocks h). a < requests h)"

lemma heap_invD: "heap_inv h \<Longrightarrow> blocks h (requests h) = None"
  unfolding heap_inv_def by (metis domIff order_less_irrefl)

lemma put_block_simps [simp]:
  "blocks (put_block a bs h) = (blocks h)(a := bs)" "requests (put_block a bs h) = requests h"
  "blocks (request h) = blocks h" "requests (request h) = requests h + 1"
  by (simp_all add: put_block_def request_def)

lemma m_string_blocks: "blocks h' = blocks h \<Longrightarrow> m_string buf h' = m_string buf h"
proof
  show "blocks h' = blocks h \<Longrightarrow> m_string buf h' p = m_string buf h p" for p by (cases p) simp_all
qed

lemma m_string_request [simp]: "m_string buf (request h) = m_string buf h"
  by (rule m_string_blocks) simp

lemma heap_inv_simps [simp]:
  "heap_inv h \<Longrightarrow> heap_inv (request h)"
  "heap_inv h \<Longrightarrow> heap_inv (put_block a None h)"
  "heap_inv h \<Longrightarrow> a < requests h \<Longrightarrow> heap_inv (put_block a bs h)"
  "heap_inv h \<Longrightarrow> heap_inv (request (put_block (requests h) bs h))"
  unfolding heap_inv_def by (fastforce simp: less_Suc_eq split: if_splits)+

lemma read_bytes_string: "is_cstr s \<Longrightarrow> read_bytes (map Some (s @ NUL # rest) @ bs) = Some s"
  by (induction s) (auto simp: is_cstr_def)

lemma read_bytes_run: "NUL \<notin> set s \<Longrightarrow> read_bytes (map Some s @ replicate n None) = None"
  by (induction s) (cases n, auto)

section \<open>Releasing what is owned\<close>

text \<open>A loop that releases the things of a list, in order.\<close>

fun release_all :: "('p \<Rightarrow> 'h \<Rightarrow> 'h option) \<Rightarrow> 'p list \<Rightarrow> 'h \<Rightarrow> 'h option" where
  "release_all release [] h = Some h"
| "release_all release (p # ps) h = Option.bind (release p h) (release_all release ps)"

text \<open>
  The contract of a release: a thing that is live is removed, and nothing else changes. Its
  client releases the things of a list, each once.
\<close>

locale releasing =
  fixes release :: "'p \<Rightarrow> 'h \<Rightarrow> 'h option" and view :: "'h \<Rightarrow> 'p \<rightharpoonup> 'b" and inv :: "'h \<Rightarrow> bool"
  assumes release: "view h p = Some b \<Longrightarrow> inv h \<Longrightarrow>
    \<exists>h'. release p h = Some h' \<and> view h' = (view h)(p := None) \<and> inv h'"
begin

lemma all_released:
  assumes "distinct ps" "set ps \<subseteq> dom (view h)" "inv h"
  shows "\<exists>h'. release_all release ps h = Some h' \<and> view h' = view h |` (- set ps) \<and> inv h'"
  using assms
proof (induction ps arbitrary: h)
  case (Cons p ps)
  then obtain b where "view h p = Some b" by auto
  then obtain h1 where h1: "release p h = Some h1" "view h1 = (view h)(p := None)" "inv h1"
    using release Cons.prems(3) by blast
  then have "set ps \<subseteq> dom (view h1)" using Cons.prems(1,2) by auto
  then obtain h' where "release_all release ps h1 = Some h'" "view h' = view h1 |` (- set ps)" "inv h'"
    using Cons.IH [of h1] Cons.prems(1) h1(3) by auto
  moreover have "view h1 |` (- set ps) = view h |` (- set (p # ps))"
    using Cons.prems(1) by (auto simp: h1(2) restrict_map_def fun_eq_iff)
  ultimately show ?case using h1(1) by simp
qed (simp add: restrict_map_def)

end

text \<open>The blocks behind a list of pointers.\<close>

fun addresses :: "pointer list \<Rightarrow> nat list" where
  "addresses [] = []"
| "addresses (Block a # ps) = a # addresses ps"
| "addresses (_ # ps) = addresses ps"

lemma addresses_append [simp]: "addresses (ps @ qs) = addresses ps @ addresses qs"
  by (induction ps rule: addresses.induct) simp_all

lemma mset_addresses: "mset ps = mset qs \<Longrightarrow> mset (addresses ps) = mset (addresses qs)"
proof -
  have "mset (addresses ps) = (\<Sum>p\<in>#mset ps. case p of Block a \<Rightarrow> {#a#} | _ \<Rightarrow> {#})" for ps
    by (induction ps rule: addresses.induct) simp_all
  then show "mset ps = mset qs \<Longrightarrow> mset (addresses ps) = mset (addresses qs)" by metis
qed

interpretation malloced: releasing "\<lambda>a. m_free (Block a)" blocks heap_inv
  by unfold_locales auto

lemma release_all_addresses:
  "range Line \<inter> set ps = {} \<Longrightarrow> release_all m_free ps h = release_all (\<lambda>a. m_free (Block a)) (addresses ps) h"
proof (induction ps arbitrary: h rule: addresses.induct)
  case (2 a ps)
  then show ?case by (auto split: option.splits)
qed auto

lemma release_all_append:
  "release_all f (ps @ qs) h = Option.bind (release_all f ps h) (release_all f qs)"
proof (induction ps arbitrary: h)
  case (Cons p ps)
  then show ?case by (cases "f p h") simp_all
qed simp

text \<open>
  The second heap has the blocks of the first as they were and, besides, those behind the
  pointers of a list, each once: whoever has the list owns them.
\<close>

definition adds :: "heap \<Rightarrow> pointer list \<Rightarrow> heap \<Rightarrow> bool" where
  "adds h ps h' \<longleftrightarrow> heap_inv h \<and> heap_inv h' \<and> range Line \<inter> set ps = {} \<and>
     distinct (addresses ps) \<and> set (addresses ps) \<inter> dom (blocks h) = {} \<and>
     dom (blocks h') = dom (blocks h) \<union> set (addresses ps) \<and> blocks h \<subseteq>\<^sub>m blocks h'"

lemma adds_refl: "heap_inv h \<Longrightarrow> adds h [] h"
  by (simp add: adds_def)

lemma adds_trans:
  assumes "adds h ps h1" "adds h1 qs h2"
  shows "adds h (ps @ qs) h2"
  using assms map_le_trans [of "blocks h" "blocks h1" "blocks h2"] unfolding adds_def by auto

lemma adds_perm: "adds h ps h' \<Longrightarrow> mset ps = mset qs \<Longrightarrow> adds h qs h'"
  unfolding adds_def using mset_addresses [of ps qs]
  by (metis mset_eq_imp_distinct_iff set_mset_mset)

lemma adds_Null [simp]: "adds h (ps @ [Null]) h' \<longleftrightarrow> adds h ps h'"
  by (auto simp: adds_def)

lemma adds_request: "adds h ps h' \<Longrightarrow> adds h ps (request h')"
  by (simp add: adds_def)

lemma addsI:
  assumes "heap_inv h" "heap_inv h'" "blocks h a = None" "blocks h' = (blocks h)(a \<mapsto> bs)"
  shows "adds h [Block a] h'"
  using assms by (auto simp: adds_def map_le_def)

lemma adds_string:
  assumes "adds h ps h'" "m_string buf h p = Some s"
  shows "m_string buf h' p = Some s"
proof (cases p)
  case (Block a)
  then obtain bs where "blocks h a = Some bs" using assms(2) by (auto split: option.splits)
  then have "blocks h' a = Some bs" using assms(1) unfolding adds_def map_le_def by (metis domI)
  then show ?thesis using assms(2) Block \<open>blocks h a = Some bs\<close> by simp
qed (use assms(2) in simp_all)

text \<open>What is owned can be released; the heap is then as before.\<close>

lemma adds_released:
  assumes "adds h (ps @ qs) h'"
  shows "\<exists>h''. release_all m_free qs h' = Some h'' \<and> adds h ps h'' \<and> blocks h'' \<subseteq>\<^sub>m blocks h'"
proof -
  let ?as = "addresses qs"
  have h: "distinct ?as" "set ?as \<subseteq> dom (blocks h')" "heap_inv h'" "range Line \<inter> set qs = {}"
    using assms by (auto simp: adds_def)
  obtain h'' where h'': "release_all (\<lambda>a. m_free (Block a)) ?as h' = Some h''"
    "blocks h'' = blocks h' |` (- set ?as)" "heap_inv h''"
    using malloced.all_released [OF h(1-3)] by blast
  have d: "dom (blocks h') = dom (blocks h) \<union> (set (addresses ps) \<union> set ?as)" "blocks h \<subseteq>\<^sub>m blocks h'"
    "set ?as \<inter> dom (blocks h) = {}" "set ?as \<inter> set (addresses ps) = {}"
    using assms by (auto simp: adds_def)
  then have "dom (blocks h'') = dom (blocks h) \<union> set (addresses ps)" "blocks h \<subseteq>\<^sub>m blocks h''"
    unfolding h''(2) dom_restrict map_le_def by (auto simp: restrict_map_def)
  then have "adds h ps h''"
    using assms h''(3) by (auto simp: adds_def)
  moreover have "blocks h'' \<subseteq>\<^sub>m blocks h'" unfolding h''(2) map_le_def by (auto simp: restrict_map_def)
  ultimately show ?thesis using h''(1) release_all_addresses [OF h(4)] by auto
qed

text \<open>A string that is kept is still what it was.\<close>

lemma kept_string:
  assumes "adds h ps h''" "blocks h'' \<subseteq>\<^sub>m blocks h'" "p \<in> set ps"
  shows "m_string buf h'' p = m_string buf h' p"
proof (cases p)
  case (Block a)
  then have "a \<in> set (addresses ps)"
    using assms(3) by (induction ps rule: addresses.induct) auto
  then have "a \<in> dom (blocks h'')" using assms(1) by (simp add: adds_def)
  then show ?thesis using assms(2) Block by (simp add: map_le_def)
qed simp_all



lemma adds_all_released:
  assumes "adds h ps h'"
  shows "\<exists>h''. release_all m_free ps h' = Some h'' \<and> blocks h'' = blocks h \<and> heap_inv h''"
proof -
  obtain h'' where h'': "release_all m_free ps h' = Some h''" "adds h [] h''"
    using adds_released [of h "[]" ps h'] assms by auto
  then have "dom (blocks h'') = dom (blocks h)" "blocks h \<subseteq>\<^sub>m blocks h''" by (simp_all add: adds_def)
  then have "blocks h'' = blocks h" by (metis map_le_antisym map_le_def)
  moreover have "heap_inv h''" using h''(2) by (simp add: adds_def)
  ultimately show ?thesis using h''(1) by blast
qed

lemma strdup_owned:
  assumes "heap_inv h" "m_strdup A s h = (p, h1)"
  shows "adds h [p] h1" "(\<And>r n. malloc_ok A r n) \<Longrightarrow> is_cstr s \<Longrightarrow> m_string buf h1 p = Some s"
proof -
  let ?h = "request (put_block (requests h) (Some (map Some (s @ [NUL]))) h)"
  have r: "(p, h1) = (if malloc_ok A (requests h) (length s + 1) then (Block (requests h), ?h) else (Null, request h))"
    using assms(2) by (auto simp: m_strdup_def m_malloc_def put_block_def request_def split: if_splits)
  have "adds h [Block (requests h)] ?h"
    by (rule addsI [OF assms(1)]) (simp_all add: assms(1) heap_invD)
  moreover have "adds h [Null] (request h)"
    using adds_Null [of h "[]"] adds_refl [OF assms(1)] adds_request by simp
  ultimately show "adds h [p] h1" using r by (auto split: if_splits)
  show "m_string buf h1 p = Some s" if "\<And>r n. malloc_ok A r n" "is_cstr s"
    using r that read_bytes_string [of s "[]" "[]"] by simp
qed

end
