(* ===== verification/Owned_Words.thy ===== *)
theory Owned_Words
  imports Expand Inplace Memory
begin

text \<open>
  Word expansion on the heap (expand.c): who owns the bytes. Each routine of Expand is here as
  the code has it on memory, with the struct \<open>strbuf_t\<close> as a pointer, a length and a capacity,
  and the words of a command as pointers, into the line's buffer before the expansion and to
  blocks of their own after it. The theorems are that with any allocator whose \<open>realloc\<close> succeeds
  expanding and freeing a pipeline makes no undefined access and leaves the heap as it was, that
  the strings are those of Expand, and what happens where \<open>realloc\<close> fails.
\<close>

section \<open>The code on memory\<close>

record m_strbuf =
  m_data :: nat
  m_len :: nat
  m_cap :: nat

definition m_sb_init :: "allocator \<Rightarrow> heap \<Rightarrow> m_strbuf option \<times> heap" where
  "m_sb_init A h =
     (case m_malloc A 64 h of
        (None, h1) \<Rightarrow> (None, h1)
      | (Some a, h1) \<Rightarrow> (Some \<lparr>m_data = a, m_len = 0, m_cap = 64\<rparr>, h1))"

definition m_sb_putc :: "allocator \<Rightarrow> m_strbuf \<Rightarrow> char \<Rightarrow> heap \<Rightarrow> (bool \<times> m_strbuf \<times> heap) option" where
  "m_sb_putc A sb c h = do {
     (ok, sb1, h1) \<leftarrow>
       (if m_len sb + 1 \<ge> m_cap sb
        then (let ncap = m_cap sb * 2
              in do {
                (t, h1) \<leftarrow> m_realloc A (m_data sb) ncap h;
                Some (case t of
                        None \<Rightarrow> (False, sb, h1)
                      | Some a \<Rightarrow> (True, sb\<lparr>m_data := a, m_cap := ncap\<rparr>, h1))
              })
        else Some (True, sb, h));
     if \<not> ok then Some (False, sb1, h1)
     else do {
       h2 \<leftarrow> m_store (m_data sb1) (m_len sb1) c h1;
       Some (True, sb1\<lparr>m_len := m_len sb1 + 1\<rparr>, h2)
     }
   }"

fun m_sb_puts :: "allocator \<Rightarrow> m_strbuf \<Rightarrow> string \<Rightarrow> heap \<Rightarrow> (bool \<times> m_strbuf \<times> heap) option" where
  "m_sb_puts A sb [] h = Some (True, sb, h)"
| "m_sb_puts A sb (c # cs) h = do {
     (ok, sb1, h1) \<leftarrow> m_sb_putc A sb c h;
     if \<not> ok then Some (False, sb1, h1) else m_sb_puts A sb1 cs h1
   }"

definition m_put_value :: "allocator \<Rightarrow> m_strbuf \<Rightarrow> string option \<Rightarrow> heap \<Rightarrow> (bool \<times> m_strbuf \<times> heap) option" where
  "m_put_value A sb v h = (case v of None \<Rightarrow> Some (True, sb, h) | Some s \<Rightarrow> m_sb_puts A sb s h)"

function m_expand_loop ::
  "allocator \<Rightarrow> (string \<rightharpoonup> string) \<Rightarrow> int \<Rightarrow> m_strbuf \<Rightarrow> string \<Rightarrow> heap \<Rightarrow> (m_strbuf \<times> heap) option" where
  "m_expand_loop A env status sb [] h = Some (sb, h)"
| "m_expand_loop A env status sb (c # rest) h =
     (if c \<noteq> CHR ''$'' then do {
        (_, sb1, h1) \<leftarrow> m_sb_putc A sb c h;
        m_expand_loop A env status sb1 rest h1
      } else
        (let next_c = (case rest of [] \<Rightarrow> NUL | n # _ \<Rightarrow> n)
         in if next_c = CHR ''?'' then do {
              (_, sb1, h1) \<leftarrow> m_sb_puts A sb (fst (snprintf 16 (dec_int status))) h;
              m_expand_loop A env status sb1 (drop 1 rest) h1
            } else if next_c = CHR ''{'' then
              (case scan_name (\<lambda>c. c \<noteq> CHR ''}'') 255 (drop 1 rest) of
                 (name, after) \<Rightarrow>
                   if after \<noteq> [] \<and> hd after = CHR ''}'' then do {
                     (_, sb1, h1) \<leftarrow> m_put_value A sb (env name) h;
                     m_expand_loop A env status sb1 (tl after) h1
                   } else do {
                     (_, sb1, h1) \<leftarrow> m_sb_putc A sb (CHR ''$'') h;
                     m_expand_loop A env status sb1 rest h1
                   })
            else if name_start next_c then
              (case scan_name name_char 255 rest of
                 (name, after) \<Rightarrow> do {
                   (_, sb1, h1) \<leftarrow> m_put_value A sb (env name) h;
                   m_expand_loop A env status sb1 after h1
                 })
            else do {
              (_, sb1, h1) \<leftarrow> m_sb_putc A sb (CHR ''$'') h;
              m_expand_loop A env status sb1 rest h1
            }))"
  by pat_completeness auto
termination m_expand_loop
  by (relation "measure (\<lambda>(A, env, status, sb, s, h). length s)")
    (auto dest!: scan_name_length simp: le_imp_less_Suc)

declare m_expand_loop.simps(2) [simp del]

definition m_expand_variables ::
  "allocator \<Rightarrow> (string \<rightharpoonup> string) \<Rightarrow> int \<Rightarrow> string \<Rightarrow> heap \<Rightarrow> (pointer \<times> heap) option" where
  "m_expand_variables A env status input h =
     (case m_sb_init A h of
        (None, h1) \<Rightarrow> Some (Null, h1)
      | (Some sb, h1) \<Rightarrow> do {
          (sb1, h2) \<leftarrow> m_expand_loop A env status sb input h1;
          (_, sb2, h3) \<leftarrow> m_sb_putc A sb1 NUL h2;
          Some (Block (m_data sb2), h3)
        })"

definition m_expand_word ::
  "allocator \<Rightarrow> (string \<Rightarrow> string list option) \<Rightarrow> (string \<rightharpoonup> string) \<Rightarrow> int \<Rightarrow> char list \<Rightarrow> pointer \<Rightarrow> heap \<Rightarrow>
     (pointer \<times> heap) option" where
  "m_expand_word A glob env status buf p h = do {
     input \<leftarrow> m_string buf h p;
     (v, h1) \<leftarrow> m_expand_variables A env status input h;
     if v = Null then Some (Null, h1)
     else do {
       s \<leftarrow> m_string buf h1 v;
       if has_glob s
       then (case glob s of
               Some (path # _) \<Rightarrow>
                 (case m_strdup A path h1 of
                    (first, h2) \<Rightarrow> do { h3 \<leftarrow> m_free v h2; Some (first, h3) })
             | _ \<Rightarrow> Some (v, h1))
       else Some (v, h1)
     }
   }"

text \<open>The copies of the paths a pattern matches.\<close>

fun m_strdups :: "allocator \<Rightarrow> string list \<Rightarrow> heap \<Rightarrow> pointer list \<times> heap" where
  "m_strdups A [] h = ([], h)"
| "m_strdups A (s # ss) h =
     (case m_strdup A s h of (p, h1) \<Rightarrow> case m_strdups A ss h1 of (ps, h2) \<Rightarrow> (p # ps, h2))"

fun m_expand_args ::
  "allocator \<Rightarrow> (string \<Rightarrow> string list option) \<Rightarrow> (string \<rightharpoonup> string) \<Rightarrow> int \<Rightarrow> char list \<Rightarrow>
     pointer list \<Rightarrow> pointer list \<Rightarrow> heap \<Rightarrow> (pointer list \<times> heap) option" where
  "m_expand_args A glob env status buf [] new_args h = Some (new_args, h)"
| "m_expand_args A glob env status buf (p # ps) new_args h =
     (if \<not> length new_args < MAX_ARGS - 1 then Some (new_args, h)
      else do {
        input \<leftarrow> m_string buf h p;
        (word, h1) \<leftarrow> m_expand_variables A env status input h;
        if word = Null then m_expand_args A glob env status buf ps new_args h1
        else do {
          s \<leftarrow> m_string buf h1 word;
          if has_glob s
          then (case glob s of
                  Some paths \<Rightarrow>
                    (case m_strdups A (take (MAX_ARGS - 1 - length new_args) paths) h1 of
                       (copies, h2) \<Rightarrow> do {
                         h3 \<leftarrow> m_free word h2;
                         m_expand_args A glob env status buf ps (new_args @ copies) h3
                       })
                | None \<Rightarrow> m_expand_args A glob env status buf ps (new_args @ [word]) h1)
          else m_expand_args A glob env status buf ps (new_args @ [word]) h1
        }
      })"

record m_command =
  m_args :: "pointer list"
  m_argc :: nat
  m_input :: pointer
  m_output :: pointer

definition m_expand_target ::
  "allocator \<Rightarrow> (string \<Rightarrow> string list option) \<Rightarrow> (string \<rightharpoonup> string) \<Rightarrow> int \<Rightarrow> char list \<Rightarrow> pointer \<Rightarrow> heap \<Rightarrow>
     (pointer \<times> heap) option" where
  "m_expand_target A glob env status buf p h =
     (if p = Null then Some (Null, h) else m_expand_word A glob env status buf p h)"

definition m_expand_command ::
  "allocator \<Rightarrow> (string \<Rightarrow> string list option) \<Rightarrow> (string \<rightharpoonup> string) \<Rightarrow> int \<Rightarrow> char list \<Rightarrow> m_command \<Rightarrow> heap \<Rightarrow>
     (m_command \<times> heap) option" where
  "m_expand_command A glob env status buf cmd h = do {
     (new_args, h1) \<leftarrow> m_expand_args A glob env status buf (take (m_argc cmd) (m_args cmd)) [] h;
     (inp, h2) \<leftarrow> m_expand_target A glob env status buf (m_input cmd) h1;
     (out, h3) \<leftarrow> m_expand_target A glob env status buf (m_output cmd) h2;
     let n = length new_args
     in Some (cmd\<lparr>m_args := new_args @ [Null] @ drop (n + 1) (m_args cmd), m_argc := n,
                  m_input := inp, m_output := out\<rparr>, h3)
   }"

text \<open>The loops over \<open>commands[0..num_commands)\<close>.\<close>

fun m_expand_pipeline ::
  "allocator \<Rightarrow> (string \<Rightarrow> string list option) \<Rightarrow> (string \<rightharpoonup> string) \<Rightarrow> int \<Rightarrow> char list \<Rightarrow> m_command list \<Rightarrow> heap \<Rightarrow>
     (m_command list \<times> heap) option" where
  "m_expand_pipeline A glob env status buf [] h = Some ([], h)"
| "m_expand_pipeline A glob env status buf (cmd # cmds) h = do {
     (cmd', h1) \<leftarrow> m_expand_command A glob env status buf cmd h;
     (cmds', h2) \<leftarrow> m_expand_pipeline A glob env status buf cmds h1;
     Some (cmd' # cmds', h2)
   }"

text \<open>\<open>free(cmd->args[i]); cmd->args[i] = NULL\<close> for each argument, then the two targets.\<close>

definition m_free_command :: "m_command \<Rightarrow> heap \<Rightarrow> (m_command \<times> heap) option" where
  "m_free_command cmd h = do {
     h1 \<leftarrow> release_all m_free (take (m_argc cmd) (m_args cmd)) h;
     h2 \<leftarrow> m_free (m_input cmd) h1;
     h3 \<leftarrow> m_free (m_output cmd) h2;
     Some (cmd\<lparr>m_args := replicate (m_argc cmd) Null @ drop (m_argc cmd) (m_args cmd),
               m_input := Null, m_output := Null\<rparr>, h3)
   }"

fun m_free_expansions :: "m_command list \<Rightarrow> heap \<Rightarrow> (m_command list \<times> heap) option" where
  "m_free_expansions [] h = Some ([], h)"
| "m_free_expansions (cmd # cmds) h = do {
     (cmd', h1) \<leftarrow> m_free_command cmd h;
     (cmds', h2) \<leftarrow> m_free_expansions cmds h1;
     Some (cmd' # cmds', h2)
   }"

section \<open>The buffer is the one of Expand\<close>

text \<open>
  Next to the rest \<open>B\<close> of the heap there is one more block: the buffer, with the bytes written
  so far and the others unset.
\<close>

definition holds :: "(nat \<rightharpoonup> bytes) \<Rightarrow> m_strbuf \<Rightarrow> strbuf_t \<Rightarrow> heap \<Rightarrow> bool" where
  "holds B sb s h \<longleftrightarrow> m_len sb = sb_len s \<and> m_cap sb = sb_cap s \<and> sb_inv s \<and> heap_inv h \<and>
     B (m_data sb) = None \<and>
     blocks h = B(m_data sb \<mapsto> map Some (sb_data s) @ replicate (sb_cap s - sb_len s) None)"

lemma write_next:
  "k > 0 \<Longrightarrow> (map Some d @ replicate k None)[length d := Some c] = map Some (d @ [c]) @ replicate (k - Suc 0) None"
  by (cases k) (simp_all add: list_update_append)

lemma store_holds:
  assumes "holds B sb s h" "sb_inv (s\<lparr>sb_data := sb_data s @ [c]\<rparr>)"
  shows "\<exists>h'. m_store (m_data sb) (m_len sb) c h = Some h' \<and>
    holds B (sb\<lparr>m_len := m_len sb + 1\<rparr>) (s\<lparr>sb_data := sb_data s @ [c]\<rparr>) h'"
proof -
  have lt: "sb_len s < sb_cap s" using assms(1) by (simp add: holds_def sb_inv_def)
  have "m_data sb < requests h"
    using assms(1) unfolding holds_def heap_inv_def by (metis domI fun_upd_same)
  then show ?thesis
    using assms lt by (simp add: holds_def m_store_def write_next)
qed

lemma realloc_holds:
  assumes "holds B sb s h" "realloc_ok A (requests h) (m_cap sb * 2)"
  shows "\<exists>a h'. m_realloc A (m_data sb) (m_cap sb * 2) h = Some (Some a, h') \<and>
    holds B (sb\<lparr>m_data := a, m_cap := m_cap sb * 2\<rparr>) (s\<lparr>sb_cap := sb_cap s * 2\<rparr>) h'"
proof -
  let ?bs = "map Some (sb_data s) @ replicate (sb_cap s - sb_len s) None"
  have h: "blocks h = B(m_data sb \<mapsto> ?bs)" "B (m_data sb) = None" "heap_inv h" "sb_len s < sb_cap s"
    "m_cap sb = sb_cap s" using assms(1) by (simp_all add: holds_def sb_inv_def)
  have "B (requests h) = None"
    using heap_invD [OF h(3)] h(1) by (auto split: if_splits)
  moreover have "(B(m_data sb \<mapsto> ?bs))(m_data sb := None) = B" using h(2) by auto
  moreover have "?bs @ replicate (sb_cap s) None =
      map Some (sb_data s) @ replicate (sb_cap s * 2 - sb_len s) None"
    using h(4) by (simp flip: replicate_add)
  moreover have "heap_inv (request (put_block (requests h) bs (put_block (m_data sb) None h)))" for bs
    using heap_inv_simps(4) [OF heap_inv_simps(2) [OF h(3)]] by simp
  ultimately show ?thesis
    using assms h by (auto simp: m_realloc_def Let_def holds_def sb_inv_def)
qed

lemma putc_holds:
  assumes "holds B sb s h" "\<And>r n. realloc_ok A r n = mem n"
  shows "\<exists>sb' h'. m_sb_putc A sb c h = Some (fst (sb_putc mem s c), sb', h') \<and>
    holds B sb' (snd (sb_putc mem s c)) h'"
proof -
  have eq: "m_len sb = sb_len s" "m_cap sb = sb_cap s" and inv: "sb_inv (snd (sb_putc mem s c))"
    using assms(1) sb_putc_inv by (auto simp: holds_def)
  consider (room) "sb_len s + 1 < sb_cap s" | (grown) "sb_cap s \<le> sb_len s + 1" "mem (sb_cap s * 2)"
    | (full) "sb_cap s \<le> sb_len s + 1" "\<not> mem (sb_cap s * 2)" by linarith
  then show ?thesis
  proof cases
    case room
    then show ?thesis
      using store_holds [OF assms(1), of c] inv eq by (auto simp: m_sb_putc_def sb_putc_def)
  next
    case grown
    then obtain a h1 where r: "m_realloc A (m_data sb) (m_cap sb * 2) h = Some (Some a, h1)"
      "holds B (sb\<lparr>m_data := a, m_cap := m_cap sb * 2\<rparr>) (s\<lparr>sb_cap := sb_cap s * 2\<rparr>) h1"
      using realloc_holds [OF assms(1), of A] assms(2) eq by auto
    then show ?thesis
      using store_holds [OF r(2), of c] inv eq grown
      by (auto simp: m_sb_putc_def sb_putc_def Let_def)
  next
    case full
    have bs: "blocks h (m_data sb) \<noteq> None" using assms(1) by (simp add: holds_def)
    have "holds B sb s (request h)" using assms(1) by (simp add: holds_def)
    then show ?thesis
      using full eq bs assms(2) by (auto simp: m_sb_putc_def sb_putc_def m_realloc_def Let_def)
  qed
qed

lemma puts_holds:
  assumes "holds B sb s h" "\<And>r n. realloc_ok A r n = mem n"
  shows "\<exists>sb' h'. m_sb_puts A sb cs h = Some (fst (sb_puts mem s cs), sb', h') \<and>
    holds B sb' (snd (sb_puts mem s cs)) h'"
  using assms(1)
proof (induction cs arbitrary: sb s h)
  case (Cons c cs)
  obtain sb1 h1 where p: "m_sb_putc A sb c h = Some (fst (sb_putc mem s c), sb1, h1)"
    "holds B sb1 (snd (sb_putc mem s c)) h1"
    using putc_holds [OF Cons.prems assms(2)] by blast
  then show ?case using Cons.IH [OF p(2)] by (auto simp: case_prod_beta)
qed simp

lemma put_value_holds:
  assumes "holds B sb s h" "\<And>r n. realloc_ok A r n = mem n"
  shows "\<exists>ok sb' h'. m_put_value A sb v h = Some (ok, sb', h') \<and> holds B sb' (put_value mem s v) h'"
  using puts_holds [OF assms] assms(1)
  by (cases v) (fastforce simp: m_put_value_def put_value_def)+

text \<open>One write to the buffer, and then the rest of the scan.\<close>

lemma then_holds:
  assumes "\<exists>ok sb1 h1. m = Some (ok, sb1, h1) \<and> holds B sb1 s1 h1"
    and "\<And>sb1 h1. holds B sb1 s1 h1 \<Longrightarrow>
      \<exists>sb' h'. m_expand_loop A env status sb1 rest h1 = Some (sb', h') \<and> holds B sb' s' h'"
  shows "\<exists>sb' h'. Option.bind m (\<lambda>(_, sb1, h1). m_expand_loop A env status sb1 rest h1) = Some (sb', h') \<and>
    holds B sb' s' h'"
  using assms by fastforce

lemma ex_ok: "\<exists>sb' h'. m = Some (b, sb', h') \<and> P sb' h' \<Longrightarrow> \<exists>ok sb' h'. m = Some (ok, sb', h') \<and> P sb' h'"
  by blast

lemma loop_holds:
  assumes "holds B sb s h" "\<And>r n. realloc_ok A r n = mem n"
  shows "\<exists>sb' h'. m_expand_loop A env status sb input h = Some (sb', h') \<and>
    holds B sb' (expand_loop mem env status s input) h'"
  using assms
proof (induction mem env status s input arbitrary: sb h rule: expand_loop.induct)
  case (2 mem env status s c rest)
  note put = putc_holds [OF "2.prems", THEN ex_ok] puts_holds [OF "2.prems", THEN ex_ok]
    put_value_holds [OF "2.prems"]
  let ?next = "case rest of [] \<Rightarrow> NUL | n # _ \<Rightarrow> n"
  note step = m_expand_loop.simps(2) expand_loop.simps(2) Let_def
  consider (char) "c \<noteq> CHR ''$''" | (status) "c = CHR ''$''" "?next = CHR ''?''"
    | (brace) "c = CHR ''$''" "?next \<noteq> CHR ''?''" "?next = CHR ''{''"
    | (name) "c = CHR ''$''" "?next \<noteq> CHR ''?''" "?next \<noteq> CHR ''{''" "name_start ?next"
    | (lone) "c = CHR ''$''" "?next \<noteq> CHR ''?''" "?next \<noteq> CHR ''{''" "\<not> name_start ?next" by blast
  then show ?case
  proof cases
    case char
    then show ?thesis
      by (simp add: step del: One_nat_def)
        (rule then_holds [OF put(1)], rule "2.IH"(1), (use char "2.prems"(2) in simp_all))
  next
    case status
    then show ?thesis
      by (simp add: step del: One_nat_def)
        (rule then_holds [OF put(2)], rule "2.IH"(2), (use status "2.prems"(2) in simp_all))
  next
    case brace
    obtain name after where sc: "scan_name (\<lambda>c. c \<noteq> CHR ''}'') 255 (drop 1 rest) = (name, after)" by fastforce
    show ?thesis
    proof (cases "after \<noteq> [] \<and> hd after = CHR ''}''")
      case True
      with brace sc show ?thesis
        by (simp add: step del: One_nat_def)
        (rule then_holds [OF put(3)], rule "2.IH"(3), (use brace sc True "2.prems"(2) in simp_all))
    next
      case False
      with brace sc show ?thesis
        by (simp add: step if_not_P [OF False] del: One_nat_def)
        (rule then_holds [OF put(1)], rule "2.IH"(4), (use brace sc False "2.prems"(2) in simp_all))
    qed
  next
    case name
    obtain n after where sc: "scan_name name_char 255 rest = (n, after)" by fastforce
    with name show ?thesis
      by (simp add: step del: One_nat_def)
        (rule then_holds [OF put(3)], rule "2.IH"(5), (use name sc "2.prems"(2) in simp_all))
  next
    case lone
    then show ?thesis
      by (simp add: step del: One_nat_def)
        (rule then_holds [OF put(1)], rule "2.IH"(6), (use lone "2.prems"(2) in simp_all))
  qed
qed simp

section \<open>One word\<close>

lemma init_holds:
  assumes "heap_inv h"
  obtains (no_memory) "m_sb_init A h = (None, request h)"
  | (buffer) sb h1 where "malloc_ok A (requests h) 64" "m_sb_init A h = (Some sb, h1)"
      "holds (blocks h) sb \<lparr>sb_data = [], sb_cap = 64\<rparr> h1"
proof (cases "malloc_ok A (requests h) 64")
  case True
  let ?h = "request (put_block (requests h) (Some (replicate 64 None)) h)"
  have "holds (blocks h) \<lparr>m_data = requests h, m_len = 0, m_cap = 64\<rparr> \<lparr>sb_data = [], sb_cap = 64\<rparr> ?h"
    using assms by (simp add: holds_def sb_inv_def heap_invD)
  then show ?thesis
    using True by (intro buffer [of "\<lparr>m_data = requests h, m_len = 0, m_cap = 64\<rparr>" ?h])
      (simp_all add: m_sb_init_def m_malloc_def)
next
  case False
  then show ?thesis by (intro no_memory) (simp add: m_sb_init_def m_malloc_def)
qed

text \<open>The assumptions on the environment of an expansion.\<close>

definition expandable :: "allocator \<Rightarrow> (string \<rightharpoonup> string) \<Rightarrow> int \<Rightarrow> bool" where
  "expandable A env status \<longleftrightarrow> (\<forall>r n. realloc_ok A r n) \<and> is_int32 status \<and> env_ok env"

lemma variables_cases:
  assumes "heap_inv h" "expandable A env status" "is_cstr input"
  obtains (no_memory) "\<not> malloc_ok A (requests h) 64" "m_expand_variables A env status input h = Some (Null, request h)"
  | (word) a h1 where "m_expand_variables A env status input h = Some (Block a, h1)" "adds h [Block a] h1"
      "m_string buf h1 (Block a) = Some (expansion env status input)"
proof -
  have A: "realloc_ok A r n = True" for r n using assms(2) by (simp add: expandable_def)
  from assms(1) show ?thesis
  proof (cases rule: init_holds [where A = A])
    case no_memory
    moreover then have "\<not> malloc_ok A (requests h) 64" by (auto simp: m_sb_init_def m_malloc_def split: if_splits)
    ultimately show ?thesis using that(1) by (simp add: m_expand_variables_def)
  next
    case (buffer sb h1)
    let ?s = "expand_loop (\<lambda>_. True) env status \<lparr>sb_data = [], sb_cap = 64\<rparr> input"
    obtain sb1 h2 where l: "m_expand_loop A env status sb input h1 = Some (sb1, h2)" "holds (blocks h) sb1 ?s h2"
      using loop_holds [OF buffer(3) A] by blast
    obtain ok sb2 h3 where p: "m_sb_putc A sb1 NUL h2 = Some (ok, sb2, h3)"
      "holds (blocks h) sb2 (snd (sb_putc (\<lambda>_. True) ?s NUL)) h3"
      using putc_holds [OF l(2) A] by blast
    have data: "sb_data (snd (sb_putc (\<lambda>_. True) ?s NUL)) = expansion env status input @ [NUL]"
      using assms(2) expand_loop_expansion [where mem = "\<lambda>_. True"] by (simp add: expandable_def)
    obtain n where b: "blocks h3 = (blocks h)(m_data sb2 \<mapsto> map Some (expansion env status input @ [NUL]) @ replicate n None)"
      using p(2) by (simp add: holds_def data)
    have "adds h [Block (m_data sb2)] h3"
      using p(2) by (intro addsI [OF assms(1) _ _ b]) (simp_all add: holds_def)
    moreover have "is_cstr (expansion env status input)"
      using is_cstr_expansion assms(2,3) by (simp add: expandable_def)
    then have "m_string buf h3 (Block (m_data sb2)) = Some (expansion env status input)"
      using read_bytes_string [of _ "[]"] by (simp add: b)
    ultimately show ?thesis using that(2) buffer(2) l(1) p(1) by (simp add: m_expand_variables_def)
  qed
qed

text \<open>Words as they come from the parser: pointers into the line's buffer.\<close>

definition line_word :: "char list \<Rightarrow> pointer \<Rightarrow> bool" where
  "line_word buf p \<longleftrightarrow> (\<exists>q s. p = Line q \<and> read_bytes (map Some (drop q buf)) = Some s)"

lemma read_bytes_cstr: "read_bytes bs = Some s \<Longrightarrow> is_cstr s"
  by (induction bs arbitrary: s rule: read_bytes.induct) (auto simp: is_cstr_def split: if_splits)

lemma m_string_cstr: "m_string buf h p = Some s \<Longrightarrow> is_cstr s"
  by (cases p) (auto dest: read_bytes_cstr split: option.splits)

lemma line_wordE:
  assumes "line_word buf p"
  obtains s where "\<And>h. m_string buf h p = Some s" "is_cstr s" "p \<noteq> Null"
  using assms read_bytes_cstr by (auto simp: line_word_def)

text \<open>The allocator that has memory for every request, and paths that are C strings.\<close>

definition ample :: "allocator \<Rightarrow> (string \<Rightarrow> string list option) \<Rightarrow> bool" where
  "ample A glob \<longleftrightarrow> (\<forall>r n. malloc_ok A r n) \<and> (\<forall>s ps. glob s = Some ps \<longrightarrow> list_all is_cstr ps)"

lemma word_owned:
  assumes h: "heap_inv h" and A: "expandable A env status" and p: "line_word buf p"
  shows "\<exists>p' h'. m_expand_word A glob env status buf p h = Some (p', h') \<and> adds h [p'] h' \<and>
    (ample A glob \<longrightarrow> m_string buf h' p' = expand_word (\<lambda>_. True) glob env status (the (m_string buf h p)))"
proof -
  obtain s where s: "m_string buf h p = Some s" "is_cstr s" using line_wordE [OF p] by metis
  have ev: "expand_variables (\<lambda>_. True) env status s = Some (expansion env status s @ [NUL])"
    "is_cstr (expansion env status s)"
    using A s(2) is_cstr_expansion by (simp_all add: expand_variables_ok expandable_def)
  note dw = m_expand_word_def s(1)
  from h A s(2) show ?thesis
  proof (cases rule: variables_cases [where buf = buf])
    case no_memory
    moreover have "adds h [Null] (request h)" using adds_Null [of h "[]"] adds_refl [OF h] adds_request by simp
    ultimately show ?thesis by (auto simp: dw ample_def)
  next
    case (word a h1)
    let ?w = "expansion env status s"
    show ?thesis
    proof (cases "has_glob ?w \<and> (\<exists>path ps. glob ?w = Some (path # ps))")
      case True
      then obtain path ps where g: "has_glob ?w" "glob ?w = Some (path # ps)" by blast
      obtain p' h2 where sd: "m_strdup A path h1 = (p', h2)" by fastforce
      have h1: "heap_inv h1" using word(2) by (simp add: adds_def)
      have c: "adds h1 [p'] h2" "ample A glob \<Longrightarrow> m_string buf h2 p' = Some path"
        using strdup_owned [OF h1 sd] g(2) by (auto simp: ample_def list_all_iff)
      have "adds h ([p'] @ [Block a]) h2" using adds_perm [OF adds_trans [OF word(2) c(1)]] by simp
      then obtain h3 where f: "m_free (Block a) h2 = Some h3" "adds h [p'] h3" "blocks h3 \<subseteq>\<^sub>m blocks h2"
        using adds_released [of h "[p']" "[Block a]" h2] by (auto split: bind_splits)
      have "m_string buf h3 p' = m_string buf h2 p'" using kept_string [OF f(2,3)] by simp
      then show ?thesis
        using word g sd c f ev by (auto simp: dw expand_word_def strdup_def)
    next
      case False
      then show ?thesis
        using word ev by (auto simp: dw expand_word_def split: option.splits list.splits)
    qed
  qed
qed

section \<open>The arguments of a command\<close>

lemma adds_strings:
  assumes "adds h qs h'" "map (m_string buf h) ps = map Some ss"
  shows "map (m_string buf h') ps = map Some ss"
  using assms(2) by (induction ps arbitrary: ss) (auto intro: adds_string [OF assms(1)])

lemma kept_strings:
  assumes "adds h ps h''" "blocks h'' \<subseteq>\<^sub>m blocks h'" "map (m_string buf h') ps = map Some ss"
  shows "map (m_string buf h'') ps = map Some ss"
  using assms(3) kept_string [OF assms(1,2)] by (metis map_cong)

lemma strdups_owned:
  assumes "heap_inv h" "m_strdups A ss h = (ps, h1)"
  shows "length ps = length ss" "adds h ps h1"
    "(\<And>r n. malloc_ok A r n) \<Longrightarrow> list_all is_cstr ss \<Longrightarrow> map (m_string buf h1) ps = map Some ss"
proof -
  have "length ps = length ss \<and> adds h ps h1 \<and>
    ((\<forall>r n. malloc_ok A r n) \<and> list_all is_cstr ss \<longrightarrow> map (m_string buf h1) ps = map Some ss)"
    using assms
  proof (induction ss arbitrary: h ps)
    case (Cons s ss)
    obtain p h2 where p: "m_strdup A s h = (p, h2)" by fastforce
    note q = strdup_owned [OF Cons.prems(1) p]
    obtain qs h3 where qs: "m_strdups A ss h2 = (qs, h3)" "ps = p # qs" "h1 = h3"
      using Cons.prems(2) p by (auto split: prod.splits)
    have "heap_inv h2" using q(1) by (simp add: adds_def)
    note r = Cons.IH [OF this qs(1) [folded qs(3)]]
    have "adds h ([p] @ qs) h1" using adds_trans [OF q(1)] r by blast
    moreover have "m_string buf h1 p = Some s" if "\<forall>r n. malloc_ok A r n" "is_cstr s"
      using adds_string q(2) that r by blast
    ultimately show ?case using r qs(2) by auto
  qed (simp add: adds_refl)
  then show "length ps = length ss" "adds h ps h1"
    "(\<And>r n. malloc_ok A r n) \<Longrightarrow> list_all is_cstr ss \<Longrightarrow> map (m_string buf h1) ps = map Some ss" by blast+
qed

text \<open>
  What a run of the loop over the arguments gives: the new words are owned, there are at most
  MAX\_ARGS - 1 of them, and with enough memory they are the strings Expand computes.
\<close>

definition args_result ::
  "allocator \<Rightarrow> (string \<Rightarrow> string list option) \<Rightarrow> char list \<Rightarrow> heap \<Rightarrow> (pointer list \<times> heap) option \<Rightarrow> string option list \<Rightarrow> bool" where
  "args_result A glob buf h res ref \<longleftrightarrow> (\<exists>new_args h'. res = Some (new_args, h') \<and>
     adds h new_args h' \<and> length new_args \<le> MAX_ARGS - 1 \<and>
     (ample A glob \<longrightarrow> map (m_string buf h') new_args = ref))"

lemma args_result_ref:
  "args_result A glob buf h res ref \<Longrightarrow> (ample A glob \<Longrightarrow> ref' = ref) \<Longrightarrow> args_result A glob buf h res ref'"
  by (auto simp: args_result_def)

text \<open>The copies of what a pattern matches take the place of the pattern.\<close>

lemma paths_owned:
  assumes "adds h0 new_args h" "adds h [Block a] h1" "m_strdups A (take n paths) h1 = (cs, h2)"
    and "ample A glob \<Longrightarrow> map (m_string buf h1) new_args = map Some strs" "glob w = Some paths"
  shows "\<exists>h3. m_free (Block a) h2 = Some h3 \<and> adds h0 (new_args @ cs) h3 \<and>
    (ample A glob \<longrightarrow> map (m_string buf h3) (new_args @ cs) = map Some (strs @ take n paths))"
proof -
  have "heap_inv h1" using assms(2) by (simp add: adds_def)
  note q = strdups_owned [OF this assms(3)]
  have "adds h0 (new_args @ ([Block a] @ cs)) h2"
    using adds_trans [OF assms(1) adds_trans [OF assms(2) q(2)]] .
  then have "adds h0 ((new_args @ cs) @ [Block a]) h2" by (rule adds_perm) simp
  from adds_released [OF this] obtain h3 where f: "m_free (Block a) h2 = Some h3"
    "adds h0 (new_args @ cs) h3" "blocks h3 \<subseteq>\<^sub>m blocks h2" by (auto split: bind_splits)
  have "map (m_string buf h3) (new_args @ cs) = map Some (strs @ take n paths)" if "ample A glob"
  proof (rule kept_strings [OF f(2,3)])
    have "list_all is_cstr (take n paths)"
      using that assms(5) by (auto simp: ample_def list_all_iff dest: in_set_takeD)
    then show "map (m_string buf h2) (new_args @ cs) = map Some (strs @ take n paths)"
      using adds_strings [OF q(2) assms(4) [OF that]] q(3) that by (simp add: ample_def)
  qed
  then show ?thesis using f(1,2) by blast
qed

text \<open>One turn of the loop while there is room: it adds some words, none when there is no memory.\<close>

lemma args_turn:
  assumes A: "expandable A env status" and s: "\<And>h. m_string buf h p = Some s" "is_cstr s"
    and new: "adds h0 new_args h" "length new_args < MAX_ARGS - 1"
      "ample A glob \<Longrightarrow> map (m_string buf h) new_args = map Some strs"
  obtains cs ws h' where "adds h0 (new_args @ cs) h'" "length (new_args @ cs) \<le> MAX_ARGS - 1"
    "m_expand_args A glob env status buf (p # ps) new_args h =
       m_expand_args A glob env status buf ps (new_args @ cs) h'"
    "ample A glob \<Longrightarrow> map (m_string buf h') (new_args @ cs) = map Some (strs @ ws)"
    "ample A glob \<Longrightarrow> expand_args (\<lambda>_. True) glob env status (s # ss) (map Some strs) =
       expand_args (\<lambda>_. True) glob env status ss (map Some (strs @ ws))"
proof -
  let ?w = "expansion env status s" and ?room = "MAX_ARGS - 1 - length new_args"
  have h: "heap_inv h" using new(1) by (simp add: adds_def)
  have len: "length strs < MAX_ARGS - 1" "length strs = length new_args" if "ample A glob"
    using new(2) arg_cong [OF new(3) [OF that], of length] by simp_all
  have ev: "expand_variables (\<lambda>_. True) env status s = Some (?w @ [NUL])" "is_cstr ?w"
    using A s(2) is_cstr_expansion by (simp_all add: expand_variables_ok expandable_def)
  from h A s(2) show thesis
  proof (cases rule: variables_cases [where buf = buf])
    case no_memory
    then have "\<not> ample A glob" by (auto simp: ample_def)
    then show thesis using that [of "[]" "request h"] adds_request [OF new(1)] new(2) no_memory(2) s(1) by simp
  next
    case (word a h1)
    have strs: "map (m_string buf h1) new_args = map Some strs" if "ample A glob"
      using adds_strings [OF word(2) new(3) [OF that]] .
    show thesis
    proof (cases "\<exists>paths. has_glob ?w \<and> glob ?w = Some paths")
      case True
      then obtain paths where g: "has_glob ?w" "glob ?w = Some paths" by blast
      obtain cs h2 where cs: "m_strdups A (take ?room paths) h1 = (cs, h2)" by fastforce
      have "length cs \<le> ?room" using strdups_owned(1) [OF _ cs] word(2) by (simp add: adds_def)
      moreover obtain h3 where f: "m_free (Block a) h2 = Some h3" "adds h0 (new_args @ cs) h3"
        "ample A glob \<Longrightarrow> map (m_string buf h3) (new_args @ cs) = map Some (strs @ take ?room paths)"
        using paths_owned [where glob = glob and w = ?w, OF new(1) word(2) cs strs g(2)] by blast
      ultimately show thesis
        using new(2) s(1) word(1,3) g cs len
        by (intro that [OF f(2) _ _ f(3)]) (simp_all add: ev strdup_def [abs_def])
    next
      case False
      show thesis
        using new(2) s(1) word(1,3) False len strs
        by (intro that [OF adds_trans [OF new(1) word(2)], of "[?w]"]) (auto simp: ev Let_def split: option.split)
    qed
  qed
qed

lemma args_owned:
  assumes A: "expandable A env status"
    and words: "list_all (line_word buf) ps" "list_all2 (\<lambda>p s. \<forall>h. m_string buf h p = Some s) ps ss"
    and new: "adds h0 new_args h" "length new_args \<le> MAX_ARGS - 1"
      "ample A glob \<Longrightarrow> map (m_string buf h) new_args = map Some strs"
  shows "args_result A glob buf h0 (m_expand_args A glob env status buf ps new_args h)
    (expand_args (\<lambda>_. True) glob env status ss (map Some strs))"
  using words new
proof (induction ps arbitrary: ss new_args h strs)
  case Nil
  then show ?case by (simp add: args_result_def)
next
  case (Cons p ps)
  then obtain s ss' where ss: "ss = s # ss'" "\<And>h. m_string buf h p = Some s" "is_cstr s"
    "list_all (line_word buf) ps" "list_all2 (\<lambda>p s. \<forall>h. m_string buf h p = Some s) ps ss'"
    by (auto simp: list_all2_Cons1 elim!: line_wordE)
  show ?case
  proof (cases "length new_args < MAX_ARGS - 1")
    case True
    obtain cs ws h' where t: "adds h0 (new_args @ cs) h'" "length (new_args @ cs) \<le> MAX_ARGS - 1"
      "m_expand_args A glob env status buf (p # ps) new_args h =
         m_expand_args A glob env status buf ps (new_args @ cs) h'"
      "ample A glob \<Longrightarrow> map (m_string buf h') (new_args @ cs) = map Some (strs @ ws)"
      "ample A glob \<Longrightarrow> expand_args (\<lambda>_. True) glob env status (s # ss') (map Some strs) =
         expand_args (\<lambda>_. True) glob env status ss' (map Some (strs @ ws))"
      using args_turn [where glob = glob and ps = ps and ss = ss', OF A ss(2,3) Cons.prems(3) True Cons.prems(5)] by blast
    show ?thesis unfolding t(3) ss(1) using Cons.IH [OF ss(4,5) t(1,2,4)] t(5) by (rule args_result_ref)
  next
    case False
    moreover have "length strs = length new_args" if "ample A glob"
      using arg_cong [OF Cons.prems(5) [OF that], of length] by simp
    ultimately show ?thesis using Cons.prems(3-5) by (auto simp: args_result_def ss(1))
  qed
qed

section \<open>Commands\<close>

text \<open>A command as the parser leaves it, and the command of strings that its pointers read as.\<close>

definition line_command :: "char list \<Rightarrow> m_command \<Rightarrow> bool" where
  "line_command buf cmd \<longleftrightarrow> m_argc cmd \<le> length (m_args cmd) \<and>
     list_all (line_word buf) (take (m_argc cmd) (m_args cmd)) \<and>
     list_all (\<lambda>p. p = Null \<or> line_word buf p) (m_args cmd @ [m_input cmd, m_output cmd])"

definition reads :: "char list \<Rightarrow> heap \<Rightarrow> m_command \<Rightarrow> command_t \<Rightarrow> bool" where
  "reads buf h mc cmd \<longleftrightarrow> m_argc mc = argc cmd \<and> map (m_string buf h) (m_args mc) = args cmd \<and>
     m_string buf h (m_input mc) = input_file cmd \<and> m_string buf h (m_output mc) = output_file cmd"

text \<open>What a command owns once it is expanded.\<close>

definition owned :: "m_command \<Rightarrow> pointer list" where
  "owned cmd = take (m_argc cmd) (m_args cmd) @ [m_input cmd, m_output cmd]"

lemma line_or_Null: "p = Null \<or> line_word buf p \<Longrightarrow> m_string buf h' p = m_string buf h p"
  by (auto simp: line_word_def)

lemma adds_string_iff:
  "adds h ps h' \<Longrightarrow> p = Null \<or> line_word buf p \<or> m_string buf h p \<noteq> None \<Longrightarrow>
     m_string buf h' p = m_string buf h p"
  using adds_string line_or_Null by (metis not_None_eq)

lemma target_owned:
  assumes "heap_inv h" "expandable A env status" "p = Null \<or> line_word buf p"
  shows "\<exists>p' h'. m_expand_target A glob env status buf p h = Some (p', h') \<and> adds h [p'] h' \<and>
    (ample A glob \<longrightarrow> m_string buf h' p' = expand_target (\<lambda>_. True) glob env status (m_string buf h p))"
proof (cases "p = Null")
  case True
  then show ?thesis
    using adds_Null [of h "[]"] adds_refl [OF assms(1)] by (simp add: m_expand_target_def expand_target_def)
next
  case False
  then have p: "line_word buf p" using assms(3) by simp
  obtain s where "m_string buf h p = Some s" using line_wordE [OF p] by metis
  then show ?thesis
    using word_owned [OF assms(1,2) p, of glob] False by (simp add: m_expand_target_def expand_target_def)
qed

text \<open>Expanding the words and the targets on strings is what the new pointers then read as.\<close>

lemma reads_expanded:
  assumes cmd: "line_command buf cmd" and rd: "reads buf h cmd c"
    and new: "map (m_string buf h') new =
      expand_args mem glob env status (map (the \<circ> m_string buf h) (take (m_argc cmd) (m_args cmd))) []"
    and io: "m_string buf h' i = expand_target mem glob env status (m_string buf h (m_input cmd))"
      "m_string buf h' out = expand_target mem glob env status (m_string buf h (m_output cmd))"
  shows "reads buf h' (cmd\<lparr>m_args := new @ [Null] @ drop (length new + 1) (m_args cmd), m_argc := length new,
      m_input := i, m_output := out\<rparr>) (expand_command mem glob env status c)"
proof -
  have args: "args c = map (m_string buf h) (m_args cmd)" "argc c = m_argc cmd" using rd by (simp_all add: reads_def)
  then have "map (m_string buf h') new = expand_args mem glob env status (argv c) []"
    using new by (simp add: argv_def take_map)
  moreover have "m_string buf h' p = m_string buf h p" if "p \<in> set (drop n (m_args cmd))" for p n
    using cmd in_set_dropD [OF that] line_or_Null by (auto simp: line_command_def list_all_iff)
  then have "map (m_string buf h') (drop n (m_args cmd)) = drop n (args c)" for n
    unfolding args(1) drop_map by simp
  ultimately show ?thesis
    using rd io by (simp add: reads_def expand_command_def Let_def flip: length_map [of "m_string buf h'" new])
qed

lemma command_owned:
  assumes h: "heap_inv h" and A: "expandable A env status" and cmd: "line_command buf cmd"
  obtains cmd' h' where "m_expand_command A glob env status buf cmd h = Some (cmd', h')"
    "adds h (owned cmd') h'" "m_argc cmd' \<le> length (m_args cmd')"
    "\<And>c h''. ample A glob \<Longrightarrow> reads buf h cmd c \<Longrightarrow> blocks h' \<subseteq>\<^sub>m blocks h'' \<Longrightarrow>
       reads buf h'' cmd' (expand_command (\<lambda>_. True) glob env status c)"
proof -
  let ?ps = "take (m_argc cmd) (m_args cmd)" and ?e = "\<lambda>_::nat. True"
  let ?ss = "map (the \<circ> m_string buf h) ?ps"
  have ps: "list_all (line_word buf) ?ps" using cmd by (simp add: line_command_def)
  have ss: "list_all2 (\<lambda>p s. \<forall>h. m_string buf h p = Some s) ?ps ?ss"
    unfolding list_all2_map2 list.rel_eq_onp using ps
    by (auto simp: list_all2_same list_all_iff line_word_def)
  obtain new h1 where new: "m_expand_args A glob env status buf ?ps [] h = Some (new, h1)" "adds h new h1"
    "ample A glob \<Longrightarrow> map (m_string buf h1) new = expand_args ?e glob env status ?ss []"
    using args_owned [OF A ps ss adds_refl [OF h], of glob "[]"] by (auto simp: args_result_def)
  have io: "m_input cmd = Null \<or> line_word buf (m_input cmd)" "m_output cmd = Null \<or> line_word buf (m_output cmd)"
    using cmd by (simp_all add: line_command_def)
  have "heap_inv h1" using new(2) by (simp add: adds_def)
  from target_owned [OF this A io(1)] obtain i h2 where
    i: "m_expand_target A glob env status buf (m_input cmd) h1 = Some (i, h2)" "adds h1 [i] h2"
    "ample A glob \<Longrightarrow> m_string buf h2 i = expand_target ?e glob env status (m_string buf h (m_input cmd))"
    unfolding line_or_Null [OF io(1), where h = h1 and h' = h] by blast
  have "heap_inv h2" using i(2) by (simp add: adds_def)
  from target_owned [OF this A io(2)] obtain out h3 where
    out: "m_expand_target A glob env status buf (m_output cmd) h2 = Some (out, h3)" "adds h2 [out] h3"
    "ample A glob \<Longrightarrow> m_string buf h3 out = expand_target ?e glob env status (m_string buf h (m_output cmd))"
    unfolding line_or_Null [OF io(2), where h = h2 and h' = h] by blast
  show ?thesis
  proof (rule that)
    show "m_expand_command A glob env status buf cmd h =
        Some (cmd\<lparr>m_args := new @ [Null] @ drop (length new + 1) (m_args cmd), m_argc := length new,
                m_input := i, m_output := out\<rparr>, h3)" (is "_ = Some (?cmd, _)")
      using new(1) i(1) out(1) by (simp add: m_expand_command_def Let_def)
    show "adds h (owned ?cmd) h3"
      using adds_trans [OF adds_trans [OF new(2) i(2)] out(2)] by (simp add: owned_def)
    show "reads buf h' ?cmd (expand_command ?e glob env status c)"
      if t: "ample A glob" "reads buf h cmd c" "blocks h3 \<subseteq>\<^sub>m blocks h'" for c h'
    proof (rule reads_expanded [OF cmd t(2)])
      have "blocks h1 \<subseteq>\<^sub>m blocks h3" "blocks h2 \<subseteq>\<^sub>m blocks h3"
        using adds_trans [OF i(2) out(2)] out(2) by (simp_all add: adds_def)
      note le = this [THEN map_le_trans, OF t(3)]
      show "map (m_string buf h') new = expand_args ?e glob env status ?ss []"
        using new(3) [OF t(1)] kept_string [OF new(2) le(1)] by (metis map_cong)
      show "m_string buf h' i = expand_target ?e glob env status (m_string buf h (m_input cmd))"
        using i(3) [OF t(1)] kept_string [OF i(2) le(2)] by simp
      show "m_string buf h' out = expand_target ?e glob env status (m_string buf h (m_output cmd))"
        using out(3) [OF t(1)] kept_string [OF out(2) t(3)] by simp
    qed
  qed simp
qed

lemma command_freed:
  assumes "adds h (qs @ owned cmd) h'" "m_argc cmd \<le> length (m_args cmd)"
  shows "\<exists>cmd' h''. m_free_command cmd h' = Some (cmd', h'') \<and> adds h qs h'' \<and>
    m_input cmd' = Null \<and> m_output cmd' = Null \<and> (\<forall>i < m_argc cmd'. m_args cmd' ! i = Null)"
proof -
  obtain h'' where h'': "release_all m_free (owned cmd) h' = Some h''" "adds h qs h''"
    using adds_released [OF assms(1)] by blast
  then show ?thesis
    by (auto simp: m_free_command_def owned_def release_all_append nth_append split: bind_splits)
qed

lemma reads_line: "line_command buf cmd \<Longrightarrow> reads buf h cmd c \<Longrightarrow> reads buf h' cmd c"
  unfolding reads_def line_command_def list_all_iff using line_or_Null [of _ buf h' h]
  by (metis (mono_tags, lifting) Un_iff list.set_intros(1,2) map_eq_conv set_append)

lemma pipeline_owned:
  assumes "expandable A env status" "list_all (line_command buf) cmds" "heap_inv h"
  shows "\<exists>cmds' h'. m_expand_pipeline A glob env status buf cmds h = Some (cmds', h') \<and>
    adds h (concat (map owned cmds')) h' \<and> (\<forall>cmd \<in> set cmds'. m_argc cmd \<le> length (m_args cmd)) \<and>
    (\<forall>cs h''. ample A glob \<and> list_all2 (reads buf h) cmds cs \<and> blocks h' \<subseteq>\<^sub>m blocks h'' \<longrightarrow>
       list_all2 (reads buf h'') cmds' (map (expand_command (\<lambda>_. True) glob env status) cs))"
  using assms(2,3)
proof (induction cmds arbitrary: h)
  case Nil
  then show ?case by (simp add: adds_refl)
next
  case (Cons cmd cmds)
  then have cmd: "line_command buf cmd" "list_all (line_command buf) cmds" by simp_all
  let ?e = "expand_command (\<lambda>_. True) glob env status"
  obtain cmd' h1 where c: "m_expand_command A glob env status buf cmd h = Some (cmd', h1)"
    "adds h (owned cmd') h1" "m_argc cmd' \<le> length (m_args cmd')"
    "\<And>c h''. ample A glob \<Longrightarrow> reads buf h cmd c \<Longrightarrow> blocks h1 \<subseteq>\<^sub>m blocks h'' \<Longrightarrow> reads buf h'' cmd' (?e c)"
    by (rule command_owned [where glob = glob, OF Cons.prems(2) assms(1) cmd(1)], rule that, assumption+)
  have "heap_inv h1" using c(2) by (simp add: adds_def)
  from Cons.IH [OF cmd(2) this] obtain cmds' h2 where p:
    "m_expand_pipeline A glob env status buf cmds h1 = Some (cmds', h2)"
    "adds h1 (concat (map owned cmds')) h2" "\<forall>cmd \<in> set cmds'. m_argc cmd \<le> length (m_args cmd)"
    "\<And>cs h''. ample A glob \<Longrightarrow> list_all2 (reads buf h1) cmds cs \<Longrightarrow> blocks h2 \<subseteq>\<^sub>m blocks h'' \<Longrightarrow>
       list_all2 (reads buf h'') cmds' (map ?e cs)" by blast
  have "list_all2 (reads buf h'') (cmd' # cmds') (map ?e cs)"
    if t: "ample A glob" "list_all2 (reads buf h) (cmd # cmds) cs" "blocks h2 \<subseteq>\<^sub>m blocks h''" for cs h''
  proof -
    obtain c cs' where cs: "cs = c # cs'" "reads buf h cmd c" "list_all2 (reads buf h) cmds cs'"
      using t(2) by (auto simp: list_all2_Cons1)
    have "blocks h1 \<subseteq>\<^sub>m blocks h''" using p(2) t(3) map_le_trans by (auto simp: adds_def)
    moreover have "list_all2 (reads buf h1) cmds cs'"
      using cs(3) cmd(2) by (auto simp: list_all2_conv_all_nth list_all_length intro: reads_line [where h = h])
    ultimately show ?thesis using c(4) [OF t(1) cs(2)] p(4) [OF t(1) _ t(3)] cs(1) by simp
  qed
  then show ?case using c(1,3) p(1,3) adds_trans [OF c(2) p(2)] by simp
qed

lemma pipeline_freed:
  assumes "adds h (concat (map owned cmds)) h'" "\<forall>cmd \<in> set cmds. m_argc cmd \<le> length (m_args cmd)"
  shows "\<exists>cmds' h''. m_free_expansions cmds h' = Some (cmds', h'') \<and> blocks h'' = blocks h \<and> heap_inv h'' \<and>
    (\<forall>cmd \<in> set cmds'. m_input cmd = Null \<and> m_output cmd = Null \<and> (\<forall>i < m_argc cmd. m_args cmd ! i = Null))"
  using assms
proof (induction cmds arbitrary: h')
  case Nil
  then show ?case using adds_all_released [OF Nil.prems(1)] by simp
next
  case (Cons cmd cmds)
  have "adds h (concat (map owned cmds) @ owned cmd) h'" using adds_perm [OF Cons.prems(1)] by simp
  moreover have "m_argc cmd \<le> length (m_args cmd)" using Cons.prems(2) by simp
  ultimately obtain cmd' h1 where c: "m_free_command cmd h' = Some (cmd', h1)" "adds h (concat (map owned cmds)) h1"
    "m_input cmd' = Null" "m_output cmd' = Null" "\<forall>i < m_argc cmd'. m_args cmd' ! i = Null"
    using command_freed by blast
  then show ?case using Cons.IH [OF c(2)] Cons.prems(2) by auto
qed

section \<open>A parsed line\<close>

definition as_pointer :: "nat option \<Rightarrow> pointer" where
  "as_pointer q = (case q of None \<Rightarrow> Null | Some q \<Rightarrow> Line q)"

definition heap_command :: "pcommand \<Rightarrow> m_command" where
  "heap_command cmd = \<lparr>m_args = map as_pointer (p_args cmd), m_argc = p_argc cmd,
     m_input = as_pointer (p_input cmd), m_output = as_pointer (p_output cmd)\<rparr>"

lemma read_bytes_at: "NUL \<in> set (drop q buf) \<Longrightarrow> read_bytes (map Some (drop q buf)) = Some (string_at buf q)"
proof -
  have "NUL \<in> set bs \<Longrightarrow> read_bytes (map Some bs) = Some (cstr bs)" for bs
    by (induction bs) (auto simp: cstr_def)
  then show "NUL \<in> set (drop q buf) \<Longrightarrow> read_bytes (map Some (drop q buf)) = Some (string_at buf q)"
    by (simp add: string_at_def)
qed

lemma parsed_line_words:
  assumes "is_cstr line" "p_parse_pipeline 0 (line @ [NUL]) = (Inr p, buf)"
  defines "stage \<equiv> \<lambda>i. pp_commands p ! i"
  shows "parse_pipeline line = Inr (read_pipeline buf p)"
    and "i < pp_num p \<Longrightarrow> line_command buf (heap_command (stage i))"
    and "i < pp_num p \<Longrightarrow> reads buf h (heap_command (stage i)) (read_command buf (stage i))"
proof -
  have f: "parse_pipeline line = Inr (read_pipeline buf p)" "writes_in 0 (length line) (line @ [NUL]) buf"
    "settled buf (length line) (all_pointers p)"
    using inplace_facts [OF assms(1,2)] by auto
  show "parse_pipeline line = Inr (read_pipeline buf p)" by (rule f)
  have buf: "length buf = length line + 1" "buf ! length line = NUL"
    using f(2) by (fastforce simp: writes_in_def)+
  have word: "m_string buf h (Line q) = Some (string_at buf q)" if "q \<in> all_pointers p" for q h
  proof -
    have "q \<le> length line" using f(3) that unfolding settled_def by fastforce
    then have "NUL \<in> set (drop q buf)"
      using buf nth_mem [of "length line - q" "drop q buf"] by simp
    then show ?thesis by (simp add: read_bytes_at)
  qed
  assume i: "i < pp_num p"
  have inv: "command_inv (read_command buf (stage i))"
    using parse_pipeline_facts(2) [OF f(1)] i
    by (auto simp: pipeline_inv_def stages_def read_pipeline_def stage_def)
  have "stage i \<in> set (pp_commands p)"
    using parse_pipeline_facts(2) [OF f(1)] i
    by (auto simp: pipeline_inv_def read_pipeline_def stage_def)
  then have ptr: "pointers (stage i) \<subseteq> all_pointers p" by (auto simp: all_pointers_def)
  show "reads buf h (heap_command (stage i)) (read_command buf (stage i))"
    using ptr word by (auto simp: reads_def heap_command_def read_command_def as_pointer_def pointers_def split: option.split)
  have lw: "line_word buf (as_pointer q)" if "q \<in> set (p_args (stage i)) \<union> {p_input (stage i), p_output (stage i)}"
      "q \<noteq> None" for q
  proof -
    obtain x where x: "q = Some x" using \<open>q \<noteq> None\<close> by blast
    then have "x \<in> pointers (stage i)" using that(1) by (auto simp: pointers_def intro: bexI [of _ q])
    then show ?thesis using ptr word x by (auto simp: as_pointer_def line_word_def)
  qed
  have io: "q \<in> set (p_args (stage i)) \<union> {p_input (stage i), p_output (stage i)} \<Longrightarrow>
      as_pointer q = Null \<or> line_word buf (as_pointer q)" for q
    using lw [of q] by (cases q) (auto simp: as_pointer_def)
  have len: "p_argc (stage i) < length (p_args (stage i))"
    using inv by (auto simp: command_inv_def read_command_def)
  have "line_word buf (as_pointer (p_args (stage i) ! j))" if "j < p_argc (stage i)" for j
    using inv that len by (intro lw) (auto simp: command_inv_def read_command_def)
  then have "list_all (line_word buf) (take (p_argc (stage i)) (map as_pointer (p_args (stage i))))"
    using len by (simp add: list_all_length)
  moreover have "list_all (\<lambda>p. p = Null \<or> line_word buf p) (map as_pointer (p_args (stage i)))"
    using io by (simp add: list_all_iff)
  ultimately show "line_command buf (heap_command (stage i))"
    using io len by (simp add: line_command_def heap_command_def)
qed

lemma line_memory_facts:
  assumes "is_cstr line" "p_parse_pipeline 0 (line @ [NUL]) = (Inr p, buf)"
    and "expandable A env status" "heap_inv h"
  shows "\<exists>q cmds h1 cmds' h2. parse_pipeline line = Inr q \<and>
    m_expand_pipeline A glob env status buf (map heap_command (take (pp_num p) (pp_commands p))) h = Some (cmds, h1) \<and>
    (ample A glob \<longrightarrow> list_all2 (reads buf h1) cmds (map (expand_command (\<lambda>_. True) glob env status) (stages q))) \<and>
    m_free_expansions cmds h1 = Some (cmds', h2) \<and> blocks h2 = blocks h \<and> heap_inv h2 \<and>
    (\<forall>cmd \<in> set cmds'. m_input cmd = Null \<and> m_output cmd = Null \<and> (\<forall>i < m_argc cmd. m_args cmd ! i = Null))"
proof -
  let ?cmds = "map heap_command (take (pp_num p) (pp_commands p))"
  note l = parsed_line_words [OF assms(1,2)]
  have st: "stages (read_pipeline buf p) = map (read_command buf) (take (pp_num p) (pp_commands p))"
    by (simp add: stages_def read_pipeline_def take_map)
  have "list_all (line_command buf) ?cmds" using l(2) by (auto simp: list_all_length)
  from pipeline_owned [OF assms(3) this assms(4), of glob] obtain cmds h1 where
    e: "m_expand_pipeline A glob env status buf ?cmds h = Some (cmds, h1)"
      "adds h (concat (map owned cmds)) h1" "\<forall>cmd \<in> set cmds. m_argc cmd \<le> length (m_args cmd)"
      "\<And>cs. ample A glob \<Longrightarrow> list_all2 (reads buf h) ?cmds cs \<Longrightarrow>
        list_all2 (reads buf h1) cmds (map (expand_command (\<lambda>_. True) glob env status) cs)"
    by (metis map_le_refl)
  have "list_all2 (reads buf h) ?cmds (stages (read_pipeline buf p))"
    unfolding st using l(3) by (auto simp: list_all2_conv_all_nth)
  then show ?thesis using l(1) e(1,4) pipeline_freed [OF e(2,3)] by metis
qed

text \<open>C11: for every line that parses, with the parser's pointers into the line's own buffer: if every
  realloc succeeds, expanding and freeing its pipeline reads and writes only inside live blocks,
  frees each block once and no pointer into the line, leaves the heap as it was and no dangling
  pointer in the commands; and if every request succeeds, the pointers of the expanded commands read as the
  strings that the models on strings compute from the line.\<close>

theorem line_memory:
  assumes "is_cstr line" "p_parse_pipeline 0 (line @ [NUL]) = (Inr p, buf)"
    and "expandable A env status" "heap_inv h"
  shows "\<exists>q cmds h1 cmds' h2. parse_pipeline line = Inr q \<and>
    m_expand_pipeline A glob env status buf (map heap_command (take (pp_num p) (pp_commands p))) h = Some (cmds, h1) \<and>
    (ample A glob \<longrightarrow> list_all2 (reads buf h1) cmds (map (expand_command (\<lambda>_. True) glob env status) (stages q))) \<and>
    m_free_expansions cmds h1 = Some (cmds', h2) \<and> blocks h2 = blocks h \<and>
    (\<forall>cmd \<in> set cmds'. m_input cmd = Null \<and> m_output cmd = Null \<and> (\<forall>i < m_argc cmd. m_args cmd ! i = Null))"
  using line_memory_facts [OF assms, of glob] by blast

text \<open>An allocator that never refuses, and an empty heap.\<close>

definition sample_allocator :: allocator where
  "sample_allocator = \<lparr>malloc_ok = \<lambda>_ _. True, realloc_ok = \<lambda>_ _. True\<rparr>"

definition sample_heap :: heap where
  "sample_heap = \<lparr>blocks = Map.empty, requests = 0\<rparr>"

lemma sample_memory:
  "expandable sample_allocator [''A'' \<mapsto> ''b''] 0" "heap_inv sample_heap"
  by (simp_all add: expandable_def sample_allocator_def heap_inv_def sample_heap_def is_int32_def env_ok_def is_cstr_def)

theorem line_memory_witness:
  "\<exists>p buf cmds h1 cmds' h2. p_parse_pipeline 0 (''echo $A > *.c'' @ [NUL]) = (Inr p, buf) \<and>
     m_expand_pipeline sample_allocator (\<lambda>s. Some [''a.c'', ''b.c'']) [''A'' \<mapsto> ''b''] 0 buf
       (map heap_command (take (pp_num p) (pp_commands p))) sample_heap = Some (cmds, h1) \<and>
     m_free_expansions cmds h1 = Some (cmds', h2) \<and> blocks h2 = Map.empty"
proof -
  have "isl (fst (p_parse_pipeline 0 (''echo $A > *.c'' @ [NUL]))) = False" by code_simp
  then obtain p buf where p: "p_parse_pipeline 0 (''echo $A > *.c'' @ [NUL]) = (Inr p, buf)"
    by (metis isl_def prod.collapse sum.collapse(2))
  have "is_cstr ''echo $A > *.c''" by code_simp
  from line_memory [OF this p sample_memory, of "\<lambda>s. Some [''a.c'', ''b.c'']"] show ?thesis
    using p by (auto simp: sample_heap_def)
qed

section \<open>Where it fails\<close>

lemma full_buffer:
  assumes "CHR ''$'' \<notin> set w"
  shows "sb_data (expand_loop (\<lambda>_. False) env status s w) = sb_data s @ take (sb_cap s - 1 - sb_len s) w"
    and "sb_cap (expand_loop (\<lambda>_. False) env status s w) = sb_cap s"
  using assms
  by (induction w arbitrary: s)
    (auto simp: expand_loop.simps(2) sb_putc_def take_Cons' Suc_diff_Suc not_less_eq_eq)

text \<open>C39: with an allocator that grants the first 64 bytes and no more, expanding a word of 63 or
  more characters without a dollar sign reads past the end of its block: the terminator was never
  written, and the search for pattern characters runs beyond what is set.\<close>

theorem unterminated_word:
  assumes "heap_inv h" "malloc_ok A (requests h) 64" "\<And>r n. \<not> realloc_ok A r n"
    and "m_string buf h p = Some w" "63 \<le> length w" "CHR ''$'' \<notin> set w"
  shows "m_expand_args A glob env status buf (p # ps) [] h = None"
proof -
  obtain sb h1 where sb: "m_sb_init A h = (Some sb, h1)" "holds (blocks h) sb \<lparr>sb_data = [], sb_cap = 64\<rparr> h1"
    using assms(1,2) by (cases rule: init_holds [where A = A]) (auto simp: m_sb_init_def m_malloc_def)
  have A: "realloc_ok A r n = False" for r n using assms(3) by simp
  let ?s = "expand_loop (\<lambda>_. False) env status \<lparr>sb_data = [], sb_cap = 64\<rparr> w"
  have s: "sb_data ?s = take 63 w" "sb_cap ?s = 64" using full_buffer [OF assms(6)] by simp_all
  obtain sb1 h2 where l: "m_expand_loop A env status sb w h1 = Some (sb1, h2)" "holds (blocks h) sb1 ?s h2"
    using loop_holds [OF sb(2) A] by blast
  obtain ok sb2 h3 where p: "m_sb_putc A sb1 NUL h2 = Some (ok, sb2, h3)"
    "holds (blocks h) sb2 (snd (sb_putc (\<lambda>_. False) ?s NUL)) h3"
    using putc_holds [OF l(2) A] by blast
  have "snd (sb_putc (\<lambda>_. False) ?s NUL) = ?s" using s assms(5) by (simp add: sb_putc_def)
  then have "blocks h3 (m_data sb2) = Some (map Some (take 63 w) @ replicate 1 None)"
    using p(2) s assms(5) by (simp add: holds_def)
  moreover have "NUL \<notin> set (take 63 w)"
    using m_string_cstr [OF assms(4)] by (auto simp: is_cstr_def dest: in_set_takeD)
  ultimately have "m_string buf h3 (Block (m_data sb2)) = None"
    using read_bytes_run [of "take 63 w" 1] by simp
  then show ?thesis
    using sb(1) l(1) p(1) assms(4) by (simp add: m_expand_variables_def MAX_ARGS_def)
qed

theorem unterminated_word_witness:
  "m_expand_args \<lparr>malloc_ok = \<lambda>_ _. True, realloc_ok = \<lambda>_ _. False\<rparr> (\<lambda>s. None) Map.empty 0
     (replicate 63 (CHR ''a'') @ [NUL]) [Line 0] [] sample_heap = None"
proof (rule unterminated_word)
  show "m_string (replicate 63 (CHR ''a'') @ [NUL]) sample_heap (Line 0) = Some (replicate 63 (CHR ''a''))"
    by code_simp
qed (simp_all add: sample_memory)

end
