(* ===== verification/Owned_History.thy ===== *)
theory Owned_History
  imports History Owned_Words
begin

text \<open>
  The history on the heap (history.c), and the memory of a session: the ring owns the copies it
  holds, an overwritten copy is freed, and the end frees them all. Together with the expansions
  of each line this gives that a session leaves nothing behind.
\<close>

section \<open>The code on memory\<close>

record m_history_t =
  m_entries :: "pointer list"
  m_size :: int
  m_next :: int
  m_total :: int

definition m_history_zero :: m_history_t where
  "m_history_zero = \<lparr>m_entries = replicate (nat HISTORY_CAPACITY) Null, m_size = 0, m_next = 0, m_total = 0\<rparr>"

definition m_load :: "nat \<Rightarrow> nat \<Rightarrow> heap \<Rightarrow> char option" where
  "m_load a i h = (case blocks h a of None \<Rightarrow> None | Some bs \<Rightarrow> if i < length bs then bs ! i else None)"

text \<open>The loop that cuts the white space off the end of the copy.\<close>

fun m_trim :: "nat \<Rightarrow> nat \<Rightarrow> heap \<Rightarrow> heap option" where
  "m_trim a 0 h = Some h"
| "m_trim a (Suc n) h = do {
     c \<leftarrow> m_load a n h;
     if isspace c then do { h1 \<leftarrow> m_store a n NUL h; m_trim a n h1 } else Some h
   }"

definition m_history_add :: "allocator \<Rightarrow> m_history_t \<Rightarrow> string option \<Rightarrow> heap \<Rightarrow> (m_history_t \<times> heap) option" where
  "m_history_add A hist line h =
     (case line of
        None \<Rightarrow> Some (hist, h)
      | Some s \<Rightarrow>
          if is_blank s then Some (hist, h)
          else (case m_strdup A s h of
                  (Block a, h1) \<Rightarrow> do {
                    len \<leftarrow> map_option length (m_string [] h1 (Block a));
                    h2 \<leftarrow> m_trim a len h1;
                    h3 \<leftarrow> m_free (m_entries hist ! nat (m_next hist)) h2;
                    Some (hist\<lparr>m_entries := (m_entries hist)[nat (m_next hist) := Block a],
                               m_next := (m_next hist + 1) smod HISTORY_CAPACITY,
                               m_size := (if m_size hist < HISTORY_CAPACITY then m_size hist + 1 else m_size hist),
                               m_total := m_total hist + 1\<rparr>, h3)
                  }
                | (_, h1) \<Rightarrow> Some (hist, h1)))"

definition m_history_free :: "m_history_t \<Rightarrow> heap \<Rightarrow> (m_history_t \<times> heap) option" where
  "m_history_free hist h = do {
     h1 \<leftarrow> release_all m_free (m_entries hist) h;
     Some (hist\<lparr>m_entries := map (\<lambda>_. Null) (m_entries hist), m_size := 0, m_next := 0, m_total := 0\<rparr>, h1)
   }"

section \<open>The ring owns its copies\<close>

text \<open>The ring as its pointers read, and what it owns besides the heap it started in.\<close>

definition ring :: "heap \<Rightarrow> m_history_t \<Rightarrow> history_t" where
  "ring h hist = \<lparr>entries = map (m_string [] h) (m_entries hist), hist_size = m_size hist,
     hist_next = m_next hist, hist_total = m_total hist\<rparr>"

definition ring_owned :: "heap \<Rightarrow> m_history_t \<Rightarrow> heap \<Rightarrow> bool" where
  "ring_owned h0 hist h \<longleftrightarrow> adds h0 (m_entries hist) h \<and> history_inv (ring h hist)"

lemma ring_zero: "ring h m_history_zero = history_zero"
  by (simp add: ring_def m_history_zero_def history_zero_def)

lemma adds_replicate_Null: "adds h (replicate n Null) h \<longleftrightarrow> heap_inv h"
  by (induction n) (auto simp: adds_def)

lemma ring_owned_zero: "heap_inv h \<Longrightarrow> ring_owned h m_history_zero h"
  by (simp add: ring_owned_def ring_zero history_inv_zero)
    (simp add: m_history_zero_def adds_replicate_Null)

text \<open>A block that is owned may be written.\<close>

lemma adds_written:
  assumes "adds h ps h'" "a \<in> set (addresses ps)"
  shows "adds h ps (put_block a (Some bs) h')"
proof -
  have "a \<in> dom (blocks h')" "a \<notin> dom (blocks h)" using assms by (auto simp: adds_def)
  moreover from this(1) have "a < requests h'" using assms(1) by (auto simp: adds_def heap_inv_def)
  ultimately show ?thesis using assms(1) by (auto simp: adds_def map_le_def)
qed

text \<open>The bytes of the copy while it is cut down to \<open>n\<close> characters.\<close>

definition cut_bytes :: "string \<Rightarrow> nat \<Rightarrow> bytes" where
  "cut_bytes s n = map Some (take n s @ replicate (length s + 1 - n) NUL)"

lemma cut_step: "n < length s \<Longrightarrow> (cut_bytes s (Suc n))[n := Some NUL] = cut_bytes s n"
  by (rule nth_equalityI) (auto simp: cut_bytes_def nth_append nth_list_update)

lemma m_trim_cut:
  assumes "blocks h a = Some (cut_bytes s n)" "n \<le> length s"
  shows "m_trim a n h = Some (put_block a (Some (cut_bytes s (trim_len s n))) h)"
  using assms
proof (induction n arbitrary: h)
  case 0
  then show ?case by (simp add: put_block_def map_upd_triv)
next
  case (Suc n)
  have c: "m_load a n h = Some (s ! n)"
    using Suc.prems by (simp add: m_load_def cut_bytes_def nth_append)
  have st: "m_store a n NUL h = Some (put_block a (Some (cut_bytes s n)) h)"
    using Suc.prems cut_step [of n s] by (simp add: m_store_def cut_bytes_def)
  have "put_block a bs (put_block a cs h) = put_block a bs h" for bs cs
    by (simp add: put_block_def)
  then show ?case
    using Suc.IH [of "put_block a (Some (cut_bytes s n)) h"] Suc.prems c st
    by (simp add: put_block_def map_upd_triv)
qed

lemma read_cut:
  assumes "is_cstr s" "n \<le> length s"
  shows "read_bytes (cut_bytes s n) = Some (take n s)"
proof -
  have "is_cstr (take n s)" using assms(1) by (auto simp: is_cstr_def dest: in_set_takeD)
  moreover have "cut_bytes s n = map Some (take n s @ NUL # replicate (length s - n) NUL) @ []"
    using assms(2) by (simp add: cut_bytes_def Suc_diff_le)
  ultimately show ?thesis using read_bytes_string by metis
qed

lemma strdup_new:
  assumes "heap_inv h"
  obtains (none) "\<not> malloc_ok A (requests h) (length s + 1)" "m_strdup A s h = (Null, request h)"
  | (copy) a h1 where "malloc_ok A (requests h) (length s + 1)" "m_strdup A s h = (Block a, h1)"
      "adds h [Block a] h1" "blocks h1 a = Some (cut_bytes s (length s))"
proof (cases "malloc_ok A (requests h) (length s + 1)")
  case True
  obtain p h1 where d: "m_strdup A s h = (p, h1)" by fastforce
  then have "p = Block (requests h)" "blocks h1 (requests h) = Some (cut_bytes s (length s))"
    using True by (auto simp: m_strdup_def m_malloc_def cut_bytes_def)
  then show ?thesis using copy True d strdup_owned(1) [OF assms d] by blast
next
  case False
  then show ?thesis by (intro none) (simp_all add: m_strdup_def m_malloc_def)
qed

lemma slot_replaced:
  assumes "adds h0 es h" "adds h [Block a] h2" "n < length es"
  obtains h3 where "m_free (es ! n) h2 = Some h3" "adds h0 (es[n := Block a]) h3"
    "map (m_string buf h3) (es[n := Block a]) = (map (m_string buf h) es)[n := m_string buf h2 (Block a)]"
proof -
  have "mset (es @ [Block a]) = mset (es[n := Block a] @ [es ! n])"
    using assms(3) by (simp add: mset_update)
  then have "adds h0 (es[n := Block a] @ [es ! n]) h2"
    using adds_perm [OF adds_trans [OF assms(1,2)]] by blast
  from adds_released [OF this] obtain h3 where f: "m_free (es ! n) h2 = Some h3"
    "adds h0 (es[n := Block a]) h3" "blocks h3 \<subseteq>\<^sub>m blocks h2" by (auto split: bind_splits)
  have "blocks h \<subseteq>\<^sub>m blocks h2" using assms(2) by (simp add: adds_def)
  then have old: "map (m_string buf h) es = map (m_string buf h2) es"
    using kept_string [OF assms(1)] by simp
  have "map (m_string buf h3) (es[n := Block a]) = map (m_string buf h2) (es[n := Block a])"
    using kept_string [OF f(2,3)] by simp
  then have "map (m_string buf h3) (es[n := Block a]) = (map (m_string buf h) es)[n := m_string buf h2 (Block a)]"
    unfolding old map_update .
  then show ?thesis by (rule that [OF f(1,2)])
qed

text \<open>Recording a line is what History does, and keeps the ownership.\<close>

lemma m_history_add_owned:
  assumes own: "ring_owned h0 hist h" and s: "is_cstr s"
  shows "\<exists>hist' h'. m_history_add A hist (Some s) h = Some (hist', h') \<and> ring_owned h0 hist' h' \<and>
    ring h' hist' = history_add (malloc_ok A (requests h) (length s + 1)) (ring h hist) (Some s)"
proof -
  have es: "adds h0 (m_entries hist) h" and inv: "history_inv (ring h hist)" and h: "heap_inv h"
    using own by (auto simp: ring_owned_def adds_def)
  let ?n = "nat (m_next hist)"
  have n: "?n < length (m_entries hist)" using inv by (auto simp: history_inv_def ring_def)
  show ?thesis
  proof (cases "is_blank s")
    case True
    then show ?thesis using own by (simp add: m_history_add_def history_add_def)
  next
    case line: False
    from h show ?thesis
    proof (cases rule: strdup_new [where A = A and s = s])
      case none
      then show ?thesis
        using own line by (simp add: m_history_add_def history_add_def ring_owned_def ring_def adds_request)
    next
      case (copy a h1)
      let ?s = "trim_trailing s" and ?m = "m_entries hist"
      let ?h2 = "put_block a (Some (cut_bytes s (trim_len s (length s)))) h1"
      have len: "m_string [] h1 (Block a) = Some s" using read_cut [OF s, of "length s"] copy(4) by simp
      have read: "m_string [] ?h2 (Block a) = Some ?s"
        using read_cut [OF s trim_len_le] by (simp add: trim_trailing_def)
      have "adds h [Block a] ?h2" using adds_written [OF copy(3)] by simp
      then obtain h3 where f: "m_free (?m ! ?n) ?h2 = Some h3" "adds h0 (?m[?n := Block a]) h3"
        "map (m_string [] h3) (?m[?n := Block a]) = (map (m_string [] h) ?m)[?n := m_string [] ?h2 (Block a)]"
        by (rule slot_replaced [where buf = "[]", OF es _ n])
      have trim: "m_trim a (length s) h1 = Some ?h2" by (rule m_trim_cut [OF copy(4)]) simp
      let ?hist = "hist\<lparr>m_entries := ?m[?n := Block a], m_next := (m_next hist + 1) smod HISTORY_CAPACITY,
        m_size := (if m_size hist < HISTORY_CAPACITY then m_size hist + 1 else m_size hist),
        m_total := m_total hist + 1\<rparr>"
      have "m_history_add A hist (Some s) h = Some (?hist, h3)"
        using copy(2) len line f(1) trim by (simp add: m_history_add_def)
      moreover have ring: "ring h3 ?hist = history_add True (ring h hist) (Some s)"
        using f(3) read line by (simp add: ring_def history_add_def)
      moreover have "ring_owned h0 ?hist h3"
        unfolding ring_owned_def ring using f(2) history_add_inv [OF inv] by simp
      ultimately show ?thesis using copy(1) by auto
    qed
  qed
qed

section \<open>A session\<close>

text \<open>
  What the turns of the loop in \<open>main\<close> allocate and release: the history's copy, and the
  expansions where a line parses to some command and its here-documents could be collected. The
  environment, the status and what patterns match are whatever they are at that line.
\<close>

record turn_t =
  t_line :: string
  t_env :: "string \<rightharpoonup> string"
  t_status :: int
  t_glob :: "string \<Rightarrow> string list option"
  t_collected :: bool

definition m_turn :: "allocator \<Rightarrow> turn_t \<Rightarrow> m_history_t \<Rightarrow> heap \<Rightarrow> (m_history_t \<times> heap) option" where
  "m_turn A t hist h = do {
     (hist1, h1) \<leftarrow> m_history_add A hist (Some (t_line t)) h;
     (case p_parse_pipeline 0 (t_line t @ [NUL]) of
        (Inl e, buf) \<Rightarrow> Some (hist1, h1)
      | (Inr p, buf) \<Rightarrow>
        if pp_num p = 0 \<or> \<not> t_collected t then Some (hist1, h1)
        else do {
          (cmds, h2) \<leftarrow> m_expand_pipeline A (t_glob t) (t_env t) (t_status t) buf
                         (map heap_command (take (pp_num p) (pp_commands p))) h1;
          (_, h3) \<leftarrow> m_free_expansions cmds h2;
          Some (hist1, h3)
        })
   }"

fun m_session :: "allocator \<Rightarrow> turn_t list \<Rightarrow> m_history_t \<Rightarrow> heap \<Rightarrow> heap option" where
  "m_session A [] hist h = map_option snd (m_history_free hist h)"
| "m_session A (t # ts) hist h = do { (hist1, h1) \<leftarrow> m_turn A t hist h; m_session A ts hist1 h1 }"

lemma ring_owned_blocks:
  "ring_owned h0 hist h \<Longrightarrow> blocks h' = blocks h \<Longrightarrow> heap_inv h' \<Longrightarrow> ring_owned h0 hist h'"
  using m_string_blocks [of h' h] by (simp add: ring_owned_def adds_def ring_def)

lemma turn_owned:
  assumes "ring_owned h0 hist h" "is_cstr (t_line t)" "expandable A (t_env t) (t_status t)"
  shows "\<exists>hist' h'. m_turn A t hist h = Some (hist', h') \<and> ring_owned h0 hist' h'"
proof -
  obtain hist1 h1 where a: "m_history_add A hist (Some (t_line t)) h = Some (hist1, h1)" "ring_owned h0 hist1 h1"
    using m_history_add_owned [OF assms(1,2)] by blast
  obtain r buf where p: "p_parse_pipeline 0 (t_line t @ [NUL]) = (r, buf)" by fastforce
  show ?thesis
  proof (cases "\<exists>p. r = Inr p \<and> pp_num p \<noteq> 0 \<and> t_collected t")
    case True
    then obtain pl where pl: "r = Inr pl" "pp_num pl \<noteq> 0" "t_collected t" by blast
    have "heap_inv h1" using a(2) by (simp add: ring_owned_def adds_def)
    from line_memory_facts [OF assms(2) p [unfolded pl(1)] assms(3) this, of "t_glob t"] obtain cmds h2 cmds' h3 where
      "m_expand_pipeline A (t_glob t) (t_env t) (t_status t) buf
         (map heap_command (take (pp_num pl) (pp_commands pl))) h1 = Some (cmds, h2)"
      "m_free_expansions cmds h2 = Some (cmds', h3)" "blocks h3 = blocks h1" "heap_inv h3" by blast
    then show ?thesis using a p pl ring_owned_blocks [OF a(2)] by (simp add: m_turn_def)
  next
    case False
    then show ?thesis using a p by (cases r) (auto simp: m_turn_def)
  qed
qed



end
