(* ===== verification/Lines.thy ===== *)
theory Lines
  imports Repl
begin

text \<open>
  Whole lines made of words that stand for themselves: what is left of a turn of the loop when
  parsing and expansion have nothing but words to pass on. The end-to-end properties of the root
  theory rest on these.
\<close>

section \<open>Words that stand for themselves\<close>

definition inert :: "string \<Rightarrow> bool" where
  "inert w \<longleftrightarrow> plain_word w \<and> is_cstr w \<and> CHR ''$'' \<notin> set w \<and> \<not> has_glob w"

lemma expansion_inert: "CHR ''$'' \<notin> set w \<Longrightarrow> expansion env status w = w"
  by (induction w) auto

lemma word_expansion_inert: "\<forall>w \<in> set ws. inert w \<Longrightarrow> word_expansion glob env status ws = ws"
  by (induction ws) (auto simp: word_expansion_def glob_words_def inert_def expansion_inert)

lemma expand_command_inert:
  assumes "\<And>n. mem n" "is_int32 status" "env_ok env"
    and cmd: "command_inv cmd" "\<forall>w \<in> set (argv cmd). inert w" "input_file cmd = None" "output_file cmd = None"
  shows "expand_command mem glob env status cmd = cmd"
proof -
  have len: "argc cmd < MAX_ARGS" using cmd(1) by (simp add: command_inv_def)
  have "list_all is_cstr (argv cmd)" using cmd(2) by (auto simp: list_all_iff inert_def)
  then have args: "expand_args mem glob env status (argv cmd) [] = map Some (argv cmd)"
    using expand_args_words [OF assms(1-3), of "argv cmd" "[]"] len length_argv [OF cmd(1)] cmd(2)
    by (simp add: word_expansion_inert)
  have "map Some (argv cmd) @ [None] @ drop (argc cmd + 1) (args cmd) = args cmd"
    using args_argv [OF cmd(1)] length_argv [OF cmd(1)] len
    by (simp add: Suc_diff_Suc replicate_Suc [symmetric] del: replicate_Suc)
  then show ?thesis
    using cmd(3,4) args length_argv [OF cmd(1)] by (simp add: expand_command_def expand_target_def Let_def)
qed

section \<open>Lines without here-documents\<close>

lemma collect_none:
  "\<forall>c \<in> set cmds. heredoc_delim c = None \<Longrightarrow> collect_loop K tty cmds w = (True, cmds, w)"
  by (induction cmds) simp_all

lemma close_none: "\<forall>c \<in> set cmds. heredoc_fd c = -1 \<Longrightarrow> close_loop cmds w = (cmds, w)"
  by (induction cmds) simp_all

lemma close_heredocs_none: "\<forall>c \<in> set (stages p). heredoc_fd c = -1 \<Longrightarrow> snd (close_heredocs p w) = w"
  by (simp add: close_heredocs_def stages_def [symmetric] close_none)

lemma expand_with_inert:
  assumes "\<And>n. k_malloc K (w_trace w) n" "is_int32 (last_status st)" "env_ok (w_env w)" "pipeline_inv p"
    and "\<forall>c \<in> set (stages p). input_file c = None \<and> output_file c = None \<and> (\<forall>w \<in> set (argv c). inert w)"
  shows "expand_with K st w p = p"
proof -
  have "map (expand_command (k_malloc K (w_trace w)) (k_glob K (w_trace w)) (w_env w) (last_status st))
      (stages p) = stages p"
  proof (rule map_idI)
    fix c assume c: "c \<in> set (stages p)"
    then have "command_inv c" using stages_inv [OF assms(4)] by blast
    then show "expand_command (k_malloc K (w_trace w)) (k_glob K (w_trace w)) (w_env w) (last_status st) c = c"
      using assms(1-3,5) c by (intro expand_command_inert) simp_all
  qed
  then show ?thesis by (simp add: expand_with_def expand_pipeline_def stages_def)
qed

text \<open>A line of stages of such words: it comes down to the execution of the parsed pipeline.\<close>

lemma run_words_line:
  assumes words: "wss \<noteq> []" "length wss \<le> MAX_COMMANDS"
      "\<forall>ws \<in> set wss. ws \<noteq> [] \<and> length ws < MAX_ARGS \<and> (\<forall>w \<in> set ws. inert w)"
    and post: "set post \<subseteq> set TOKEN_DELIMITERS"
    and env: "\<And>n. k_malloc K (w_trace w) n" "is_int32 (last_status st)" "env_ok (w_env w)"
  defines "line \<equiv> join '' | '' (map (join '' '') wss) @ post"
  obtains p where "parse_pipeline line = Inr p" "pipeline_inv p" "stages p = map words_command wss"
    "map argv (stages p) = wss" "\<not> pl_background p" "num_commands p = length wss"
    "run_line K line st w = (True, run_pipeline K p (recorded K line st w) w)"
proof -
  have plain: "\<forall>ws \<in> set wss. ws \<noteq> [] \<and> length ws < MAX_ARGS \<and> (\<forall>w \<in> set ws. plain_word w)"
    using words(3) by (auto simp: inert_def)
  obtain p where p: "parse_pipeline line = Inr p" "stages p = map words_command wss"
    "map argv (stages p) = wss" "pipeline_inv p" "\<not> pl_background p"
    using parse_words [OF words(1,2) plain post] unfolding line_def by metis
  have n: "num_commands p = length wss" using p(2) length_stages [OF p(4)] by simp
  let ?st = "recorded K line st w"
  have e: "expand_with K ?st w p = p"
  proof (rule expand_with_inert [OF env(1) _ env(3) p(4)])
    have "input_file c = None \<and> output_file c = None \<and> argv c \<in> set wss" if "c \<in> set (stages p)" for c
      using that p(2) arg_cong [OF p(3), of set] by auto
    then show "\<forall>c \<in> set (stages p). input_file c = None \<and> output_file c = None \<and> (\<forall>w \<in> set (argv c). inert w)"
      using words(3) by blast
  qed (simp add: env(2))
  have whole: "stages p @ drop (num_commands p) (commands p) = commands p" by (simp add: stages_def)
  have "\<forall>c \<in> set (stages p). heredoc_delim c = None" using p(2) by simp
  then have c: "collect_heredocs K p ?st w = (True, p, w)"
    using whole by (simp add: collect_heredocs_def stages_def [symmetric] collect_none)
  have z: "snd (close_heredocs (free_expansions p) v) = v" for v
    by (rule close_heredocs_none) (simp add: free_facts(2) p(2) free_command_def)
  obtain go st' w' where r: "run_line K line st w = (go, st', w')" by (metis prod_cases3)
  have "run_line K line st w = (True, run_pipeline K p ?st w)"
    using r by (cases rule: run_line_cases) (use r p(1) n words(1) c e z in simp_all)
  then show ?thesis using that p n by simp
qed

section \<open>Lines that run a built-in\<close>

lemma words_command_arg:
  assumes "\<forall>w \<in> set ws. inert w" "length ws < MAX_ARGS" "i < length ws"
  shows "args (words_command ws) ! i = Some (ws ! i)"
proof -
  have "\<forall>w \<in> set ws. plain_word w" using assms(1) by (simp add: inert_def)
  note c = spec_command_plain [OF this assms(2)]
  show ?thesis using args_argv [OF c(3)] c(2) assms(3) by (simp add: nth_append)
qed

lemma run_builtin_line:
  assumes ws: "ws \<noteq> []" "length ws < MAX_ARGS" "\<forall>w \<in> set ws. inert w" "is_builtin (hd ws)"
    and post: "set post \<subseteq> set TOKEN_DELIMITERS"
    and env: "\<And>n. k_malloc K (w_trace w) n" "is_int32 (last_status st)" "env_ok (w_env w)"
    and run: "run_builtin K (words_command ws) (recorded K (join '' '' ws @ post) st w) w = (code, st1, w1)"
  shows "run_line K (join '' '' ws @ post) st w = (True, st1\<lparr>last_status := code\<rparr>, w1)"
proof -
  have line: "join '' | '' (map (join '' '') [ws]) @ post = join '' '' ws @ post" by simp
  obtain p where p: "pipeline_inv p" "stages p = [words_command ws]" "num_commands p = 1"
    "run_line K (join '' '' ws @ post) st w =
       (True, run_pipeline K p (recorded K (join '' '' ws @ post) st w) w)"
    using run_words_line [of "[ws]" post K w st, OF _ _ _ post env] ws(1-3) unfolding line
    by (auto simp: MAX_COMMANDS_def)
  have "commands p ! 0 = words_command ws"
    using arg_cong [OF p(2), of "\<lambda>xs. xs ! 0"] p(3) by (simp add: stages_def)
  moreover have "cmd_name (words_command ws) = hd ws"
    using words_command_arg [OF ws(3,2), of 0] ws(1) by (simp add: hd_conv_nth)
  ultimately show ?thesis using p(3,4) ws(4) run by (simp add: run_pipeline_def)
qed

text \<open>A word is inert when all its characters are none of the special ones.\<close>

definition ordinary :: "char \<Rightarrow> bool" where
  "ordinary c \<longleftrightarrow> c \<notin> set (TOKEN_DELIMITERS @ [CHR ''|'', CHR ''$'', CHR ''*'', CHR ''?'', CHR ''['', NUL,
     CHR ''&'', CHR ''<'', CHR ''>''])"

lemma inertI: "w \<noteq> [] \<Longrightarrow> \<forall>c \<in> set w. ordinary c \<Longrightarrow> inert w"
proof -
  assume ne: "w \<noteq> []" and w: "\<forall>c \<in> set w. ordinary c"
  have "w \<notin> operators" if "hd w \<notin> {CHR ''&'', CHR ''<'', CHR ''>''}"
    using that by (auto simp: operators_def)
  moreover have "ordinary (hd w)" using w ne by simp
  ultimately have "w \<notin> operators" by (simp add: ordinary_def)
  moreover have "set w \<inter> set TOKEN_DELIMITERS = {}" "CHR ''|'' \<notin> set w" "CHR ''$'' \<notin> set w" "is_cstr w"
    using w by (auto simp: ordinary_def is_cstr_def)
  moreover have "\<not> has_glob w" using w by (auto simp: ordinary_def has_glob_def)
  ultimately show ?thesis using ne by (simp add: inert_def plain_word_def)
qed

lemma dec_int_inert: "inert (dec_int n)"
proof (rule inertI)
  show "dec_int n \<noteq> []" by (simp add: dec_int_def)
  have "ordinary c" if "isdigit c \<or> c = CHR ''-''" for c
    using that by (auto simp: isdigit_def ordinary_def TOKEN_DELIMITERS_def)
  then show "\<forall>c \<in> set (dec_int n). ordinary c"
    using dec_nat_digits by (auto simp: dec_int_def split: if_splits)
qed

text \<open>Names and the words that refer to them.\<close>

lemma name_char_ordinary: "name_char c \<Longrightarrow> ordinary c \<and> c \<noteq> CHR ''=''"
  by (auto simp: name_char_def isalnum_def isalpha_def isdigit_def ordinary_def TOKEN_DELIMITERS_def Let_def)

lemma takeWhile_name:
  "\<forall>c \<in> set name. name_char c \<Longrightarrow> rest = [] \<or> \<not> name_char (hd rest) \<Longrightarrow> takeWhile name_char (name @ rest) = name"
  by (induction name) (cases rest, auto)

lemma expansion_name:
  assumes "name \<noteq> []" "name_start (hd name)" "\<forall>c \<in> set name. name_char c" "length name \<le> 255"
    and "rest = [] \<or> \<not> name_char (hd rest)"
  shows "expansion env status (CHR ''$'' # name @ rest) = value_of env name @ expansion env status rest"
proof -
  obtain c cs where name: "name = c # cs" using assms(1) by (cases name) auto
  have "c \<noteq> CHR ''?''" "c \<noteq> CHR ''{''" "name_start c"
    using assms(2) by (auto simp: name name_start_def isalpha_def)
  then show ?thesis
    using takeWhile_name [OF assms(3,5)] assms(4)
    by (simp add: name Let_def del: takeWhile.simps)
qed

section \<open>Lines with one here-document\<close>

lemma read_items_heredoc:
  "\<forall>w \<in> set ws. w \<notin> operators \<Longrightarrow> length ws < n \<Longrightarrow>
     read_items n (ws @ [''<<'', d]) = Inr (map Arg ws @ [Heredoc d])"
proof (induction ws arbitrary: n)
  case (Cons w ws)
  then show ?case by (cases n) (auto simp: operators_def)
qed simp

lemma spec_heredoc_words:
  assumes "\<forall>w \<in> set ws. plain_word w" "length ws < MAX_ARGS - 1"
  shows "spec_command (ws @ [''<<'', d]) = Inr ((words_command ws)\<lparr>heredoc_delim := Some d\<rparr>)"
  using read_items_heredoc [of ws "MAX_ARGS - 1" d] assms
  by (simp add: spec_command_def words_command_def plain_word_def put_item_def)

text \<open>The parse of a line of words and a here-document.\<close>

lemma parse_heredoc_line:
  assumes ws: "ws \<noteq> []" "length ws < MAX_ARGS - 1" "\<forall>w \<in> set ws. plain_word w" "plain_word d"
  obtains p where "parse_pipeline (join '' '' (ws @ [''<<'', d]) @ [NL]) = Inr p"
    "stages p = [(words_command ws)\<lparr>heredoc_delim := Some d\<rparr>]" "pipeline_inv p" "\<not> pl_background p"
proof -
  let ?vs = "ws @ [''<<'', d]" and ?cmd = "(words_command ws)\<lparr>heredoc_delim := Some d\<rparr>"
  let ?line = "join '' '' ?vs @ [NL]"
  have words: "\<forall>w \<in> set ?vs. w \<noteq> [] \<and> set w \<inter> set TOKEN_DELIMITERS = {} \<and> CHR ''|'' \<notin> set w"
    using ws by (auto simp: plain_word_def TOKEN_DELIMITERS_def)
  have "CHR ''|'' \<notin> set (join '' '' vs)" if "\<forall>w \<in> set vs. CHR ''|'' \<notin> set w" for vs
    using that by (cases vs) auto
  then have "set ?line \<inter> set PIPE_DELIMITER = {}"
    using words by (auto simp: PIPE_DELIMITER_def)
  then have "strtok_all PIPE_DELIMITER ?line = [?line]"
    using strtok_all_Some [OF strtok_r_last_word] by simp
  moreover have "strtok_all TOKEN_DELIMITERS ?line = ?vs"
    using strtok_all_words [of ?vs TOKEN_DELIMITERS "CHR '' ''" "[NL]"] words
    by (simp add: TOKEN_DELIMITERS_def)
  moreover have "0 < argc ?cmd"
    using spec_command_plain [OF ws(3)] ws(1,2) argv_eq_Nil [of "words_command ws"]
    by (cases "argc (words_command ws) = 0") auto
  ultimately have "spec_pipeline ?line = Inr [?cmd]"
    using spec_heredoc_words [OF ws(3,2), of d] by (simp add: spec_pipeline_def MAX_COMMANDS_def)
  then obtain p where p: "parse_pipeline ?line = Inr p" "stages p = [?cmd]"
    using parse_pipeline_facts(1) [of ?line] by (auto simp: map_sum_id_Inr)
  then show ?thesis
    using that parse_pipeline_facts(2,3) [OF p(1)] by simp
qed

text \<open>Collecting the body of a single command.\<close>

lemma collect_one:
  assumes "stages p = [cmd]" "heredoc_delim cmd = Some d" "heredoc_fd cmd = -1" "pipeline_inv p"
    and "lowest_free (w_fds w) = Some n" "restarts w" "\<And>tr. k_mkstemp K tr = None" "\<And>tr t. k_write K tr t = Inr (length t)"
    and "collect_heredocs K p st w = (ok, p1, w1)"
  shows "ok" "stages p1 = [cmd\<lparr>heredoc_fd := int n\<rparr>]" "pipeline_inv p1" "num_commands p1 = 1"
    "pl_background p1 = pl_background p" "same_context w w1" "w_stdin w1 = heredoc_rest d (w_stdin w)"
    "n < length (w_fds w)" "w_fds w ! n = None"
    "w_fds w1 = (w_fds w)[n := Some (TempFile (heredoc_body d (w_stdin w)) 0, True)]"
proof -
  obtain fd v where r: "read_one_heredoc K d (interactive st) w = (fd, v)" by fastforce
  have fd: "fd = int n" using r assms(5,7)
    by (auto simp: read_one_heredoc_def sys_mkstemp_def Let_def)
  note b = read_one_body [OF assms(8,6) r] and f = read_one_frame [OF r]
  show n: "n < length (w_fds w)" "w_fds w ! n = None" using f(2) fd by auto
  have c: "collect_heredocs K p st w =
      (True, p\<lparr>commands := [cmd\<lparr>heredoc_fd := int n\<rparr>] @ drop (num_commands p) (commands p)\<rparr>, v)"
    using assms(1,2) r fd by (simp add: collect_heredocs_def stages_def)
  then have res: "ok" "p1 = p\<lparr>commands := [cmd\<lparr>heredoc_fd := int n\<rparr>] @ drop (num_commands p) (commands p)\<rparr>" "w1 = v"
    using assms(9) by simp_all
  show "ok" by (rule res)
  show st: "stages p1 = [cmd\<lparr>heredoc_fd := int n\<rparr>]"
    unfolding res(2) by (rule stages_update) (simp add: assms(1))
  have num: "num_commands p = 1" using length_stages [OF assms(4)] assms(1) by simp
  then show "num_commands p1 = 1" "pl_background p1 = pl_background p" by (simp_all add: res(2))
  have "cmd = commands p ! 0" using assms(1) num by (cases "commands p") (simp_all add: stages_def)
  then show "pipeline_inv p1"
    using assms(4) num unfolding res(2)
    by (auto simp: pipeline_inv_def nth_append)
  show "same_context w w1" "w_stdin w1 = heredoc_rest d (w_stdin w)"
    "w_fds w1 = (w_fds w)[n := Some (TempFile (heredoc_body d (w_stdin w)) 0, True)]"
    using f b fd n unfolding res(3) by auto
qed

end
