(* ===== verification/Dataflow.thy ===== *)
theory Dataflow
  imports Executor
begin

text \<open>
  What the wiring of a pipeline is for: the programs of the stages, run side by side on the pipes,
  always come to an end. The programs are parameters, any functions from the results they have
  got so far to their next request; the pipes are bounded, as POSIX has them: a read of an empty
  pipe waits while some process holds the write end, a write to a full one waits while some
  process holds the read end, and a write that nobody can read any more kills the writer. The
  theorems are that the bytes arrive in order, that a network wired as \<open>spawn_pipeline\<close> wires it is
  never stuck, and that it stops if each program stops on finite input.
\<close>

section \<open>Programs and pipes\<close>

text \<open>A read asks for at least one byte; a write of several bytes is several writes.\<close>

datatype action = Leave | Take nat | Put char

type_synonym program = "string list \<Rightarrow> action"

record proc =
  pr_prog :: program
  pr_input :: string
  pr_fds :: fdtab
  pr_done :: "string list"
  pr_live :: bool

record net =
  n_procs :: "proc list"
  n_bytes :: "nat \<Rightarrow> string"
  n_shell :: fdtab

text \<open>The pipes at standard input and output, if they are pipes.\<close>

definition pr_reads :: "proc \<Rightarrow> nat option" where
  "pr_reads p = (case pr_fds p ! 0 of Some (PipeR k, c) \<Rightarrow> Some k | _ \<Rightarrow> None)"

definition pr_writes :: "proc \<Rightarrow> nat option" where
  "pr_writes p = (case pr_fds p ! 1 of Some (PipeW k, c) \<Rightarrow> Some k | _ \<Rightarrow> None)"

abbreviation next_action :: "proc \<Rightarrow> action" where
  "next_action p \<equiv> pr_prog p (pr_done p)"

text \<open>An end of a pipe is open as long as the shell or a process that lives holds it.\<close>

definition held :: "net \<Rightarrow> ofile \<Rightarrow> bool" where
  "held s f \<longleftrightarrow> holds_file f (n_shell s) \<or> (\<exists>p \<in> set (n_procs s). pr_live p \<and> holds_file f (pr_fds p))"

definition runs :: "net \<Rightarrow> nat \<Rightarrow> proc \<Rightarrow> bool" where
  "runs s i p \<longleftrightarrow> i < length (n_procs s) \<and> n_procs s ! i = p \<and> pr_live p"

definition answer :: "nat \<Rightarrow> string \<Rightarrow> net \<Rightarrow> net" where
  "answer i r s = s\<lparr>n_procs := (n_procs s)[i := (n_procs s ! i)\<lparr>pr_done := pr_done (n_procs s ! i) @ [r]\<rparr>]\<rparr>"

definition gone :: "nat \<Rightarrow> net \<Rightarrow> net" where
  "gone i s = s\<lparr>n_procs := (n_procs s)[i := (n_procs s ! i)\<lparr>pr_live := False\<rparr>]\<rparr>"

definition set_bytes :: "nat \<Rightarrow> string \<Rightarrow> net \<Rightarrow> net" where
  "set_bytes k bs s = s\<lparr>n_bytes := (n_bytes s)(k := bs)\<rparr>"

definition set_input :: "nat \<Rightarrow> string \<Rightarrow> net \<Rightarrow> net" where
  "set_input i xs s = s\<lparr>n_procs := (n_procs s)[i := (n_procs s ! i)\<lparr>pr_input := xs\<rparr>]\<rparr>"

text \<open>A step of process i. A read may return fewer bytes than it asks for, but not none before the end.\<close>

inductive net_step :: "nat \<Rightarrow> nat \<Rightarrow> net \<Rightarrow> net \<Rightarrow> bool" for cap :: nat where
  leave: "runs s i p \<Longrightarrow> next_action p = Leave \<Longrightarrow> net_step cap i s (gone i s)"
| take_bytes: "runs s i p \<Longrightarrow> next_action p = Take n \<Longrightarrow> pr_reads p = Some k \<Longrightarrow> n_bytes s k = xs @ ys \<Longrightarrow>
    xs \<noteq> [] \<Longrightarrow> length xs \<le> Suc n \<Longrightarrow> net_step cap i s (set_bytes k ys (answer i xs s))"
| take_end: "runs s i p \<Longrightarrow> next_action p = Take n \<Longrightarrow> pr_reads p = Some k \<Longrightarrow> n_bytes s k = [] \<Longrightarrow>
    \<not> held s (PipeW k) \<Longrightarrow> net_step cap i s (answer i [] s)"
| take_input: "runs s i p \<Longrightarrow> next_action p = Take n \<Longrightarrow> pr_reads p = None \<Longrightarrow> pr_input p = xs @ ys \<Longrightarrow>
    xs \<noteq> [] \<or> ys = [] \<Longrightarrow> length xs \<le> Suc n \<Longrightarrow> net_step cap i s (set_input i ys (answer i xs s))"
| put_byte: "runs s i p \<Longrightarrow> next_action p = Put c \<Longrightarrow> pr_writes p = Some k \<Longrightarrow> held s (PipeR k) \<Longrightarrow>
    length (n_bytes s k) < cap \<Longrightarrow> net_step cap i s (set_bytes k (n_bytes s k @ [c]) (answer i [] s))"
| put_broken: "runs s i p \<Longrightarrow> next_action p = Put c \<Longrightarrow> pr_writes p = Some k \<Longrightarrow> \<not> held s (PipeR k) \<Longrightarrow>
    net_step cap i s (gone i s)"
| put_file: "runs s i p \<Longrightarrow> next_action p = Put c \<Longrightarrow> pr_writes p = None \<Longrightarrow> net_step cap i s (answer i [] s)"

inductive_cases net_stepE: "net_step cap i s s'"

section \<open>The wiring keeps a network going\<close>

text \<open>
  Pipe k of a pipeline is number b + k: only stage k may hold its write end, only stage k + 1 its
  read end, and the shell neither. A stage may have replaced its ends by files.
\<close>

definition wired :: "nat \<Rightarrow> net \<Rightarrow> bool" where
  "wired b s \<longleftrightarrow> pipes_below b (n_shell s) \<and>
     (\<forall>i < length (n_procs s). let p = n_procs s ! i in
        (\<forall>k. pr_reads p = Some k \<longrightarrow> Suc k = b + i \<and> 0 < i) \<and>
        (\<forall>k. pr_writes p = Some k \<longrightarrow> k = b + i \<and> Suc i < length (n_procs s)) \<and>
        (\<forall>k \<ge> b. holds_file (PipeR k) (pr_fds p) \<longrightarrow> Suc k = b + i) \<and>
        (\<forall>k \<ge> b. holds_file (PipeW k) (pr_fds p) \<longrightarrow> k = b + i))"

lemma wiredD:
  assumes "wired b s" "i < length (n_procs s)"
  shows "pr_reads (n_procs s ! i) = Some k \<Longrightarrow> Suc k = b + i \<and> 0 < i"
    "pr_writes (n_procs s ! i) = Some k \<Longrightarrow> k = b + i \<and> Suc i < length (n_procs s)"
    "b \<le> k \<Longrightarrow> holds_file (PipeR k) (pr_fds (n_procs s ! i)) \<Longrightarrow> Suc k = b + i"
    "b \<le> k \<Longrightarrow> holds_file (PipeW k) (pr_fds (n_procs s ! i)) \<Longrightarrow> k = b + i"
  using assms by (auto simp: wired_def Let_def)

lemma wired_held:
  assumes "wired b s" "b \<le> k" "held s f" "f = PipeR k \<or> f = PipeW k"
  obtains j p where "runs s j p" "f = PipeR k \<Longrightarrow> Suc k = b + j" "f = PipeW k \<Longrightarrow> k = b + j"
proof -
  have "\<not> holds_file f (n_shell s)" using assms by (auto simp: wired_def pipes_below_def)
  then obtain p where "p \<in> set (n_procs s)" "pr_live p" "holds_file f (pr_fds p)"
    using assms(3) by (auto simp: held_def)
  then obtain j where "j < length (n_procs s)" "n_procs s ! j = p" "pr_live p" "holds_file f (pr_fds p)"
    by (auto simp: in_set_conv_nth)
  then show ?thesis
    using that [of j p] wiredD(3,4) [OF assms(1) _ assms(2)] assms(4) by (auto simp: runs_def)
qed

text \<open>A process that cannot step waits for a neighbour that lives.\<close>

lemma blocked_cases:
  assumes "wired b s" "runs s i p" "\<nexists>s'. net_step cap i s s'"
  obtains (reading) j q where "i = Suc j" "runs s j q" "n_bytes s (b + j) = []"
  | (writing) q where "runs s (Suc i) q" "cap \<le> length (n_bytes s (b + i))"
proof (cases "next_action p")
  case Leave
  then show ?thesis using assms(2,3) net_step.leave by blast
next
  case (Take n)
  show ?thesis
  proof (cases "pr_reads p")
    case None
    have "pr_input p = take 1 (pr_input p) @ drop 1 (pr_input p)" "take 1 (pr_input p) \<noteq> [] \<or> drop 1 (pr_input p) = []"
      "length (take 1 (pr_input p)) \<le> Suc n" by auto
    then show ?thesis using net_step.take_input [OF assms(2) Take None] assms(3) by blast
  next
    case (Some k)
    then have k: "Suc k = b + i" "0 < i" using wiredD(1) [OF assms(1)] assms(2) by (auto simp: runs_def)
    have empty: "n_bytes s k = []"
    proof (rule ccontr)
      assume "n_bytes s k \<noteq> []"
      then have "n_bytes s k = take 1 (n_bytes s k) @ drop 1 (n_bytes s k)" "take 1 (n_bytes s k) \<noteq> []"
        "length (take 1 (n_bytes s k)) \<le> Suc n" by auto
      then show False using net_step.take_bytes [OF assms(2) Take Some] assms(3) by blast
    qed
    then have "held s (PipeW k)" using net_step.take_end [OF assms(2) Take Some] assms(3) by blast
    moreover have "b \<le> k" using k by simp
    ultimately obtain j q where "runs s j q" "k = b + j" using wired_held [OF assms(1)] by blast
    then show ?thesis using reading [of j q] k(1) empty by simp
  qed
next
  case (Put c)
  show ?thesis
  proof (cases "pr_writes p")
    case None
    then show ?thesis using net_step.put_file [OF assms(2) Put] assms(3) by blast
  next
    case (Some k)
    then have k: "k = b + i" using wiredD(2) [OF assms(1)] assms(2) by (auto simp: runs_def)
    have h: "held s (PipeR k)" using net_step.put_broken [OF assms(2) Put Some] assms(3) by blast
    have "b \<le> k" using k by simp
    then obtain j q where "runs s j q" "Suc k = b + j"
      using wired_held [OF assms(1) _ h] by blast
    moreover have "cap \<le> length (n_bytes s k)"
      using net_step.put_byte [OF assms(2) Put Some h] assms(3) by (meson not_le)
    ultimately show ?thesis using writing [of q] k by simp
  qed
qed

text \<open>While some process lives there is a step: the chain of those that wait ends at a last stage.\<close>

lemma wired_progress:
  assumes w: "wired b s" and "0 < cap" "runs s i p"
  shows "\<exists>j s'. net_step cap j s s'"
proof (rule ccontr)
  assume stuck: "\<nexists>j s'. net_step cap j s s'"
  define m where "m = (LEAST j. \<exists>q. runs s j q)"
  have m: "\<exists>q. runs s m q" unfolding m_def by (rule LeastI) (use assms(3) in blast)
  have least: "\<not> runs s j q" if "j < m" for j q using not_less_Least [of j] that unfolding m_def by blast
  have "(\<exists>q. runs s (m + d) q) \<and> (0 < d \<longrightarrow> n_bytes s (b + (m + d - 1)) \<noteq> [])" for d
  proof (induction d)
    case 0
    then show ?case using m by simp
  next
    case (Suc d)
    then obtain q where q: "runs s (m + d) q" by blast
    have "\<nexists>s'. net_step cap (m + d) s s'" using stuck by blast
    from w q this show ?case
    proof (cases rule: blocked_cases)
      case (reading j r)
      then show ?thesis using Suc.IH least [of j r] by (cases d) auto
    next
      case (writing r)
      then show ?thesis using assms(2) by auto
    qed
  qed
  then have "m + length (n_procs s) < length (n_procs s)" by (meson runs_def)
  then show False by simp
qed

section \<open>What a step leaves alone\<close>

lemma net_simps [simp]:
  "length (n_procs (answer i r s)) = length (n_procs s)" "length (n_procs (gone i s)) = length (n_procs s)"
  "length (n_procs (set_input i xs s)) = length (n_procs s)" "n_procs (set_bytes k bs s) = n_procs s"
  "n_shell (answer i r s) = n_shell s" "n_shell (gone i s) = n_shell s"
  "n_shell (set_input i xs s) = n_shell s" "n_shell (set_bytes k bs s) = n_shell s"
  "n_bytes (answer i r s) = n_bytes s" "n_bytes (gone i s) = n_bytes s"
  "n_bytes (set_input i xs s) = n_bytes s" "n_bytes (set_bytes k bs s) = (n_bytes s)(k := bs)"
  by (simp_all add: answer_def gone_def set_input_def set_bytes_def)

lemma net_procs [simp]:
  "j < length (n_procs s) \<Longrightarrow> n_procs (answer i r s) ! j =
     (if i = j then (n_procs s ! j)\<lparr>pr_done := pr_done (n_procs s ! j) @ [r]\<rparr> else n_procs s ! j)"
  "j < length (n_procs s) \<Longrightarrow> n_procs (gone i s) ! j =
     (if i = j then (n_procs s ! j)\<lparr>pr_live := False\<rparr> else n_procs s ! j)"
  "j < length (n_procs s) \<Longrightarrow> n_procs (set_input i xs s) ! j =
     (if i = j then (n_procs s ! j)\<lparr>pr_input := xs\<rparr> else n_procs s ! j)"
  by (auto simp: answer_def gone_def set_input_def nth_list_update)

lemma pr_ends [simp]:
  "pr_reads (p\<lparr>pr_done := d\<rparr>) = pr_reads p" "pr_reads (p\<lparr>pr_live := l\<rparr>) = pr_reads p"
  "pr_reads (p\<lparr>pr_input := x\<rparr>) = pr_reads p" "pr_writes (p\<lparr>pr_done := d\<rparr>) = pr_writes p"
  "pr_writes (p\<lparr>pr_live := l\<rparr>) = pr_writes p" "pr_writes (p\<lparr>pr_input := x\<rparr>) = pr_writes p"
  by (simp_all add: pr_reads_def pr_writes_def)

lemma net_step_static:
  assumes "net_step cap i s s'"
  shows "i < length (n_procs s)" "length (n_procs s') = length (n_procs s)" "n_shell s' = n_shell s"
    and "j < length (n_procs s) \<Longrightarrow> pr_fds (n_procs s' ! j) = pr_fds (n_procs s ! j)"
    and "j < length (n_procs s) \<Longrightarrow> pr_prog (n_procs s' ! j) = pr_prog (n_procs s ! j)"
  using assms by (cases; simp add: runs_def)+

lemma net_step_ends:
  assumes "net_step cap i s s'" "j < length (n_procs s)"
  shows "pr_reads (n_procs s' ! j) = pr_reads (n_procs s ! j)" "pr_writes (n_procs s' ! j) = pr_writes (n_procs s ! j)"
  using net_step_static(4) [OF assms] by (simp_all add: pr_reads_def pr_writes_def)

lemma net_step_wired: "net_step cap i s s' \<Longrightarrow> wired b s \<Longrightarrow> wired b s'"
  unfolding wired_def using net_step_static [of cap i s s'] net_step_ends [of cap i s s'] by (simp add: Let_def)

section \<open>The bytes arrive in order\<close>

text \<open>The bytes written in the first n answers of a history.\<close>

primrec sent :: "program \<Rightarrow> string list \<Rightarrow> nat \<Rightarrow> string" where
  "sent prog h 0 = []"
| "sent prog h (Suc n) = sent prog h n @ (case prog (take n h) of Put c \<Rightarrow> [c] | _ \<Rightarrow> [])"

lemma sent_append [simp]: "n \<le> length h \<Longrightarrow> sent prog (h @ g) n = sent prog h n"
  by (induction n) auto

lemma length_sent: "length (sent prog h n) \<le> n"
  by (induction n) (auto split: action.split)

abbreviation written :: "proc \<Rightarrow> string" where
  "written p \<equiv> sent (pr_prog p) (pr_done p) (length (pr_done p))"

text \<open>
  What stage i + 1 has read from its pipe, and then what is in the pipe, is what stage i has
  written to it.
\<close>

definition flow :: "nat \<Rightarrow> net \<Rightarrow> bool" where
  "flow b s \<longleftrightarrow> (\<forall>i. Suc i < length (n_procs s) \<longrightarrow> pr_reads (n_procs s ! Suc i) = Some (b + i) \<longrightarrow>
     concat (pr_done (n_procs s ! Suc i)) @ n_bytes s (b + i) =
       (if pr_writes (n_procs s ! i) = Some (b + i) then written (n_procs s ! i) else []))"

lemma flow_step:
  assumes "net_step cap i s s'" "wired b s" "flow b s"
  shows "flow b s'"
  unfolding flow_def
proof (intro allI impI)
  fix j
  assume "Suc j < length (n_procs s')" "pr_reads (n_procs s' ! Suc j) = Some (b + j)"
  then have j: "Suc j < length (n_procs s)" "pr_reads (n_procs s ! Suc j) = Some (b + j)"
    using net_step_static(2) [OF assms(1)] net_step_ends(1) [OF assms(1)] by auto
  then have old: "concat (pr_done (n_procs s ! Suc j)) @ n_bytes s (b + j) =
      (if pr_writes (n_procs s ! j) = Some (b + j) then written (n_procs s ! j) else [])"
    using assms(3) by (simp add: flow_def)
  show "concat (pr_done (n_procs s' ! Suc j)) @ n_bytes s' (b + j) =
      (if pr_writes (n_procs s' ! j) = Some (b + j) then written (n_procs s' ! j) else [])"
    using assms(1)
  proof cases
    case (take_bytes p n k xs ys)
    then have "Suc k = b + i" using wiredD(1) [OF assms(2), of i k] by (auto simp: runs_def)
    then show ?thesis using old j take_bytes by (auto simp: runs_def)
  next
    case (put_byte p c k)
    then have "k = b + i" using wiredD(2) [OF assms(2), of i k] by (auto simp: runs_def)
    then show ?thesis using old j put_byte by (auto simp: runs_def simp flip: append_assoc)
  qed (use old j in \<open>auto simp: runs_def\<close>)
qed

section \<open>The network stops\<close>

text \<open>
  The answer a request can get; and the programs that stop on finite input: one that never
  leaves has been given bytes for ever.
\<close>

primrec fits :: "action \<Rightarrow> string \<Rightarrow> bool" where
  "fits Leave r = False"
| "fits (Take n) r = (length r \<le> Suc n)"
| "fits (Put c) r = (r = [])"

definition halts :: "program \<Rightarrow> bool" where
  "halts prog \<longleftrightarrow> (\<forall>f. (\<forall>k. fits (prog (map f [0..<k])) (f k)) \<longrightarrow> infinite {k. f k \<noteq> []})"

definition answered :: "program \<Rightarrow> string list \<Rightarrow> bool" where
  "answered prog h \<longleftrightarrow> (\<forall>k < length h. fits (prog (take k h)) (h ! k))"

lemma answered_Nil [simp]: "answered prog []"
  by (simp add: answered_def)

lemma answered_snoc: "answered prog (h @ [r]) \<longleftrightarrow> answered prog h \<and> fits (prog h) r"
  unfolding answered_def by (auto simp: nth_append less_Suc_eq)

lemma nonempty_answers: "card {k. k < length h \<and> h ! k \<noteq> []} \<le> length (concat h)"
proof -
  have "length (filter (\<lambda>r. r \<noteq> []) h) \<le> length (concat h)"
    by (induction h) (auto simp: Suc_le_eq add_strict_increasing)
  then show ?thesis by (simp add: length_filter_conv_card)
qed

text \<open>Histories that only grow, with bounded input, of a program that stops: they are bounded.\<close>

lemma history_bounded:
  fixes h :: "nat \<Rightarrow> string list"
  assumes halts: "halts prog" and grow: "\<And>t. \<exists>g. h (Suc t) = h t @ g"
    and ok: "\<And>t. answered prog (h t)" and bytes: "\<And>t. length (concat (h t)) \<le> B"
  shows "\<exists>N. \<forall>t. length (h t) \<le> N"
proof (rule ccontr)
  assume "\<nexists>N. \<forall>t. length (h t) \<le> N"
  then have "\<forall>k. \<exists>t. k < length (h t)" by (meson not_le)
  then obtain T where T: "\<And>k. k < length (h (T k))" by metis
  define f where "f k = h (T k) ! k" for k
  have prefix: "\<exists>g. h (t + d) = h t @ g" for t d
  proof (induction d)
    case (Suc d)
    then show ?case using grow [of "t + d"] by (metis add_Suc_right append_assoc)
  qed simp
  have same: "h t ! k = h t' ! k" if "k < length (h t)" "k < length (h t')" for t t' k
  proof -
    have "\<exists>g. h (max t t') = h t @ g" "\<exists>g. h (max t t') = h t' @ g"
      using prefix [of t "max t t' - t"] prefix [of t' "max t t' - t'"] by simp_all
    then show ?thesis using that by (metis nth_append)
  qed
  have take: "map f [0..<k] = take k (h (T n))" if "k \<le> n" for k n
    using that T [of n] same [OF T, of _ "T n"] by (intro nth_equalityI) (simp_all add: f_def)
  have "fits (prog (map f [0..<k])) (f k)" for k
    using ok [of "T k"] T [of k] take [of k k] by (simp add: answered_def f_def)
  then have inf: "infinite {k. f k \<noteq> []}" using halts by (simp add: halts_def)
  then obtain A where A: "A \<subseteq> {k. f k \<noteq> []}" "finite A" "card A = Suc B"
    using infinite_arbitrarily_large by blast
  have "A \<noteq> {}" using A(3) by auto
  define n where "n = Max A"
  have "A \<subseteq> {k. k < length (h (T n)) \<and> h (T n) ! k \<noteq> []}"
  proof
    fix k assume k: "k \<in> A"
    then have "k \<le> n" unfolding n_def using A(2) by simp
    then have "k < length (h (T n))" using T [of n] by simp
    then show "k \<in> {k. k < length (h (T n)) \<and> h (T n) ! k \<noteq> []}"
      using k A(1) same [of k "T n" "T k"] T [of k] by (auto simp: f_def)
  qed
  then have "card A \<le> B"
    using card_mono [of "{k. k < length (h (T n)) \<and> h (T n) ! k \<noteq> []}" A] nonempty_answers [of "h (T n)"]
      bytes [of "T n"] by simp
  then show False using A(3) by simp
qed

text \<open>What holds of a network that was just wired, and of every one it can become.\<close>

definition started :: "nat \<Rightarrow> net \<Rightarrow> bool" where
  "started b s \<longleftrightarrow> wired b s \<and> (\<forall>k \<ge> b. n_bytes s k = []) \<and>
     (\<forall>p \<in> set (n_procs s). pr_done p = [] \<and> pr_live p)"

definition running :: "nat \<Rightarrow> net \<Rightarrow> net \<Rightarrow> bool" where
  "running b s0 s \<longleftrightarrow> wired b s \<and> flow b s \<and> length (n_procs s) = length (n_procs s0) \<and>
     (\<forall>i < length (n_procs s). let p = n_procs s ! i; p0 = n_procs s0 ! i in
        pr_prog p = pr_prog p0 \<and> pr_reads p = pr_reads p0 \<and> pr_writes p = pr_writes p0 \<and>
        answered (pr_prog p0) (pr_done p) \<and>
        (pr_reads p = None \<longrightarrow> length (concat (pr_done p)) + length (pr_input p) = length (pr_input p0)))"

lemma started_running: "started b s \<Longrightarrow> running b s s"
proof -
  assume s: "started b s"
  have "flow b s" using s by (auto simp: started_def flow_def)
  then show ?thesis using s by (simp add: started_def running_def Let_def)
qed

text \<open>A step of one process, seen from the list of processes.\<close>

lemma net_step_proc:
  assumes "net_step cap i s s'"
  obtains (gone) p where "runs s i p" "n_procs s' = (n_procs s)[i := p\<lparr>pr_live := False\<rparr>]"
  | (answered) p r x where "runs s i p" "fits (next_action p) r" "pr_reads p = None \<Longrightarrow> pr_input p = r @ x"
      "n_procs s' = (n_procs s)[i := p\<lparr>pr_done := pr_done p @ [r], pr_input := x\<rparr>]"
proof -
  have eq: "p\<lparr>pr_done := d\<rparr> = p\<lparr>pr_done := d, pr_input := pr_input p\<rparr>" for p :: proc and d by simp
  show ?thesis using assms
  proof cases
    case (take_bytes p n k xs ys)
    then show ?thesis using eq [where p = p] by (intro answered [of p xs "pr_input p"]) (auto simp: runs_def answer_def set_bytes_def)
  next
    case (take_end p n k)
    then show ?thesis using eq [where p = p] by (intro answered [of p "[]" "pr_input p"]) (auto simp: runs_def answer_def)
  next
    case (take_input p n xs ys)
    then show ?thesis by (intro answered [of p xs ys]) (auto simp: runs_def answer_def set_input_def)
  next
    case (put_byte p c k)
    then show ?thesis using eq [where p = p] by (intro answered [of p "[]" "pr_input p"]) (auto simp: runs_def answer_def set_bytes_def)
  next
    case (put_file p c)
    then show ?thesis using eq [where p = p] by (intro answered [of p "[]" "pr_input p"]) (auto simp: runs_def answer_def)
  qed (intro gone; simp add: runs_def gone_def)+
qed

lemma running_step:
  assumes "net_step cap i s s'" "running b s0 s"
  shows "running b s0 s'"
proof -
  have w: "wired b s" "flow b s" "length (n_procs s) = length (n_procs s0)" using assms(2) by (simp_all add: running_def)
  have "answered (pr_prog (n_procs s0 ! j)) (pr_done (n_procs s' ! j)) \<and>
      (pr_reads (n_procs s' ! j) = None \<longrightarrow>
        length (concat (pr_done (n_procs s' ! j))) + length (pr_input (n_procs s' ! j)) = length (pr_input (n_procs s0 ! j)))"
    if j: "j < length (n_procs s)" for j
  proof -
    have old: "answered (pr_prog (n_procs s0 ! j)) (pr_done (n_procs s ! j))"
        "pr_prog (n_procs s ! j) = pr_prog (n_procs s0 ! j)"
        "pr_reads (n_procs s ! j) = None \<Longrightarrow>
           length (concat (pr_done (n_procs s ! j))) + length (pr_input (n_procs s ! j)) = length (pr_input (n_procs s0 ! j))"
      using assms(2) j by (simp_all add: running_def Let_def)
    from assms(1) show ?thesis
    proof (cases rule: net_step_proc)
      case (gone p)
      then show ?thesis using old j by (auto simp: runs_def nth_list_update)
    next
      case (answered p r x)
      then show ?thesis using old j by (auto simp: runs_def nth_list_update answered_snoc)
    qed
  qed
  then show ?thesis
    using assms(2) net_step_wired [OF assms(1) w(1)] flow_step [OF assms(1) w(1,2)]
      net_step_static [OF assms(1)] net_step_ends [OF assms(1)]
    by (simp add: running_def Let_def)
qed

text \<open>How often a process has been answered, and whether it is gone.\<close>

definition effort :: "proc \<Rightarrow> nat" where
  "effort p = length (pr_done p) + (if pr_live p then 0 else 1)"

definition progress :: "net \<Rightarrow> nat" where
  "progress s = (\<Sum>i < length (n_procs s). effort (n_procs s ! i))"

lemma progress_step:
  assumes "net_step cap i s s'"
  shows "progress s' = Suc (progress s)"
proof -
  have "\<exists>q. n_procs s' = (n_procs s)[i := q] \<and> i < length (n_procs s) \<and> effort q = Suc (effort (n_procs s ! i))"
    using assms by (cases rule: net_step_proc) (auto simp: runs_def effort_def)
  then obtain q where q: "n_procs s' = (n_procs s)[i := q]" "i < length (n_procs s)"
    "effort q = Suc (effort (n_procs s ! i))" by blast
  let ?I = "{..< length (n_procs s)}"
  have "progress s' = (\<Sum>j \<in> ?I. if j = i then Suc (effort (n_procs s ! j)) else effort (n_procs s ! j))"
    unfolding progress_def using q by (intro sum.cong) (auto simp: nth_list_update)
  also have "\<dots> = Suc (progress s)"
    unfolding progress_def using q(2) by (simp add: sum.remove [of ?I i])
  finally show ?thesis .
qed

text \<open>What a process has read is bounded by its own input or by the answers of the process before it.\<close>

lemma bytes_read:
  assumes run: "running b s0 s" and w: "wired b s0" and i: "i < length (n_procs s0)"
  shows "length (concat (pr_done (n_procs s ! i))) \<le>
    length (pr_input (n_procs s0 ! i)) + (case i of 0 \<Rightarrow> 0 | Suc j \<Rightarrow> length (pr_done (n_procs s ! j)))"
proof -
  let ?p = "n_procs s0 ! i" and ?bytes = "concat (pr_done (n_procs s ! i))"
  have len: "length (n_procs s) = length (n_procs s0)" using run by (simp add: running_def)
  have ends: "pr_reads (n_procs s ! i) = pr_reads ?p" using run i by (simp add: running_def Let_def)
  show ?thesis
  proof (cases "pr_reads ?p")
    case None
    then have "length ?bytes + length (pr_input (n_procs s ! i)) = length (pr_input ?p)"
      using run i ends by (simp add: running_def Let_def)
    then show ?thesis by simp
  next
    case (Some k)
    then obtain j where j: "i = Suc j" "k = b + j" using wiredD(1) [OF w i] by (cases i) auto
    have "flow b s" using run by (simp add: running_def)
    then have eq: "?bytes @ n_bytes s (b + j) =
        (if pr_writes (n_procs s ! j) = Some (b + j) then written (n_procs s ! j) else [])"
      using i len Some ends j by (simp add: flow_def)
    have "length ?bytes \<le> length (?bytes @ n_bytes s (b + j))" by simp
    also have "\<dots> \<le> length (written (n_procs s ! j))" unfolding eq by simp
    also have "\<dots> \<le> length (pr_done (n_procs s ! j))" by (rule length_sent)
    finally show ?thesis using j by simp
  qed
qed

lemma wired_stops:
  assumes s0: "started b (S 0)" and halts: "\<forall>p \<in> set (n_procs (S 0)). halts (pr_prog p)"
    and steps: "\<And>t. net_step cap (I t) (S t) (S (Suc t))"
  shows False
proof -
  have run: "running b (S 0) (S t)" for t
    by (induction t) (use started_running [OF s0] running_step [OF steps] in auto)
  let ?n = "length (n_procs (S 0))" and ?h = "\<lambda>i t. pr_done (n_procs (S t) ! i)"
  have len: "length (n_procs (S t)) = ?n" for t using run [of t] by (simp add: running_def)
  have grow: "\<exists>g. ?h i (Suc t) = ?h i t @ g" if "i < ?n" for i t
    using steps [of t] by (cases rule: net_step_proc) (use that len [of t] in \<open>auto simp: runs_def nth_list_update\<close>)
  have ok: "answered (pr_prog (n_procs (S 0) ! i)) (?h i t)" if "i < ?n" for i t
    using run [of t] that len [of t] by (simp add: running_def Let_def)
  have bounded: "\<exists>N. \<forall>t. length (?h i t) \<le> N" if "i < ?n" for i
    using that
  proof (induction i rule: less_induct)
    case (less i)
    let ?p = "n_procs (S 0) ! i"
    obtain N where N: "\<And>t. (case i of 0 \<Rightarrow> 0 | Suc j \<Rightarrow> length (?h j t)) \<le> N"
      using less.IH less.prems by (cases i) fastforce+
    have w: "wired b (S 0)" using s0 by (simp add: started_def)
    have "length (concat (?h i t)) \<le> length (pr_input ?p) + N" for t
      using bytes_read [OF run w less.prems, of t] N [of t] by simp
    then obtain B where B: "\<And>t. length (concat (?h i t)) \<le> B" by blast
    have "halts (pr_prog ?p)" using halts less.prems by simp
    then show ?case by (rule history_bounded [where h = "?h i", OF _ grow [OF less.prems] ok [OF less.prems] B])
  qed
  then obtain N where N: "\<And>i t. i < ?n \<Longrightarrow> length (?h i t) \<le> N i" by metis
  have "progress (S t) = progress (S 0) + t" for t
    by (induction t) (simp_all add: progress_step [OF steps])
  moreover have "progress (S t) \<le> (\<Sum>i < ?n. N i + 1)" for t
    unfolding progress_def len [of t] using N by (intro sum_mono) (auto simp: effort_def le_SucI)
  ultimately show False by (metis add_leD2 not_less_eq_eq order_refl)
qed

section \<open>The network that the executor starts\<close>

text \<open>The descriptor table a child ends up with.\<close>

primrec child_fds :: "outcome \<Rightarrow> fdtab" where
  "child_fds (Execs as u) = w_fds u"
| "child_fds (Exits code u) = w_fds u"

text \<open>The stages' programs and what else they may read, on what the executor leaves them and itself.\<close>

definition network :: "outcome list \<Rightarrow> world \<Rightarrow> program list \<Rightarrow> string list \<Rightarrow> net" where
  "network children w progs inputs =
     \<lparr>n_procs = map (\<lambda>(child, prog, input).
          \<lparr>pr_prog = prog, pr_input = input, pr_fds = child_fds child, pr_done = [], pr_live = True\<rparr>)
        (zip children (zip progs inputs)),
      n_bytes = \<lambda>_. [], n_shell = w_fds w\<rparr>"

lemma nth_network:
  assumes "i < length children" "length progs = length children" "length inputs = length children"
  shows "n_procs (network children w progs inputs) ! i =
    \<lparr>pr_prog = progs ! i, pr_input = inputs ! i, pr_fds = child_fds (children ! i), pr_done = [], pr_live = True\<rparr>"
  using assms by (simp add: network_def)

lemma length_network:
  "length progs = length children \<Longrightarrow> length inputs = length children \<Longrightarrow>
     length (n_procs (network children w progs inputs)) = length children"
  by (simp add: network_def)

text \<open>Redirections and the exec open no pipe.\<close>

fun is_pipe :: "ofile \<Rightarrow> bool" where
  "is_pipe (PipeR k) = True"
| "is_pipe (PipeW k) = True"
| "is_pipe f = False"

lemma holds_exec_fds: "holds_file f (exec_fds t) \<Longrightarrow> holds_file f t"
  by (fastforce simp: holds_file_def exec_fds_at exec_fds_def split: option.splits bool.splits)

lemma holds_redirected:
  assumes "is_pipe f" "holds_file f (redirected cmd t)" "heredoc_ok t cmd"
  shows "holds_file f t"
proof -
  obtain i c where i: "i < length t" "redirected cmd t ! i = Some (f, c)"
    using assms(2) by (auto simp: holds_file_def redirected_def Let_def split: option.splits if_splits)
  have "t ! i = Some (f, c) \<or> (0 \<le> heredoc_fd cmd \<and> fst (the (t ! nat (heredoc_fd cmd))) = f)"
    using i assms(1) by (auto simp: redirected_def Let_def nth_list_update_if split: option.splits if_splits)
  then show ?thesis
    using i(1) assms(3) by (force simp: holds_file_def heredoc_ok_def valid_fd_def)
qed

lemma stage_ends:
  assumes t: "std_open t" "pipes_below 0 t" and h: "heredoc_ok t cmd"
    and fds: "pr_fds p = exec_fds (redirected cmd (stage_fds t x y))"
    and xy: "x = None \<or> x = Some (PipeR k)" "y = None \<or> y = Some (PipeW j)"
  shows "is_pipe f \<Longrightarrow> holds_file f (pr_fds p) \<Longrightarrow> x = Some f \<or> y = Some f"
    and "pr_reads p = Some n \<Longrightarrow> x = Some (PipeR n)" "pr_writes p = Some n \<Longrightarrow> y = Some (PipeW n)"
proof -
  have no: "\<not> holds_file f t" if "is_pipe f" for f using t(2) that by (cases f) (auto simp: pipes_below_def)
  show holds: "x = Some f \<or> y = Some f" if "is_pipe f" "holds_file f (pr_fds p)" for f
    using holds_redirected [OF that(1) holds_exec_fds] that(2) h stage_fds_facts(2) [OF t(1)]
      stage_fds_holds [OF t(1) no [OF that(1)]] unfolding fds by blast
  have "length (pr_fds p) = length t"
    by (simp add: fds exec_fds_def redirected_def stage_fds_def Let_def split: option.split)
  then have at: "holds_file f (pr_fds p)" if "pr_fds p ! i = Some (f, c)" "i = 0 \<or> i = 1" for i f c
    using that std_openD(1,4) [OF t(1)] unfolding holds_file_def by auto
  show "pr_reads p = Some n \<Longrightarrow> x = Some (PipeR n)"
    using at [of 0] holds [of "PipeR n"] xy(2) by (auto simp: pr_reads_def split: option.splits prod.splits ofile.splits)
  show "pr_writes p = Some n \<Longrightarrow> y = Some (PipeW n)"
    using at [of 1] holds [of "PipeW n"] xy(1) by (auto simp: pr_writes_def split: option.splits prod.splits ofile.splits)
qed

text \<open>What is asked of a pipeline: its stages execute programs, and the shell has no pipe of its own open.\<close>

definition launched :: "kernel \<Rightarrow> pipeline_t \<Rightarrow> shell_state_t \<Rightarrow> world \<Rightarrow> outcome list \<Rightarrow> world \<Rightarrow> bool" where
  "launched K p st w children w' \<longleftrightarrow> std_open (w_fds w) \<and>
     snd (the (w_fds w ! 0)) = False \<and> snd (the (w_fds w ! 1)) = False \<and> stages p \<noteq> [] \<and> pipes_below 0 (w_fds w) \<and>
     (\<forall>cmd \<in> set (stages p). heredoc_ok (w_fds w) cmd) \<and>
     (\<exists>pids. spawn_pipeline K p st w = (True, pids, children, w')) \<and>
     (\<forall>child \<in> set children. \<exists>as u. child = Execs as u)"

lemma network_fds:
  assumes "launched K p st w children w'" "length progs = length children" "length inputs = length children"
    and i: "i < length (stages p)"
  shows "pr_fds (n_procs (network children w' progs inputs) ! i) = exec_fds (redirected (stages p ! i)
    (stage_fds (w_fds w) (pipe_in (w_pipes w) i) (pipe_out (w_pipes w) (length (stages p)) i)))"
proof -
  obtain pids where sp: "spawn_pipeline K p st w = (True, pids, children, w')" and std: "std_open (w_fds w)"
    and ne: "stages p \<noteq> []" using assms(1) by (auto simp: launched_def)
  note f = spawn_pipeline_facts [OF std ne sp]
  obtain v where v: "children ! i = exec_child K (stages p ! i) st v"
    "w_fds v = stage_fds (w_fds w) (pipe_in (w_pipes w) i) (pipe_out (w_pipes w) (length (stages p)) i)"
    using f(7) [OF i] by (auto simp: spawned_def)
  have c: "children ! i \<in> set children" "heredoc_ok (w_fds w) (stages p ! i)"
    using assms(1) i f(1) by (auto simp: launched_def)
  obtain as u where u: "children ! i = Execs as u" using assms(1) c(1) by (auto simp: launched_def)
  have "std_open (w_fds v)" "heredoc_ok (w_fds v) (stages p ! i)"
    using v(2) stage_fds_facts(1,2) [OF std] c(2) by simp_all
  then have "w_fds u = exec_fds (redirected (stages p ! i) (w_fds v))"
    using exec_child_Execs(3) v(1) u by metis
  then show ?thesis using nth_network [OF _ assms(2,3)] i f(1) u v(2) by simp
qed

lemma network_started:
  assumes "launched K p st w children w'" "length progs = length children" "length inputs = length children"
  shows "started (w_pipes w) (network children w' progs inputs)"
proof -
  obtain pids where sp: "spawn_pipeline K p st w = (True, pids, children, w')" and std: "std_open (w_fds w)"
    and ne: "stages p \<noteq> []" and no: "pipes_below 0 (w_fds w)"
    using assms(1) by (auto simp: launched_def)
  note f = spawn_pipeline_facts [OF std ne sp]
  let ?b = "w_pipes w" and ?s = "network children w' progs inputs" and ?n = "length (stages p)"
  have len: "length (n_procs ?s) = ?n" using length_network [OF assms(2,3)] f(1) by simp
  have ends: "is_pipe g \<Longrightarrow> holds_file g (pr_fds (n_procs ?s ! i)) \<Longrightarrow> pipe_in ?b i = Some g \<or> pipe_out ?b ?n i = Some g"
    "pr_reads (n_procs ?s ! i) = Some k \<Longrightarrow> pipe_in ?b i = Some (PipeR k)"
    "pr_writes (n_procs ?s ! i) = Some k \<Longrightarrow> pipe_out ?b ?n i = Some (PipeW k)" if i: "i < ?n" for i g k
  proof -
    note fds = network_fds [OF assms i]
    have h: "heredoc_ok (w_fds w) (stages p ! i)" using assms(1) i by (simp add: launched_def)
    have xy: "pipe_in ?b i = None \<or> pipe_in ?b i = Some (PipeR (?b + i - 1))"
      "pipe_out ?b ?n i = None \<or> pipe_out ?b ?n i = Some (PipeW (?b + i))"
      by (auto simp: pipe_in_def pipe_out_def)
    show "is_pipe g \<Longrightarrow> holds_file g (pr_fds (n_procs ?s ! i)) \<Longrightarrow> pipe_in ?b i = Some g \<or> pipe_out ?b ?n i = Some g"
      "pr_reads (n_procs ?s ! i) = Some k \<Longrightarrow> pipe_in ?b i = Some (PipeR k)"
      "pr_writes (n_procs ?s ! i) = Some k \<Longrightarrow> pipe_out ?b ?n i = Some (PipeW k)"
      using stage_ends [OF std no h fds xy] by blast+
  qed
  have io: "pipe_in ?b i = Some (PipeR k) \<Longrightarrow> Suc k = ?b + i \<and> 0 < i" "pipe_in ?b i \<noteq> Some (PipeW k)"
    "pipe_out ?b ?n i = Some (PipeW k) \<Longrightarrow> k = ?b + i \<and> Suc i \<noteq> ?n" "pipe_out ?b ?n i \<noteq> Some (PipeR k)" for i k
    by (auto simp: pipe_in_def pipe_out_def split: if_splits)
  have stage: "pr_reads (n_procs ?s ! i) = Some k \<Longrightarrow> Suc k = ?b + i \<and> 0 < i"
    "pr_writes (n_procs ?s ! i) = Some k \<Longrightarrow> k = ?b + i \<and> Suc i < ?n"
    "holds_file (PipeR k) (pr_fds (n_procs ?s ! i)) \<Longrightarrow> Suc k = ?b + i"
    "holds_file (PipeW k) (pr_fds (n_procs ?s ! i)) \<Longrightarrow> k = ?b + i" if i: "i < ?n" for i k
    using ends(1) [OF i, of "PipeR k"] ends(1) [OF i, of "PipeW k"] ends(2,3) [OF i, of k] io [of i k] i
    by auto
  have "n_shell ?s = w_fds w" using f(3) by (simp add: network_def)
  then have "wired ?b ?s"
    using no stage unfolding wired_def len Let_def by (simp add: pipes_below_def)
  moreover have "\<forall>p \<in> set (n_procs ?s). pr_done p = [] \<and> pr_live p" by (auto simp: network_def)
  ultimately show ?thesis by (simp add: started_def network_def)
qed

definition net_runs :: "nat \<Rightarrow> net \<Rightarrow> net \<Rightarrow> bool" where
  "net_runs cap = (\<lambda>s s'. \<exists>i. net_step cap i s s')\<^sup>*\<^sup>*"

lemma net_runs_running:
  assumes "started b s0" "net_runs cap s0 s"
  shows "running b s0 s"
  using assms(2) unfolding net_runs_def
  by (induction rule: rtranclp_induct) (use started_running [OF assms(1)] running_step in blast)+

section \<open>What a pipeline does\<close>

text \<open>C2: the programs of a pipeline as the executor wires it never block each other: whatever the
  size of the pipes and however the processes are scheduled, if each program stops on finite input
  the pipeline has no infinite run, and where a run cannot go on all its processes are gone.\<close>

theorem pipeline_completes:
  assumes "launched K p st w children w'" "length progs = length children" "length inputs = length children"
    and "0 < cap" "\<forall>prog \<in> set progs. halts prog"
  shows "(\<nexists>S I. S 0 = network children w' progs inputs \<and> (\<forall>t. net_step cap (I t) (S t) (S (Suc t)))) \<and>
    (\<forall>s. net_runs cap (network children w' progs inputs) s \<longrightarrow> (\<forall>i s'. \<not> net_step cap i s s') \<longrightarrow>
       (\<forall>q \<in> set (n_procs s). \<not> pr_live q))"
proof -
  let ?s0 = "network children w' progs inputs" and ?b = "w_pipes w"
  have s0: "started ?b ?s0" by (rule network_started [OF assms(1-3)])
  have "\<forall>q \<in> set (n_procs ?s0). halts (pr_prog q)"
    using assms(5) nth_mem [of _ progs]
    by (auto simp: assms(2) in_set_conv_nth [of _ "n_procs ?s0"] length_network [OF assms(2,3)] nth_network [OF _ assms(2,3)])
  then have "\<nexists>S I. S 0 = ?s0 \<and> (\<forall>t. net_step cap (I t) (S t) (S (Suc t)))"
    using wired_stops s0 by metis
  moreover have "\<not> pr_live q" if "net_runs cap ?s0 s" "\<forall>i s'. \<not> net_step cap i s s'" "q \<in> set (n_procs s)" for s q
  proof
    assume "pr_live q"
    then obtain i where "runs s i q" using \<open>q \<in> set (n_procs s)\<close> by (auto simp: in_set_conv_nth runs_def)
    moreover have "wired ?b s" using net_runs_running [OF s0 that(1)] by (simp add: running_def)
    ultimately show False using wired_progress assms(4) that(2) by blast
  qed
  ultimately show ?thesis by blast
qed

text \<open>C3: at every moment of a pipeline's run, what a stage without input redirection has read, followed
  by what is in the pipe before it, is what the stage before it, without output redirection, has
  written: no byte is lost, doubled or out of order.\<close>

theorem pipeline_dataflow:
  assumes l: "launched K p st w children w'" and len: "length progs = length children" "length inputs = length children"
    and run: "net_runs cap (network children w' progs inputs) s" and i: "Suc i < length (stages p)"
    and redir: "output_file (stages p ! i) = None" "input_file (stages p ! Suc i) = None" "heredoc_fd (stages p ! Suc i) < 0"
  shows "concat (pr_done (n_procs s ! Suc i)) @ n_bytes s (w_pipes w + i) = written (n_procs s ! i)"
proof -
  let ?s0 = "network children w' progs inputs"
  have r: "running (w_pipes w) ?s0 s" by (rule net_runs_running [OF network_started [OF l len] run])
  obtain pids where sp: "spawn_pipeline K p st w = (True, pids, children, w')"
    and std: "std_open (w_fds w)" "snd (the (w_fds w ! 0)) = False" "snd (the (w_fds w ! 1)) = False"
    and ne: "stages p \<noteq> []" using l by (auto simp: launched_def)
  note f = spawn_pipeline_facts [OF std(1) ne sp]
  have fds: "pr_fds (n_procs ?s0 ! j) = exec_fds (redirected (stages p ! j)
      (stage_fds (w_fds w) (pipe_in (w_pipes w) j) (pipe_out (w_pipes w) (length (stages p)) j)))"
    "heredoc_ok (w_fds w) (stages p ! j)" if "j < length (stages p)" for j
    using network_fds [OF l len that] l that by (auto simp: launched_def)
  have "pr_reads (n_procs ?s0 ! Suc i) = Some (w_pipes w + i)"
    using stage_std(1) [OF std fds(2) [OF i]] redir(2,3) unfolding pr_reads_def fds(1) [OF i]
    by (simp add: stage_reads_def pipe_in_def)
  moreover have "pr_writes (n_procs ?s0 ! i) = Some (w_pipes w + i)"
    using stage_std(2) [OF std fds(2)] i redir(1) fds(1) [of i] unfolding pr_writes_def
    by (simp add: stage_writes_def pipe_out_def)
  moreover have "length (n_procs ?s0) = length (stages p)" using length_network [OF len] f(1) by simp
  ultimately show ?thesis using r i by (simp add: running_def flow_def Let_def)
qed

text \<open>The pipeline \<open>ls | wc\<close>, with a writer of one byte and a reader to the end.\<close>

definition sample_progs :: "program list" where
  "sample_progs = [\<lambda>h. if h = [] then Put (CHR ''a'') else Leave, \<lambda>h. if h \<noteq> [] \<and> last h = [] then Leave else Take 0]"

lemma sample_halts: "\<forall>prog \<in> set sample_progs. halts prog"
proof -
  have "halts (\<lambda>h. if h = [] then Put (CHR ''a'') else Leave)"
    unfolding halts_def by (auto dest: spec [of _ 1])
  moreover have "halts (\<lambda>h. if h \<noteq> [] \<and> last h = [] then Leave else Take 0)"
  proof (unfold halts_def, intro allI impI)
    fix f :: "nat \<Rightarrow> string"
    assume a: "\<forall>k. fits (if map f [0..<k] \<noteq> [] \<and> last (map f [0..<k]) = [] then Leave else Take 0) (f k)"
    have "f k \<noteq> []" for k using a [rule_format, of "Suc k"] by auto
    then show "infinite {k. f k \<noteq> []}" by simp
  qed
  ultimately show ?thesis by (simp add: sample_progs_def)
qed

lemma sample_launched:
  "\<exists>children w'. launched sample_kernel sample_pipeline shell_init sample_world children w' \<and> length children = 2"
proof -
  obtain pids children w' where sp:
    "spawn_pipeline sample_kernel sample_pipeline shell_init sample_world = (True, pids, children, w')"
    using sample_spawn(1) by (metis prod_cases4 fst_conv)
  have ne: "stages sample_pipeline \<noteq> []" by (simp add: sample_spawn(2))
  note f = spawn_pipeline_facts [OF sample_spawn(3) ne sp]
  have len: "length children = 2" using f(1) by (simp add: sample_spawn(2))
  have plain: "0 \<le> heredoc_fd cmd \<or> input_file cmd = None" "output_file cmd = None" "heredoc_fd cmd < 0"
    "\<not> is_builtin (cmd_name cmd)" if "cmd \<in> set (stages sample_pipeline)" for cmd
    using that by (auto simp: sample_spawn(2) add_arg_def empty_command_def command_zero_def is_builtin_def MAX_ARGS_def)
  have "\<exists>as u. child = Execs as u" if "child \<in> set children" for child
  proof -
    obtain i where i: "i < length (stages sample_pipeline)" "child = children ! i"
      using \<open>child \<in> set children\<close> f(1) by (auto simp: in_set_conv_nth)
    obtain v where v: "child = exec_child sample_kernel (stages sample_pipeline ! i) shell_init v"
      using f(7) [OF i(1)] i(2) by (auto simp: spawned_def)
    have "k_exec sample_kernel tr as = None" for tr as by (simp add: sample_kernel_def)
    then show ?thesis using exec_child_plain plain(1,2,4) [OF nth_mem [OF i(1)]] v by metis
  qed
  moreover have "heredoc_ok (w_fds sample_world) cmd" if "cmd \<in> set (stages sample_pipeline)" for cmd
    using plain(3) [OF that] by (simp add: heredoc_ok_def)
  moreover have "pipes_below 0 (w_fds sample_world)"
    by (auto simp: pipes_below_def holds_file_def sample_world_def nth_Cons numeral_eq_Suc split: nat.splits)
  ultimately have "launched sample_kernel sample_pipeline shell_init sample_world children w'"
    using sp ne sample_spawn(3) by (auto simp: launched_def sample_world_def)
  then show ?thesis using len by blast
qed

theorem pipeline_completes_witness:
  "\<exists>children w'. launched sample_kernel sample_pipeline shell_init sample_world children w' \<and>
     (\<nexists>S I. S 0 = network children w' sample_progs [[], []] \<and> (\<forall>t. net_step 1 (I t) (S t) (S (Suc t))))"
proof -
  obtain children w' where l: "launched sample_kernel sample_pipeline shell_init sample_world children w'"
    "length children = 2" using sample_launched by blast
  have "length sample_progs = length children" "length [[], []] = length children"
    using l(2) by (simp_all add: sample_progs_def)
  from pipeline_completes [OF l(1) this zero_less_one sample_halts] show ?thesis using l(1) by blast
qed

theorem pipeline_dataflow_witness:
  "\<exists>children w'. launched sample_kernel sample_pipeline shell_init sample_world children w' \<and>
     (\<forall>s. net_runs 1 (network children w' sample_progs [[], []]) s \<longrightarrow>
        concat (pr_done (n_procs s ! 1)) @ n_bytes s 0 = written (n_procs s ! 0))"
proof -
  obtain children w' where l: "launched sample_kernel sample_pipeline shell_init sample_world children w'"
    "length children = 2" using sample_launched by blast
  have "length sample_progs = length children" "length [[], []] = length children"
    using l(2) by (simp_all add: sample_progs_def)
  note t = pipeline_dataflow [OF l(1) this, of 1 _ 0]
  have "w_pipes sample_world = 0" by (simp add: sample_world_def)
  then show ?thesis
    using t l(1) by (auto simp: sample_spawn(2) add_arg_def empty_command_def command_zero_def)
qed

end
