(* ===== verification/Keyboard.thy ===== *)
theory Keyboard
  imports Executor
begin

text \<open>
  Process groups and the keyboard. A process is in the group it last moved itself to; the terminal
  sends the signals of Ctrl+C, Ctrl+\ and Ctrl+Z to its foreground group. While the shell waits
  for a foreground pipeline, that group is the pipeline's, each of its programs is in it and dies
  or stops by these signals, and the shell ignores them; the terminal comes back with the prompt.
  The pipeline gets the terminal from the shell only, after the forks: a program that is faster
  reads from a terminal that is not its own.
\<close>

text \<open>The group after a process's own calls; 0 in \<open>setpgid\<close> stands for the process itself.\<close>

fun group_step :: "int \<Rightarrow> event \<Rightarrow> int \<Rightarrow> int" where
  "group_step pid (SysSetpgid p g) old = (if p = 0 \<or> p = pid then (if g = 0 then pid else g) else old)"
| "group_step pid e old = old"

definition group_after :: "int \<Rightarrow> int \<Rightarrow> event list \<Rightarrow> int" where
  "group_after pid old tr = fold (group_step pid) tr old"

fun no_group_event :: "event \<Rightarrow> bool" where
  "no_group_event (SysSetpgid p g) = False"
| "no_group_event e = True"

lemma group_after_quiet: "list_all no_group_event es \<Longrightarrow> group_after pid old (tr @ es) = group_after pid old tr"
proof -
  have "list_all no_group_event es \<Longrightarrow> fold (group_step pid) es g = g" for g
  proof (induction es arbitrary: g)
    case (Cons e es)
    then show ?case by (cases e) simp_all
  qed simp
  then show "list_all no_group_event es \<Longrightarrow> group_after pid old (tr @ es) = group_after pid old tr"
    by (simp add: group_after_def)
qed

lemma group_after_last:
  assumes "last tr = SysSetpgid 0 g" "tr \<noteq> []"
  shows "group_after pid old tr = (if g = 0 then pid else g)"
proof -
  have "tr = butlast tr @ [SysSetpgid 0 g]" using assms append_butlast_last_id by metis
  then have "group_after pid old tr = group_step pid (SysSetpgid 0 g) (fold (group_step pid) (butlast tr) old)"
    unfolding group_after_def by (metis fold_append comp_apply fold_simps(1,2))
  then show ?thesis by simp
qed

text \<open>A child does not change its group once it is wired.\<close>

lemma exec_child_trace:
  assumes "exec_child K cmd st v = Execs as u"
  shows "trace_ext no_group_event v u"
proof -
  have open_ext: "trace_ext no_group_event w w1" if "sys_open K path fl m w = (r, w1)" for path fl m w r w1
    using that by (auto simp: sys_open_def Let_def trace_ext_def split: option.splits)
  let ?w2 = "reset_child_signals (v\<lparr>w_mask := {}\<rparr>)"
  obtain w3 where r: "apply_redirection K cmd ?w2 = Inr w3"
    and u: "w_trace u = w_trace w3 @ [SysExec as]"
    using assms by (auto simp: exec_child_def Let_def split: sum.splits if_splits prod.splits option.splits)
  obtain w4 where i: "redirect_input K cmd ?w2 = Inr w4" and o: "redirect_output K cmd w4 = Inr w3"
    using r by (auto simp: apply_redirection_def split: sum.splits)
  have "trace_ext no_group_event v ?w2"
    by (simp add: reset_child_signals_def Let_def trace_ext_def)
  also have "trace_ext no_group_event ?w2 w4"
    using i by (auto simp: redirect_input_def trace_ext_def split: if_splits option.splits prod.splits sum.splits dest!: open_ext)
  also have "trace_ext no_group_event w4 w3"
    using o by (auto simp: redirect_output_def trace_ext_def split: if_splits option.splits prod.splits sum.splits dest!: open_ext)
  finally show ?thesis using u by (auto intro: trace_ext_step)
qed

lemma exec_child_tty:
  assumes "exec_child K cmd st v = Execs as u" "std_open (w_fds v)" "heredoc_ok (w_fds v) cmd"
  shows "w_tty u = w_tty v"
proof -
  let ?w2 = "reset_child_signals (v\<lparr>w_mask := {}\<rparr>)"
  obtain w3 where r: "apply_redirection K cmd ?w2 = Inr w3"
    and w': "u = (emit (SysExec as) w3)\<lparr>w_fds := exec_fds (w_fds w3)\<rparr>"
    using assms(1) by (auto simp: exec_child_def Let_def split: sum.splits if_splits prod.splits option.splits)
  have "same_context ?w2 w3" using redirection_fds [OF r] assms(2,3) by simp
  then show ?thesis using w' by (simp add: same_context_def)
qed

section \<open>The stages of a foreground pipeline\<close>

text \<open>A signal from a terminal whose foreground group is \<open>g\<close> acts on a process by its default.\<close>

definition reached :: "signal \<Rightarrow> int \<Rightarrow> int \<Rightarrow> int \<Rightarrow> world \<Rightarrow> bool" where
  "reached s g pid old u \<longleftrightarrow>
     group_after pid old (w_trace u) = g \<and> s \<notin> w_mask u \<and> w_disp u s = SIG_DFL"

abbreviation keyboard_signals :: "signal set" where
  "keyboard_signals \<equiv> {SIGINT, SIGQUIT, SIGTSTP}"

lemma stage_reached:
  assumes "std_open (w_fds w)" "spawn_pipeline K p st w = (True, pids, children, w')"
    and "i < length (stages p)" "heredoc_ok (w_fds w) (stages p ! i)" "children ! i = Execs as u"
    and "0 < hd pids"
  shows "s \<in> keyboard_signals \<union> {SIGTTIN} \<Longrightarrow> reached s (hd pids) (pids ! i) old u" "w_tty u = w_tty w"
proof -
  have ne: "stages p \<noteq> []" using assms(3) by auto
  note f = spawn_pipeline_facts [OF assms(1) ne assms(2)]
  obtain v where v: "children ! i = exec_child K (stages p ! i) st v"
    "w_fds v = stage_fds (w_fds w) (pipe_in (w_pipes w) i) (pipe_out (w_pipes w) (length (stages p)) i)"
    "w_tty v = w_tty w" "w_trace v \<noteq> []" "last (w_trace v) = SysSetpgid 0 (if i = 0 then 0 else hd pids)"
    using f(7) [OF assms(3)] by (auto simp: spawned_def same_context_def)
  have ex: "exec_child K (stages p ! i) st v = Execs as u" using v(1) assms(5) by simp
  have fds: "std_open (w_fds v)" "heredoc_ok (w_fds v) (stages p ! i)"
    using stage_fds_facts(1,2) [OF assms(1)] assms(4) v(2) by simp_all
  obtain es where es: "w_trace u = w_trace v @ es" "list_all no_group_event es"
    using exec_child_trace [OF ex] by (auto simp: trace_ext_def list_all_iff)
  have "pids ! 0 = hd pids" using f(2) ne by (cases pids) auto
  then have "group_after (pids ! i) old (w_trace u) = hd pids"
    using group_after_last [OF v(5,4)] group_after_quiet [OF es(2)] es(1) assms(6) by auto
  then show "s \<in> keyboard_signals \<union> {SIGTTIN} \<Longrightarrow> reached s (hd pids) (pids ! i) old u"
    using exec_child_Execs(4,7) [OF ex fds] by (auto simp: reached_def)
  show "w_tty u = w_tty w" using exec_child_tty [OF ex fds] v(3) by simp
qed

text \<open>C14: while an interactive shell waits for a foreground pipeline, the terminal's foreground
  group is the pipeline's: Ctrl+C, Ctrl+\ and Ctrl+Z act by their default on every program of it,
  not blocked and not ignored, and the shell that ignored them before still ignores them. After
  the wait the foreground group is the shell's again.\<close>

theorem keyboard_reaches_pipeline:
  assumes "execute_pipeline K p st w = (r, children, st', w')" "\<not> pl_background p" "interactive st"
    and "spawn_pipeline K p st (snd (block_sigchld w)) = (True, pids, children, w2)"
    and "std_open (w_fds w)" "\<forall>i < length (stages p). heredoc_ok (w_fds w) (stages p ! i)"
    and "0 < hd pids" "\<forall>s \<in> keyboard_signals. w_disp w s = SIG_IGN"
  shows "\<exists>w3 st1 w4. wait_foreground_group K st (hd pids) (format_pipeline_label p JOB_CMD_LEN) w3 = (r, st1, w4) \<and>
    w_tty w3 = hd pids \<and>
    (\<forall>s \<in> keyboard_signals. w_disp w3 s = SIG_IGN \<and>
       (\<forall>i as u. i < length (stages p) \<longrightarrow> children ! i = Execs as u \<longrightarrow>
          reached s (w_tty w3) (pids ! i) old u)) \<and>
    w_tty w' = shell_pgid st"
  using assms(1)
proof (cases rule: execute_cases)
  case (failed pids' w2')
  then show ?thesis using assms(4) by simp
next
  case (background pids' w2' t k w3)
  then show ?thesis using assms(2) by simp
next
  case (foreground pids' w2' w3 st1 w4)
  have same: "pids' = pids" "w2' = w2" using foreground(2) assms(4) by simp_all
  have t: "w_tty w3 = hd pids" "w_disp w3 = w_disp w2" using foreground(3) assms(3) same by simp_all
  have "w_disp w2 = w_disp w" 
    using spawn_pipeline_kept(1) [OF assms(4)] by (simp add: kept_def same_context_def)
  then have d: "\<forall>s \<in> keyboard_signals. w_disp w3 s = SIG_IGN" using t(2) assms(8) by simp
  have "std_open (w_fds (snd (block_sigchld w)))"
    "heredoc_ok (w_fds (snd (block_sigchld w))) (stages p ! i)" if "i < length (stages p)" for i
    using assms(5,6) that by simp_all
  then have "reached s (w_tty w3) (pids ! i) old u"
    if "s \<in> keyboard_signals" "i < length (stages p)" "children ! i = Execs as u" for s i as u
    using stage_reached(1) [OF _ assms(4) that(2) _ that(3) assms(7)] that t(1) by simp
  moreover have "owns_tty st' w'" using unblock_owns [OF foreground(5)] by simp
  then have "w_tty w' = shell_pgid st"
    using wait_frame [OF foreground(4)] unblock_only [OF foreground(5)] assms(3)
    by (simp add: owns_tty_def only_jobs_def same_session_def)
  ultimately show ?thesis using foreground(4) same t(1) d by blast
qed

text \<open>The pipeline of the concrete instances, in an interactive shell that set its signals.\<close>

definition prompt_state :: shell_state_t where
  "prompt_state = shell_init\<lparr>interactive := True, shell_pgid := 1\<rparr>"

definition prompt_world :: world where
  "prompt_world = sample_world\<lparr>w_disp := \<lambda>_. SIG_IGN\<rparr>"

lemma prompt_spawn:
  "spawn_pipeline sample_kernel sample_pipeline prompt_state (snd (block_sigchld prompt_world)) = (ok, pids, cs, w2) \<Longrightarrow>
     ok \<and> pids = [101, 103]"
  by (auto simp: spawn_pipeline_def sample_pipeline_def sample_simps sys_pipe_def prompt_world_def
      lowest_free_def Let_def case_prod_beta block_sigchld_def)

lemma prompt_stages:
  "i < length (stages sample_pipeline) \<Longrightarrow> heredoc_ok t (stages sample_pipeline ! i)"
  by (auto simp: sample_spawn(2) heredoc_ok_def add_arg_def empty_command_def less_Suc_eq)

theorem keyboard_reaches_pipeline_witness:
  "\<exists>w3 st1 w4. wait_foreground_group sample_kernel prompt_state 101
     (format_pipeline_label sample_pipeline JOB_CMD_LEN) w3 =
       (fst (execute_pipeline sample_kernel sample_pipeline prompt_state prompt_world), st1, w4) \<and> w_tty w3 = 101"
proof -
  obtain r cs st' w' where e: "execute_pipeline sample_kernel sample_pipeline prompt_state prompt_world = (r, cs, st', w')"
    by (metis prod_cases4)
  obtain ok pids cs' w2 where s: "spawn_pipeline sample_kernel sample_pipeline prompt_state
      (snd (block_sigchld prompt_world)) = (ok, pids, cs', w2)" by (metis prod_cases4)
  have ok: "ok" "pids = [101, 103]" using prompt_spawn [OF s] by simp_all
  have bg: "\<not> pl_background sample_pipeline" by (simp add: sample_pipeline_def pipeline_zero_def)
  have cs: "cs' = cs"
    using e
  proof (cases rule: execute_cases)
    case (foreground pids' w2' w3 st1 w4)
    then show ?thesis using s by simp
  qed (use s ok bg in simp_all)
  show ?thesis
    using keyboard_reaches_pipeline [OF e bg _ s [unfolded cs, unfolded eqTrueI [OF ok(1)]]] ok(2)
      sample_spawn(3) prompt_stages e
    by (fastforce simp: prompt_state_def prompt_world_def)
qed

text \<open>C36: only the shell hands the terminal over, after every fork. A program of the pipeline that
  runs before that finds the terminal in the shell's foreground group, not in its own, and has
  SIGTTIN at its default: if it reads from the terminal then, it is stopped.\<close>

theorem early_read_stops:
  assumes "spawn_pipeline K p st w = (True, pids, children, w')" "std_open (w_fds w)"
    and "interactive st" "owns_tty st w" "shell_pgid st \<noteq> hd pids" "0 < hd pids"
    and "i < length (stages p)" "heredoc_ok (w_fds w) (stages p ! i)" "children ! i = Execs as u"
  shows "w_tty u = shell_pgid st \<and> group_after (pids ! i) old (w_trace u) \<noteq> w_tty u \<and>
    SIGTTIN \<notin> w_mask u \<and> w_disp u SIGTTIN = SIG_DFL"
  using stage_reached(1) [OF assms(2,1,7-9,6), where s = SIGTTIN and old = old]
    stage_reached(2) [OF assms(2,1,7-9,6)] assms(3-5)
  by (simp add: reached_def owns_tty_def)

theorem early_read_stops_witness:
  "\<exists>u. fst (snd (snd (spawn_pipeline sample_kernel sample_pipeline prompt_state prompt_world))) ! 1 =
        Execs [''wc''] u \<and> w_tty u = 1 \<and> group_after 103 0 (w_trace u) \<noteq> 1"
proof -
  obtain ok pids cs w2 where s: "spawn_pipeline sample_kernel sample_pipeline prompt_state prompt_world = (ok, pids, cs, w2)"
    by (metis prod_cases4)
  have ok: "ok" "pids = [101, 103]"
    using s by (auto simp: spawn_pipeline_def sample_pipeline_def sample_simps sys_pipe_def prompt_world_def
        lowest_free_def Let_def case_prod_beta)
  have s: "spawn_pipeline sample_kernel sample_pipeline prompt_state prompt_world = (True, pids, cs, w2)"
    using s ok by simp
  have std: "std_open (w_fds prompt_world)" using sample_spawn(3) by (simp add: prompt_world_def)
  have st: "stages sample_pipeline ! 1 = add_arg empty_command ''wc''" by (simp add: sample_spawn(2))
  obtain v where "cs ! 1 = exec_child sample_kernel (stages sample_pipeline ! 1) prompt_state v"
    using spawn_pipeline_facts(7) [OF std _ s, of 1] sample_spawn(2) by (auto simp: spawned_def)
  moreover have "\<exists>u. exec_child sample_kernel (add_arg empty_command ''wc'') prompt_state v =
      Execs (c_argv (args (add_arg empty_command ''wc''))) u" for v
    by (rule exec_child_plain)
      (simp_all add: add_arg_def empty_command_def command_zero_def is_builtin_def sample_kernel_def MAX_ARGS_def)
  moreover have "c_argv (args (add_arg empty_command ''wc'')) = [''wc'']"
    by (simp add: add_arg_def empty_command_def command_zero_def MAX_ARGS_def c_argv_def numeral_eq_Suc)
  ultimately obtain u where u: "cs ! 1 = Execs [''wc''] u" using st by metis
  have "owns_tty prompt_state prompt_world" "interactive prompt_state" "shell_pgid prompt_state = 1"
    by (simp_all add: owns_tty_def prompt_state_def prompt_world_def sample_world_def)
  then show ?thesis
    using early_read_stops [OF s std, of 1 _ u 0] ok(2) u s prompt_stages [of 1] sample_spawn(2) by auto
qed

end
