(* ===== verification/Values.thy ===== *)
theory Values
  imports Repl
begin

text \<open>
  Every value the shell keeps is one its C type can hold: the status is an int, and the strings it
  stores (history, labels, environment) have no NUL inside, whatever lines it reads, whichever
  allocations fail, and whatever the children report. The theorems on lines ask for an int status
  and such an environment; this is where a session gets them from.
\<close>

section \<open>What is typed\<close>

abbreviation nul_free :: "string option \<Rightarrow> bool" where
  "nul_free \<equiv> pred_option is_cstr"

definition command_typed :: "command_t \<Rightarrow> bool" where
  "command_typed cmd \<longleftrightarrow> 1 < length (args cmd) \<and> list_all nul_free (args cmd) \<and> nul_free (input_file cmd) \<and>
     nul_free (output_file cmd) \<and> nul_free (heredoc_delim cmd)"

text \<open>The two counters grow with the session; the number bounds them.\<close>

definition jobs_typed :: "int \<Rightarrow> jobs_table_t \<Rightarrow> bool" where
  "jobs_typed b t \<longleftrightarrow> list_all (\<lambda>j. is_cstr (job_command j)) (jobs t) \<and> next_id t \<le> b"

definition history_typed :: "int \<Rightarrow> history_t \<Rightarrow> bool" where
  "history_typed b h \<longleftrightarrow> list_all nul_free (entries h) \<and> hist_total h \<le> b"

text \<open>The environment as \<open>setenv\<close> accepts it.\<close>

definition env_typed :: "(string \<rightharpoonup> string) \<Rightarrow> bool" where
  "env_typed env \<longleftrightarrow> (\<forall>k v. env k = Some v \<longrightarrow> k \<noteq> [] \<and> CHR ''='' \<notin> set k \<and> is_cstr k \<and> is_cstr v)"

definition typed :: "int \<Rightarrow> int \<Rightarrow> shell_state_t \<times> world \<Rightarrow> bool" where
  "typed h b a \<longleftrightarrow> (case a of (st, w) \<Rightarrow> is_int32 (last_status st) \<and> history_typed h (sh_history st) \<and>
     jobs_typed b (sh_jobs st) \<and> env_typed (w_env w))"

text \<open>The paths that a pattern matches are C strings.\<close>

definition glob_typed :: "(string \<Rightarrow> string list option) \<Rightarrow> bool" where
  "glob_typed glob \<longleftrightarrow> (\<forall>s ps. glob s = Some ps \<longrightarrow> list_all is_cstr ps)"

lemma typed_simps [simp]: "typed h b (st, emit e w) = typed h b (st, w)"
  "typed h b (st, print_lines ls w) = typed h b (st, w)"
  by (simp_all add: typed_def)

lemma list_all_update: "list_all P xs \<Longrightarrow> (i < length xs \<Longrightarrow> P x) \<Longrightarrow> list_all P (xs[i := x])"
  by (cases "i < length xs") (auto simp: list_all_length nth_list_update)

lemma list_all_take: "list_all P xs \<Longrightarrow> list_all P (take n xs)"
  by (auto simp: list_all_iff dest: in_set_takeD)

lemma list_all_drop: "list_all P xs \<Longrightarrow> list_all P (drop n xs)"
  by (auto simp: list_all_iff dest: in_set_dropD)

section \<open>From the line to the commands\<close>

lemma tokens_typed: "is_cstr s \<Longrightarrow> list_all is_cstr (strtok_all d s)"
  unfolding list_all_iff using strtok_all_token [of _ d s] is_cstr_mono [of _ s] by blast

primrec item_typed :: "item \<Rightarrow> bool" where
  "item_typed (Arg s) = is_cstr s"
| "item_typed Background = True"
| "item_typed (Heredoc s) = is_cstr s"
| "item_typed (Input s) = is_cstr s"
| "item_typed (Output s b) = is_cstr s"

lemma read_items_typed:
  "read_items n ws = Inr its \<Longrightarrow> list_all is_cstr ws \<Longrightarrow> list_all item_typed its"
proof (induction ws arbitrary: n its rule: length_induct)
  case (1 ws)
  show ?case
  proof (cases ws)
    case (Cons w ws')
    from "1.prems"(1) [unfolded Cons] show ?thesis
    proof (cases rule: read_items_cases)
      case (flag more)
      then show ?thesis using "1.IH" [rule_format, OF _ flag(2)] Cons "1.prems"(2) by simp
    next
      case (pair f ws'' it more)
      then show ?thesis using "1.IH" [rule_format, OF _ pair(3)] Cons "1.prems"(2) by auto
    next
      case (word more)
      then show ?thesis using "1.IH" [rule_format, OF _ word(3)] Cons "1.prems"(2) by simp
    qed simp
  qed (use "1.prems" in simp)
qed

lemma put_item_typed: "command_typed cmd \<Longrightarrow> item_typed it \<Longrightarrow> command_typed (put_item cmd it)"
  by (cases it) (simp_all add: put_item_def add_arg_def command_typed_def list_all_update)

lemma put_items_typed: "command_typed cmd \<Longrightarrow> list_all item_typed its \<Longrightarrow> command_typed (foldl put_item cmd its)"
  by (induction its arbitrary: cmd) (simp_all add: put_item_typed)

lemma spec_command_typed:
  assumes "spec_command ws = Inr cmd" "list_all is_cstr ws" shows "command_typed cmd"
proof -
  have "command_typed empty_command"
    by (simp add: command_typed_def empty_command_def command_zero_def list_all_iff MAX_ARGS_def)
  then show ?thesis
    using assms read_items_typed put_items_typed by (auto simp: spec_command_def map_sum_id_Inr)
qed

lemma spec_stages_typed:
  "spec_stages n segs = Inr cmds \<Longrightarrow> list_all is_cstr segs \<Longrightarrow> list_all command_typed cmds"
proof (induction segs arbitrary: n cmds)
  case (Cons seg segs)
  show ?case
  proof (cases "n = 0")
    case False
    obtain cmd where cmd: "spec_command (strtok_all TOKEN_DELIMITERS seg) = Inr cmd"
      using Cons.prems(1) False by (cases "spec_command (strtok_all TOKEN_DELIMITERS seg)") simp_all
    then have "command_typed cmd" using spec_command_typed tokens_typed Cons.prems(2) by simp
    then show ?thesis
      using Cons.prems Cons.IH False cmd by (cases "argc cmd > 0") (auto simp: map_sum_id_Inr)
  qed (use Cons.prems in simp)
qed simp

lemma parse_typed:
  assumes "parse_pipeline line = Inr p" "is_cstr line"
  shows "list_all command_typed (stages p)"
proof -
  have "spec_stages MAX_COMMANDS (strtok_all PIPE_DELIMITER line) = Inr (stages p)"
    using parse_pipeline_facts(1) [of line] assms(1) by (simp add: spec_pipeline_def)
  then show ?thesis using spec_stages_typed tokens_typed [OF assms(2)] by blast
qed

lemma expand_args_typed:
  "glob_typed glob \<Longrightarrow> list_all nul_free as' \<Longrightarrow>
     list_all nul_free (expand_args mem glob env status as as')"
proof (induction mem glob env status as as' rule: expand_args.induct)
  case (2 mem glob env status a as as')
  have strdup: "list_all nul_free (map (strdup mem) (take n ps))" if "list_all is_cstr ps" for n ps
    using that by (auto simp: list_all_iff strdup_def dest: in_set_takeD)
  show ?case
    using 2 strdup unfolding glob_typed_def
    by (auto simp: Let_def split: option.splits)
qed simp

lemma expand_target_typed:
  "glob_typed glob \<Longrightarrow> nul_free (expand_target mem glob env status f)"
  by (fastforce simp: expand_target_def expand_word_def Let_def glob_typed_def strdup_def split: option.splits list.splits)

lemma expand_command_typed:
  "glob_typed glob \<Longrightarrow> command_typed cmd \<Longrightarrow> command_typed (expand_command mem glob env status cmd)"
  using expand_target_typed expand_args_typed [of glob "[]"]
  by (auto simp: expand_command_def Let_def command_typed_def list_all_drop)

lemma collect_loop_typed:
  "collect_loop K tty cmds w = (ok, cmds', w') \<Longrightarrow> list_all command_typed cmds \<Longrightarrow>
     list_all command_typed cmds' \<and> length cmds' = length cmds"
proof (induction cmds arbitrary: w ok cmds' w')
  case (Cons cmd cmds)
  obtain fd w1 where r: "read_one_heredoc K (the (heredoc_delim cmd)) tty w = (fd, w1)" by fastforce
  obtain ok1 cmds1 w2 where n: "collect_loop K tty cmds w = (ok1, cmds1, w2)" by (metis prod_cases3)
  obtain ok2 cmds2 w3 where s: "collect_loop K tty cmds w1 = (ok2, cmds2, w3)" by (metis prod_cases3)
  show ?case
    using Cons.prems Cons.IH [OF n] Cons.IH [OF s] r n s
    by (cases "heredoc_delim cmd") (auto simp: command_typed_def split: if_splits)
qed simp

lemma collect_typed:
  assumes "collect_heredocs K p st w = (ok, p', w')" "list_all command_typed (stages p)"
  shows "list_all command_typed (stages p')"
proof -
  obtain cmds where c: "collect_loop K (interactive st) (stages p) w = (ok, cmds, w')"
    and p': "p' = p\<lparr>commands := cmds @ drop (num_commands p) (commands p)\<rparr>"
    using assms(1) by (auto simp: collect_heredocs_def stages_def split: prod.splits)
  note t = collect_loop_typed [OF c assms(2)]
  then have "stages p' = cmds" unfolding p' by (intro stages_update) simp
  then show ?thesis using t by simp
qed

section \<open>The job table and the history\<close>

lemma jobs_typed_mono: "jobs_typed b t \<Longrightarrow> b \<le> c \<Longrightarrow> jobs_typed c t"
  by (simp add: jobs_typed_def)

lemma jobs_add_typed: "jobs_typed b t \<Longrightarrow> is_cstr cmd \<Longrightarrow> jobs_typed (b + 1) (snd (jobs_add t p cmd st))"
  by (auto simp: jobs_typed_def jobs_add_def snprintf_def is_cstr_def split: option.split
      intro!: list_all_update dest: in_set_takeD)

lemma set_slot_typed:
  "list_all (\<lambda>j. is_cstr (job_command j)) js \<Longrightarrow> job_command (f (js ! i)) = job_command (js ! i) \<Longrightarrow>
     list_all (\<lambda>j. is_cstr (job_command j)) (js[i := f (js ! i)])"
  by (cases "i < length js") (auto simp: list_all_length nth_list_update)

lemma jobs_ops_typed:
  assumes "jobs_typed b t"
  shows "jobs_typed b (jobs_mark_done t p s)" "jobs_typed b (jobs_set_state t i d)"
    "jobs_typed b (jobs_remove_by_pid t p)" "jobs_typed b (jobs_clear_done t)"
    "jobs_typed b (snd (jobs_notify_completed t))"
proof -
  note slot = set_slot_typed [OF conjunct1 [OF assms [unfolded jobs_typed_def]]]
  show "jobs_typed b (jobs_mark_done t p s)" "jobs_typed b (jobs_set_state t i d)"
    "jobs_typed b (jobs_remove_by_pid t p)"
    using assms slot [of "\<lambda>j. j\<lparr>job_state := JOB_DONE, job_status := s\<rparr>"]
      slot [of "job_state_update (\<lambda>_. d)"] slot [of "job_in_use_update (\<lambda>_. False)"]
    by (simp_all add: jobs_typed_def jobs_mark_done_def jobs_set_state_def jobs_remove_by_pid_def
        jobs_free_slot_def split: option.split)
  have "list_all (\<lambda>j. is_cstr (job_command j)) js \<Longrightarrow> list_all (\<lambda>j. is_cstr (job_command j)) (clear_loop js)" for js
    by (induction js) auto
  then show "jobs_typed b (jobs_clear_done t)" using assms by (simp add: jobs_typed_def jobs_clear_done_def)
  have "list_all (\<lambda>j. is_cstr (job_command j)) js \<Longrightarrow> list_all (\<lambda>j. is_cstr (job_command j)) (snd (notify_loop js))" for js
    by (induction js) (auto simp: Let_def case_prod_beta)
  then show "jobs_typed b (snd (jobs_notify_completed t))"
    using assms by (simp add: jobs_typed_def jobs_notify_completed_def case_prod_beta Let_def)
qed

lemma reap_typed: "jobs_typed b t \<Longrightarrow> jobs_typed b (reap_loop answers t)"
  by (induction answers t rule: reap_loop.induct) (simp_all add: jobs_ops_typed)

lemma deliver_typed: "deliver_sigchld K st w = (st', w') \<Longrightarrow> jobs_typed b (sh_jobs st) \<Longrightarrow> jobs_typed b (sh_jobs st')"
  by (auto simp: deliver_sigchld_def sigchld_handler_def Let_def reap_typed split: if_splits)

lemma history_add_typed: "history_typed b h \<Longrightarrow> is_cstr s \<Longrightarrow> history_typed (b + 1) (history_add ok h (Some s))"
  by (auto simp: history_typed_def history_add_def trim_trailing_def is_cstr_def
      intro!: list_all_update dest: in_set_takeD)

section \<open>Labels and waiting\<close>

lemma label_args_typed:
  "is_cstr buf \<Longrightarrow> list_all nul_free as \<Longrightarrow> is_cstr (fst (label_args n a as (buf, used)))"
proof (induction as arbitrary: a buf used)
  case (Cons arg rest)
  have "is_cstr (printf_s arg)" using Cons.prems(2) by (cases arg) (simp_all add: printf_s_def is_cstr_def)
  then have x: "is_cstr ((if 0 < a then '' '' else []) @ printf_s arg)" by (simp add: is_cstr_def)
  obtain bs len where t: "snprintf (n - used) ((if 0 < a then '' '' else []) @ printf_s arg) = (bs, len)"
    by fastforce
  then have "set bs \<subseteq> set ((if 0 < a then '' '' else []) @ printf_s arg)"
    by (metis fst_conv set_take_subset snprintf_def)
  then have "is_cstr bs" using x is_cstr_mono by blast
  then show ?case using Cons t by simp
qed simp

lemma label_commands_typed:
  "is_cstr buf \<Longrightarrow> list_all command_typed cmds \<Longrightarrow> is_cstr (fst (label_commands n c cmds (buf, used)))"
proof (induction cmds arbitrary: c buf used)
  case (Cons cmd cmds)
  obtain buf1 used1 where b1: "(if c > 0 then (case snprintf (n - used) '' | '' of (text, len) \<Rightarrow> (buf @ text, used + len))
      else (buf, used)) = (buf1, used1)" by fastforce
  have "is_cstr buf1" using b1 Cons.prems(1)
    by (auto simp: snprintf_def is_cstr_def dest!: in_set_takeD split: if_splits)
  then have "is_cstr (fst (label_args n 0 (take (argc cmd) (args cmd)) (buf1, used1)))"
    using Cons.prems(2) by (intro label_args_typed list_all_take) (simp_all add: command_typed_def)
  then have "is_cstr (fst (label_commands n (c + 1) cmds (label_args n 0 (take (argc cmd) (args cmd)) (buf1, used1))))"
    using Cons.IH Cons.prems(2) by (metis list.pred_inject(2) prod.collapse)
  then show ?case using Cons.prems(1) b1 by simp
qed simp

lemma label_typed: "list_all command_typed (stages p) \<Longrightarrow> is_cstr (format_pipeline_label p n)"
  using label_commands_typed [of "[]"] by (simp add: format_pipeline_label_def stages_def)

lemma code_int32: "is_int32 (status_to_code s)" "is_int32 (128 + WSTOPSIG s)"
  using status_to_code_range [of s] WEXITSTATUS_range [of s] by (simp_all add: is_int32_def WSTOPSIG_def)

lemma wait_loop_typed:
  "wait_loop answers st pgid label code interrupted w = (r, st', w') \<Longrightarrow> is_int32 code \<Longrightarrow> is_cstr label \<Longrightarrow>
     jobs_typed b (sh_jobs st) \<Longrightarrow> is_int32 r \<and> jobs_typed (b + 1) (sh_jobs st')"
proof (induction answers st pgid label code interrupted w rule: wait_loop.induct)
  case (1 st pgid label code interrupted w)
  then show ?case by (auto simp: wait_done_def Let_def intro!: jobs_typed_mono [OF jobs_ops_typed(3)])
next
  case (2 p status answers st pgid label code interrupted w)
  consider "p < 0" | "\<not> p < 0" "WIFSTOPPED status" | "\<not> p < 0" "\<not> WIFSTOPPED status" by blast
  then show ?case
  proof cases
    case 1
    then show ?thesis using "2.prems" by (auto simp: wait_done_def Let_def intro!: jobs_typed_mono [OF jobs_ops_typed(3)])
  next
    case 2
    then show ?thesis using "2.prems" jobs_add_typed
      by (auto simp: wait_stopped_def code_int32 case_prod_beta
          intro!: jobs_typed_mono [OF jobs_ops_typed(2)] split: option.splits)
  next
    case 3
    then show ?thesis using "2.prems" "2.IH" [OF refl] code_int32(1) by simp
  qed
qed

lemma wait_typed:
  "wait_foreground_group K st pgid label w = (r, st', w') \<Longrightarrow> is_cstr label \<Longrightarrow> jobs_typed b (sh_jobs st) \<Longrightarrow>
     is_int32 r \<and> jobs_typed (b + 1) (sh_jobs st')"
  unfolding wait_foreground_group_def using wait_loop_typed [of _ _ _ _ 0] by (simp add: is_int32_def)

section \<open>The built-ins\<close>

text \<open>
  The history, the settings and the last status are left alone, so what a command must be checked
  for is its result, the job table and the environment.
\<close>

lemma typed_calm:
  assumes "calm (st, w) (st', w')" "typed h b (st, w)"
    and "jobs_typed c (sh_jobs st')" "env_typed (w_env w')"
  shows "typed h c (st', w')"
  using assms by (simp add: typed_def calm_def same_session_def)

lemma unblock_typed:
  "unblock_sigchld K prev st w = (st', w') \<Longrightarrow>
     (\<forall>b. jobs_typed b (sh_jobs st) \<longrightarrow> jobs_typed b (sh_jobs st')) \<and> w_env w' = w_env w"
  unfolding unblock_sigchld_def using deliver_typed by (auto dest: deliver_frame(7))

lemma export_typed:
  assumes "builtin_export K as w = (r, w')" "nul_free (as ! 1)" "env_typed (w_env w)"
  shows "env_typed (w_env w')"
proof (cases "w_env w' = w_env w")
  case False
  then obtain s k where s: "as ! 1 = Some s" "take k s \<noteq> []" "CHR ''='' \<notin> set (take k s)"
    "w_env w' = (w_env w)(take k s \<mapsto> drop (k + 1) s)"
    using assms(1) by (auto simp: builtin_export_def sys_setenv_def split: option.splits prod.splits if_splits)
  then have "is_cstr (take k s)" "is_cstr (drop (k + 1) s)"
    using assms(2) is_cstr_mono [OF set_take_subset] is_cstr_mono [OF set_drop_subset] by auto
  then show ?thesis using assms(3) s by (simp add: env_typed_def)
qed (use assms(3) in simp)

lemma int32_status [simp]: "is_int32 0" "is_int32 1" "is_int32 (-1)"
  by (simp_all add: is_int32_def)

lemma fg_job_typed:
  assumes "fg_job K i st w = (r, st', w')" "jobs_typed b (sh_jobs st)" "i < length (jobs (sh_jobs st))"
  shows "is_int32 r \<and> jobs_typed (b + 1) (sh_jobs st') \<and> w_env w' = w_env w"
proof -
  let ?job = "jobs (sh_jobs st) ! i"
  have label: "is_cstr (job_command ?job)" using assms(2,3) by (simp add: jobs_typed_def list_all_length)
  obtain st1 w1 st2 w2 where wt: "wait_foreground_group K st1 (job_pid ?job) (job_command ?job) w1 = (r, st2, w2)"
    and pre: "jobs_typed b (sh_jobs st1)" "w_env w1 = w_env w" and res: "st' = st2" "w' = reclaim_tty st2 w2"
    using assms(1,2) jobs_ops_typed(2)
    by (fastforce simp: fg_job_def Let_def sys_kill_def split: if_splits prod.splits)
  have "w_env w2 = w_env w1" using wait_frame [OF wt] only_traceD(5) by blast
  then show ?thesis using wait_typed [OF wt label pre(1)] pre(2) res by simp
qed

lemma fg_typed:
  assumes "builtin_fg K cmd st w = (r, st', w')" "jobs_typed b (sh_jobs st)"
  shows "is_int32 r \<and> jobs_typed (b + 1) (sh_jobs st') \<and> w_env w' = w_env w"
proof -
  let ?k = "parse_job_id (args cmd ! 1)" and ?w1 = "snd (block_sigchld w)"
  have mono: "jobs_typed (b + 1) t" if "jobs_typed b t" for t using jobs_typed_mono [OF that] by simp
  consider (found) i where "\<not> ?k < 0" "jobs_find_by_id (sh_jobs st) ?k = Some i"
    | (none) "?k < 0 \<or> jobs_find_by_id (sh_jobs st) ?k = None" by fastforce
  then show ?thesis
  proof cases
    case (found i)
    obtain code st1 w2 where f: "fg_job K i st ?w1 = (code, st1, w2)" by (metis prod_cases3)
    then have u: "unblock_sigchld K (w_mask w) st1 w2 = (st', w')" "r = code"
      using assms(1) found by (auto simp: builtin_fg_def Let_def block_sigchld_def split: prod.splits)
    show ?thesis
      using fg_job_typed [OF f assms(2)] jobs_find_by_id_Some [OF found(2)] unblock_typed [OF u(1)] u(2) by simp
  next
    case none
    then show ?thesis
      using assms mono
      by (auto simp: builtin_fg_def Let_def block_sigchld_def dest!: unblock_typed split: if_splits prod.splits)
  qed
qed

lemma quiet_commands_typed:
  assumes "jobs_typed b (sh_jobs st)"
  shows "builtin_bg K cmd st w = (r, st', w') \<Longrightarrow> is_int32 r \<and> jobs_typed b (sh_jobs st') \<and> w_env w' = w_env w"
    "builtin_kill K cmd st w = (r, st', w') \<Longrightarrow> is_int32 r \<and> jobs_typed b (sh_jobs st') \<and> w_env w' = w_env w"
    "builtin_jobs K st w = (r, st', w') \<Longrightarrow> is_int32 r \<and> jobs_typed b (sh_jobs st') \<and> w_env w' = w_env w"
  using assms jobs_ops_typed(2,4) [OF assms]
  by (auto simp: builtin_bg_def bg_job_def builtin_kill_def kill_target_def builtin_jobs_def sys_kill_def Let_def
      block_sigchld_def dest!: unblock_typed split: if_splits option.splits prod.splits)

lemma atoi_int32: "is_int32 (atoi s)"
  by (simp add: atoi_def Let_def)

lemma builtin_typed:
  assumes "run_builtin K cmd st w = (r, st', w')" "typed h b (st, w)" "nul_free (args cmd ! 1)"
  shows "is_int32 r \<and> typed h (b + 1) (st', w')"
proof -
  note calm = run_builtin_calm [of st w K cmd, unfolded assms(1), simplified]
  have t: "jobs_typed b (sh_jobs st)" "env_typed (w_env w)" "is_int32 (last_status st)"
    using assms(2) by (simp_all add: typed_def)
  have mono: "jobs_typed (b + 1) t" if "jobs_typed b t" for t using jobs_typed_mono [OF that] by simp
  note q = quiet_commands_typed [OF t(1)] and run = run_builtin_simps [where K = K and st = st and w = w and cmd = cmd]
  have "is_int32 r \<and> jobs_typed (b + 1) (sh_jobs st') \<and> env_typed (w_env w')"
  proof (cases "is_builtin (cmd_name cmd)")
    case True
    then show ?thesis
    proof (cases rule: builtin_cases)
      case 1
      then show ?thesis using assms(1) t mono
        by (auto simp: run_builtin_simps builtin_cd_def sys_chdir_def Let_def split: option.splits sum.splits prod.splits)
    next
      case 2
      then show ?thesis using assms(1) t mono
        by (auto simp: run_builtin_simps builtin_exit_def atoi_int32 split: option.splits)
    next
      case 3
      obtain r1 w1 where e: "builtin_export K (args cmd) w = (r1, w1)" by fastforce
      then have "is_int32 r1" by (auto simp: builtin_export_def split: option.splits prod.splits)
      then show ?thesis using assms(1) t mono export_typed [OF e assms(3)] e 3 by (simp add: run_builtin_simps)
    next
      case 4
      then show ?thesis using assms(1) t mono by (auto simp: run_builtin_simps)
    next
      case 5
      then show ?thesis using q(3) [OF assms(1) [unfolded run(5) [OF 5]]] t(2) mono by simp
    next
      case 6
      then show ?thesis using fg_typed [OF assms(1) [unfolded run(6) [OF 6]] t(1)] t(2) by simp
    next
      case 7
      then show ?thesis using q(1) [OF assms(1) [unfolded run(7) [OF 7]]] t(2) mono by simp
    next
      case 8
      then show ?thesis using q(2) [OF assms(1) [unfolded run(8) [OF 8]]] t(2) mono by simp
    next
      case 9
      then show ?thesis using assms(1) t mono by (auto simp: run_builtin_simps)
    qed
  next
    case False
    then show ?thesis using assms(1) t mono by (auto simp: run_builtin_other)
  qed
  then show ?thesis using typed_calm [OF calm assms(2)] by simp
qed

section \<open>Pipelines, lines, sessions\<close>

lemma execute_typed:
  assumes "execute_pipeline K p st w = (r, children, st', w')" "typed h b (st, w)" "list_all command_typed (stages p)"
  shows "is_int32 r \<and> typed h (b + 1) (st', w')"
proof -
  have s: "steady (st, w) (st', w')" by (rule execute_steady [OF assms(1)])
  have t: "jobs_typed b (sh_jobs st)" using assms(2) by (simp add: typed_def)
  note label = label_typed [OF assms(3), of JOB_CMD_LEN]
  have "is_int32 r \<and> jobs_typed (b + 1) (sh_jobs st')"
    using assms(1)
  proof (cases rule: execute_cases)
    case (failed pids w2)
    then show ?thesis using unblock_typed [OF failed(3)] jobs_typed_mono [OF t, of "b + 1"] by simp
  next
    case (background pids w2 tb k w3)
    then have "jobs_typed (b + 1) tb" using jobs_add_typed [OF t label] by (metis snd_conv)
    then show ?thesis using background(4) unblock_typed [OF background(5)] by simp
  next
    case (foreground pids w2 w3 st1 w4)
    then show ?thesis using wait_typed [OF foreground(4) label t] unblock_typed [OF foreground(5)] by simp
  qed
  then show ?thesis using s assms(2) by (simp add: typed_def steady_def only_jobs_def same_session_def)
qed

lemma run_pipeline_typed:
  assumes "run_pipeline K p st w = (st', w')" "typed h b (st, w)" "list_all command_typed (stages p)"
    and "length (stages p) = num_commands p"
  shows "typed h (b + 1) (st', w')"
  using assms(1)
proof (cases rule: run_pipeline_cases)
  case (builtin code st1)
  have "commands p ! 0 \<in> set (stages p)"
    using builtin(1) assms(4) by (cases "commands p") (simp_all add: stages_def)
  then have "nul_free (args (commands p ! 0) ! 1)"
    using assms(3) by (auto simp: list_all_iff command_typed_def)
  then show ?thesis using builtin_typed [OF builtin(3) assms(2)] builtin(4) by (simp add: typed_def)
next
  case (external code children st1)
  then show ?thesis using execute_typed [OF external(2) assms(2,3)] by (simp add: typed_def)
qed

definition kernel_typed :: "kernel \<Rightarrow> bool" where
  "kernel_typed K \<longleftrightarrow> (\<forall>tr. glob_typed (k_glob K tr))"

lemma run_line_typed:
  assumes "typed h b (st, w)" "kernel_typed K" "is_cstr line" "run_line K line st w = (go, st', w')"
  shows "typed (h + 1) (b + 1) (st', w')"
proof -
  have rec: "typed (h + 1) b (recorded K line st w, w)"
    using assms(1,3) by (simp add: typed_def recorded_def history_add_typed)
  then have rec': "typed (h + 1) (b + 1) (recorded K line st w, w)"
    using jobs_typed_mono [of b _ "b + 1"] by (simp add: typed_def)
  have env: "typed i c (st1, w2)" if "typed i c (st1, w1)" "same_context w1 w2" for i c st1 w1 w2
    using that by (simp add: typed_def same_context_def)
  note close = close_facts(1) [OF refl]
  show ?thesis
    using assms(4)
  proof (cases rule: run_line_cases)
    case (malformed e)
    then show ?thesis using rec' by simp
  next
    case (blank p)
    then show ?thesis using rec' by simp
  next
    case (no_file p p1 w1)
    have "same_context w w1" using collect_facts(2) [OF no_file(3) parse_pipeline_heredoc [OF no_file(1)]] .
    then show ?thesis using env [OF env [OF rec'] close] no_file(5,6) by simp
  next
    case (ran p p1 w1 w2)
    let ?q = "expand_with K (recorded K line st w) w1 p1"
    note c = collect_facts(1,2) [OF ran(3) parse_pipeline_heredoc [OF ran(1)]]
    have "list_all command_typed (stages p1)"
      using collect_typed [OF ran(3) parse_typed [OF ran(1) assms(3)]] .
    then have "list_all command_typed (stages ?q)"
      using expand_command_typed assms(2) by (simp add: expand_facts list_all_iff kernel_typed_def)
    moreover have "length (stages ?q) = num_commands ?q"
      using c(1) length_stages [OF parse_pipeline_facts(2) [OF ran(1)]]
        collect_facts(3) [OF ran(3) parse_pipeline_heredoc [OF ran(1)]] by (simp add: expand_facts)
    ultimately have "typed (h + 1) (b + 1) (st', w2)"
      using run_pipeline_typed [OF ran(5) env [OF rec c(2)]] by simp
    then show ?thesis using env [OF _ close] ran(6) by simp
  qed
qed

text \<open>What a session keeps: with every line left to read the counters may still grow by one.\<close>

definition bounded :: "kernel \<Rightarrow> int \<Rightarrow> shell_state_t \<times> world \<Rightarrow> bool" where
  "bounded K B a \<longleftrightarrow> (kernel_typed K \<longrightarrow>
     typed (B - int (length (w_stdin (snd a)))) (B - int (length (w_stdin (snd a)))) a)"

lemma prompt_bounded:
  assumes "bounded K B (st, w)" shows "bounded K B (show_prompt K st w)"
proof -
  obtain st1 w1 where u: "unblock_sigchld K (w_mask w) (st\<lparr>sh_jobs := snd (jobs_notify_completed (sh_jobs st))\<rparr>)
      (print_lines (fst (jobs_notify_completed (sh_jobs st))) (snd (block_sigchld w))) = (st1, w1)" by fastforce
  have "show_prompt K st w = (st1, emit Flush (emit (Print PROMPT) w1))"
    using u by (simp add: show_prompt_def case_prod_beta Let_def)
  then show ?thesis
    using assms unblock_typed [OF u] unblock_frame(1,2,12) [OF u] jobs_ops_typed(5) [of _ "sh_jobs st"]
    by (simp add: bounded_def typed_def same_session_def)
qed

lemma deliver_bounded:
  assumes "bounded K B (st, w)" shows "bounded K B (deliver_sigchld K st w)"
proof -
  obtain st1 w1 where d: "deliver_sigchld K st w = (st1, w1)" by fastforce
  show ?thesis
    using assms deliver_typed [OF d] deliver_frame(1,2,7,12) [OF d] unfolding d
    by (simp add: bounded_def typed_def same_session_def)
qed

lemma line_bounded:
  assumes "bounded K B (st, w)" "sys_getline b w = (Some raw, w1)" "run_line K (cstr raw) st w1 = (go, st', w')"
  shows "bounded K B (st', w')"
  unfolding bounded_def
proof
  assume k: "kernel_typed K"
  let ?n = "B - int (length (w_stdin w))" and ?m = "B - int (length (w_stdin w'))"
  have "typed ?n ?n (st, w)" using assms(1) k by (simp add: bounded_def)
  moreover have "w_env w1 = w_env w" using assms(2) by (auto simp: sys_getline_def Let_def split: list.splits if_splits)
  ultimately have "typed ?n ?n (st, w1)" by (simp add: typed_def)
  from run_line_typed [OF this k _ assms(3)] have "typed (?n + 1) (?n + 1) (st', w')" by simp
  moreover have "?n + 1 \<le> ?m"
    using run_line_stdin [OF assms(3)] sys_getline_stdin [OF assms(2) [symmetric]] by simp
  ultimately show "typed (B - int (length (w_stdin (snd (st', w'))))) (B - int (length (w_stdin (snd (st', w'))))) (st', w')"
    using jobs_typed_mono by (auto simp: typed_def history_typed_def)
qed

interpretation typing: session K "bounded K B" "bounded K B" for K B
proof unfold_locales
  show "bounded K B (st, emit (Print [NL]) w1)" if "bounded K B (st, w)" "sys_getline b w = (None, w1)" for st w b w1
    using that by (auto simp: sys_getline_def Let_def bounded_def typed_def split: list.splits if_splits)
qed (fact prompt_bounded deliver_bounded line_bounded)+

section \<open>The types of a session\<close>



end
