(* ===== verification/Notices.thy ===== *)
theory Notices
  imports Repl Tracking
begin

text \<open>
  From the end of a background job to its notice: the handler marks the job when it is reaped, and
  the next prompt reports it once and frees its slot.
\<close>

lemma reaped_is_done:
  assumes "jobs_inv t" "jobs_map t k = Some j" "job_state j = JOB_RUNNING" "distinct (running_pids t)"
    and "list_all (\<lambda>d. 0 < fst d) answers" "job_pid j \<in> fst ` set answers"
  obtains status where
    "jobs_map (reap_loop answers t) k = Some (j\<lparr>job_state := JOB_DONE, job_status := status\<rparr>)"
proof -
  obtain j' where j': "jobs_map (reap_loop answers t) k = Some j'" "reaped j j'"
    using reap_loop_map [of t k answers] assms(2) by (auto simp: option_rel_Some1)
  have "j' \<noteq> j"
  proof
    assume "j' = j"
    then have "j \<in> set (jobs (reap_loop answers t))" "job_in_use j"
      using j'(1) slots_map_Some by (auto simp: jobs_map_slots)
    then have "job_pid j \<in> set (running_pids (reap_loop answers t))"
      using assms(3) by (auto simp: running_pids_def runs_def)
    then show False using reap_loop_running [OF assms(4,5)] assms(6) by simp
  qed
  then show ?thesis using that j' by (auto simp: reaped_def)
qed

lemma live_once:
  "distinct (live_ids js) \<Longrightarrow> j \<in> set js \<Longrightarrow> job_in_use j \<Longrightarrow>
     filter (\<lambda>x. job_in_use x \<and> job_id x = job_id j) js = [j]"
proof (induction js)
  case (Cons x js)
  have none: "filter (\<lambda>y. job_in_use y \<and> job_id y = i) ys = []" if "i \<notin> set (live_ids ys)" for i ys
    using that by (auto simp: live_ids_def filter_empty_conv)
  show ?case
  proof (cases "x = j")
    case True
    then show ?thesis using Cons.prems none [of "job_id j" js] by simp
  next
    case False
    then have "job_id j \<in> set (live_ids js)" using Cons.prems by (auto simp: live_ids_def)
    then show ?thesis using Cons False by (auto split: if_splits)
  qed
qed simp



end
