(* ===== verification/Output.thy ===== *)
theory Output
  imports Repl
begin

text \<open>
  Standard output is a buffered stream: \<open>printf\<close> adds to the buffer, \<open>fflush\<close> writes it. A child is
  forked with a copy of the buffer, which its \<open>exit\<close> would write once more. The shell flushes after
  each of its prompts, and what it prints otherwise is never followed by a fork before the next
  prompt: no output appears twice.
\<close>

section \<open>The buffer of standard output\<close>

text \<open>What may still be in the buffer after a trace; a full buffer or a terminal's newline empties it sooner.\<close>

definition buffered :: "string \<Rightarrow> event \<Rightarrow> string" where
  "buffered buf e = (case e of Print s \<Rightarrow> buf @ s | Flush \<Rightarrow> [] | _ \<Rightarrow> buf)"

definition unwritten :: "event list \<Rightarrow> string" where
  "unwritten es = foldl buffered [] es"

text \<open>Every fork finds the buffer empty.\<close>

fun clean_forks :: "string \<Rightarrow> event list \<Rightarrow> bool" where
  "clean_forks buf [] = True"
| "clean_forks buf (e # es) =
     ((case e of SysFork p \<Rightarrow> buf = [] | _ \<Rightarrow> True) \<and> clean_forks (buffered buf e) es)"

lemma clean_forks_append [simp]:
  "clean_forks buf (es @ fs) \<longleftrightarrow> clean_forks buf es \<and> clean_forks (foldl buffered buf es) fs"
  by (induction es arbitrary: buf) auto

text \<open>It says what is meant: nothing is unwritten before a fork.\<close>

lemma clean_forks_before: "clean_forks [] (es @ SysFork p # fs) \<Longrightarrow> unwritten es = []"
  by (simp add: unwritten_def)

lemma no_fork_clean: "list_all no_fork es \<Longrightarrow> clean_forks buf es"
proof (induction es arbitrary: buf)
  case (Cons e es)
  then show ?case by (cases e) simp_all
qed simp

lemma spawn_clean: "list_all spawn_event es \<Longrightarrow> clean_forks [] es \<and> foldl buffered [] es = []"
proof (induction es)
  case (Cons e es)
  then show ?case by (cases e) (simp_all add: buffered_def)
qed simp

section \<open>The steps of a line\<close>

definition clean :: "world \<Rightarrow> bool" where
  "clean w \<longleftrightarrow> clean_forks [] (w_trace w)"

definition flushed :: "world \<Rightarrow> bool" where
  "flushed w \<longleftrightarrow> clean w \<and> unwritten (w_trace w) = []"

lemma flushed_clean [simp]: "flushed w \<Longrightarrow> clean w"
  by (simp add: flushed_def)

lemma clean_extends: "extends w w' \<Longrightarrow> clean w \<Longrightarrow> clean w'"
  by (auto simp: clean_def trace_ext_def no_fork_clean)

text \<open>Steps that fork nothing and leave an empty buffer empty.\<close>

definition settles :: "world \<Rightarrow> world \<Rightarrow> bool" where
  "settles w w' \<longleftrightarrow> (\<exists>es. w_trace w' = w_trace w @ es \<and> list_all no_fork es \<and> foldl buffered [] es = [])"

lemma settles_flushed: "settles w w' \<Longrightarrow> flushed w \<Longrightarrow> flushed w'"
  by (auto simp: settles_def flushed_def clean_def unwritten_def no_fork_clean)

lemma settles_trans [trans]: "settles a b \<Longrightarrow> settles b c \<Longrightarrow> settles a c"
  by (auto simp: settles_def)

lemma settles_events:
  "w_trace w' = w_trace w @ es \<Longrightarrow> list_all no_fork es \<Longrightarrow> foldl buffered [] es = [] \<Longrightarrow> settles w w'"
  by (auto simp: settles_def)

lemma getline_settles: "sys_getline b w = (r, w') \<Longrightarrow> settles w w'"
  by (rule settles_events [of _ _ "[SysRead]"])
    (auto simp: sys_getline_def Let_def buffered_def split: list.splits if_splits)

lemma write_settles: "sys_write K fd bs w = (r, w') \<Longrightarrow> settles w w'"
  by (rule settles_events [of _ _ "[SysWrite bs]"])
    (auto simp: sys_write_def Let_def buffered_def split: sum.splits option.splits prod.splits ofile.splits)

lemma error_settles: "settles w (emit (PrintErr s) w)"
  by (rule settles_events [of _ _ "[PrintErr s]"]) (simp_all add: buffered_def)

lemma heredoc_loop_settles: "settles w (heredoc_loop K delim tty fd w)"
proof (rule heredoc_loop_closed)
  show "settles v (if tty then emit Flush (emit (Print ''> '') v) else v)" for v
    by (rule settles_events [of _ _ "if tty then [Print ''> '', Flush] else []"]) (simp_all add: buffered_def)
qed (fact getline_settles write_settles error_settles settles_trans)+

lemma quiet_calls [simp]:
  "w_trace (sys_set_cloexec fd w) = w_trace w" "w_trace (sys_rewind fd w) = w_trace w"
  by (auto simp: sys_set_cloexec_def sys_rewind_def split: option.split ofile.split prod.split)

lemma read_one_settles:
  assumes "read_one_heredoc K delim tty w = (fd, w')"
  shows "settles w w'"
proof -
  obtain r w1 where m: "sys_mkstemp K w = (r, w1)" by fastforce
  have "settles w w1"
    by (rule settles_events [of _ _ "[SysMkstemp]"])
      (use m in \<open>auto simp: sys_mkstemp_def Let_def buffered_def split: option.splits\<close>)
  moreover have "settles w1 w'"
  proof (cases r)
    case (Inl e)
    then show ?thesis using assms m error_settles by (auto simp: read_one_heredoc_def)
  next
    case (Inr n)
    then have "w_trace w' = w_trace (heredoc_loop K delim tty n (sys_set_cloexec n w1))"
      using assms m by (auto simp: read_one_heredoc_def Let_def)
    then show ?thesis
      using heredoc_loop_settles [of "sys_set_cloexec n w1" K delim tty n] by (simp add: settles_def)
  qed
  ultimately show ?thesis by (rule settles_trans)
qed

lemma collect_loop_settles:
  "collect_loop K tty cmds w = (ok, cmds', w') \<Longrightarrow> settles w w'"
proof (induction cmds arbitrary: w ok cmds' w')
  case Nil
  then show ?case by (simp add: settles_def)
next
  case (Cons cmd cmds)
  show ?case
  proof (cases "heredoc_delim cmd")
    case None
    then show ?thesis using Cons by (auto split: prod.splits)
  next
    case (Some delim)
    obtain fd w1 where r: "read_one_heredoc K delim tty w = (fd, w1)" by fastforce
    have "settles w1 w'"
    proof (cases "fd < 0")
      case True
      then show ?thesis using Cons.prems Some r by (simp add: settles_def)
    next
      case False
      then show ?thesis using Cons Some r by (auto split: prod.splits)
    qed
    then show ?thesis using settles_trans [OF read_one_settles [OF r]] by blast
  qed
qed

lemma collect_settles: "collect_heredocs K p st w = (ok, p', w') \<Longrightarrow> settles w w'"
  by (auto simp: collect_heredocs_def intro: collect_loop_settles split: prod.splits)

lemma close_trace: "w_trace (snd (close_heredocs p w)) = w_trace w"
proof -
  have "w_trace (snd (close_loop cmds w)) = w_trace w" for cmds
    by (induction cmds w rule: close_loop.induct) (auto simp: Let_def split: prod.splits if_splits)
  then show ?thesis by (simp add: close_heredocs_def case_prod_beta)
qed

text \<open>A built-in forks nothing.\<close>

lemma kill_extends: "extends w w' \<Longrightarrow> extends w (snd (sys_kill K p s w'))"
  by (simp add: sys_kill_def)

lemma section_extends:
  "unblock_sigchld K prev st v = (st', w') \<Longrightarrow> extends w v \<Longrightarrow> extends w w'"
  using unblock_extends trace_ext_trans by blast

lemma fg_job_extends: "extends w (snd (snd (fg_job K i st w)))"
proof -
  have tail: "extends w (snd (snd (wait_foreground_group K s pgid label v)))" if "extends w v" for s pgid label v
    using that trace_ext_trans wait_extends by (metis prod.collapse)
  have tty: "extends w v \<Longrightarrow> extends w (sys_tcsetpgrp fd p v)" for fd p v by (auto simp: trace_ext_def)
  show ?thesis
    by (simp add: fg_job_def Let_def case_prod_beta tail kill_extends tty)
qed

lemma builtin_extends:
  "extends w (snd (builtin_cd K as w))" "extends w (snd (builtin_export K as w))"
  "extends w (snd (snd (builtin_jobs K st w)))" "extends w (snd (snd (builtin_fg K cmd st w)))"
  "extends w (snd (snd (builtin_bg K cmd st w)))" "extends w (snd (snd (builtin_kill K cmd st w)))"
  "extends w (snd (builtin_help w))"
proof -
  have masked: "extends w v \<Longrightarrow> extends w (snd (unblock_sigchld K prev s v))" for prev s v
    using section_extends [OF prod.collapse [symmetric]] .
  have fg: "extends w (snd (snd (fg_job K i s (snd (block_sigchld w)))))" for i s
    using fg_job_extends [of "snd (block_sigchld w)" K i s] by (simp add: trace_ext_def)
  have bg: "extends w (snd (bg_job K i s (snd (block_sigchld w))))" for i s
    by (auto simp: bg_job_def Let_def trace_ext_def sys_kill_def)
  have blocked: "extends w (snd (block_sigchld w))" by simp
  have target: "extends w v \<Longrightarrow> extends w (snd (snd (kill_target K t s v)))" for t s v
    by (simp add: kill_target_def sys_kill_def split: option.split)
  show "extends w (snd (builtin_cd K as w))"
    by (auto simp: builtin_cd_def sys_chdir_def Let_def trace_ext_def split: option.split sum.split)
  show "extends w (snd (builtin_export K as w))"
    by (auto simp: builtin_export_def sys_setenv_def split: option.split)
  show "extends w (snd (snd (builtin_jobs K st w)))"
    by (simp add: builtin_jobs_def Let_def case_prod_beta masked)
  show "extends w (snd (snd (builtin_fg K cmd st w)))"
    by (auto simp: builtin_fg_def Let_def case_prod_beta masked fg blocked split: option.split)
  show "extends w (snd (snd (builtin_bg K cmd st w)))"
    by (auto simp: builtin_bg_def Let_def case_prod_beta masked bg blocked split: option.split)
  show "extends w (snd (snd (builtin_kill K cmd st w)))"
    by (auto simp: builtin_kill_def Let_def case_prod_beta masked target blocked split: option.split)
  show "extends w (snd (builtin_help w))" by (simp add: builtin_help_def)
qed

lemma run_builtin_extends: "run_builtin K cmd st w = (r, st', w') \<Longrightarrow> extends w w'"
proof -
  have "extends w (snd (snd (run_builtin K cmd st w)))"
    by (simp add: run_builtin_def Let_def case_prod_beta builtin_extends)
  then show "run_builtin K cmd st w = (r, st', w') \<Longrightarrow> extends w w'" by simp
qed

lemma run_pipeline_clean:
  assumes "run_pipeline K p st w = (st', w')" "flushed w"
  shows "clean w'"
  using assms(1)
proof (cases rule: run_pipeline_cases)
  case (builtin code st1)
  then show ?thesis using clean_extends [OF run_builtin_extends] assms(2) by simp
next
  case (external code children st1)
  have spawn: "flushed w2" if "spawn_pipeline K p st (snd (block_sigchld w)) = (ok, pids, cs, w2)" for ok pids cs w2
    using spawn_pipeline_kept(2) [OF that] spawn_clean assms(2)
    by (auto simp: trace_ext_def flushed_def clean_def unwritten_def)
  from external(2) show ?thesis
  proof (cases rule: execute_cases)
    case (failed pids w2)
    then show ?thesis using clean_extends [OF unblock_extends [OF failed(3)]] spawn [OF failed(1)] by simp
  next
    case (background pids w2 t k w3)
    have "extends w2 w'" using unblock_extends [OF background(5)] background(6) by auto
    then show ?thesis using clean_extends spawn [OF background(2)] by simp
  next
    case (foreground pids w2 w3 st1' w4)
    have "extends w2 w3" using foreground(3) by (auto simp: trace_ext_def)
    also have "extends w3 w4" by (rule wait_extends [OF foreground(4)])
    also have "extends w4 w'" by (rule section_extends [OF foreground(5)]) simp
    finally show ?thesis using clean_extends spawn [OF foreground(2)] by simp
  qed
qed

lemma run_line_clean:
  assumes "run_line K line st w = (go, st', w')" "flushed w"
  shows "clean w'"
  using assms(1)
proof (cases rule: run_line_cases)
  case (malformed e)
  then show ?thesis using clean_extends [of w w'] assms(2) by simp
next
  case (blank p)
  then show ?thesis using assms(2) by simp
next
  case (no_file p p1 w1)
  then show ?thesis
    using flushed_clean [OF settles_flushed [OF collect_settles [OF no_file(3)] assms(2)]]
    by (simp add: clean_def close_trace)
next
  case (ran p p1 w1 w2)
  have "clean w2" using run_pipeline_clean [OF ran(5) settles_flushed [OF collect_settles [OF ran(3)] assms(2)]] .
  then show ?thesis using ran(6) by (simp add: clean_def close_trace)
qed

section \<open>A session\<close>

lemma show_prompt_flushes: "clean w \<Longrightarrow> flushed (snd (show_prompt K st w))"
proof -
  assume c: "clean w"
  obtain st1 w1 where u: "unblock_sigchld K (w_mask w) (st\<lparr>sh_jobs := snd (jobs_notify_completed (sh_jobs st))\<rparr>)
      (print_lines (fst (jobs_notify_completed (sh_jobs st))) (snd (block_sigchld w))) = (st1, w1)" by fastforce
  have "extends w w1" by (rule section_extends [OF u]) (simp add: trace_ext_def list_all_iff)
  from clean_extends [OF this c] u show ?thesis
    by (simp add: show_prompt_def case_prod_beta Let_def flushed_def clean_def unwritten_def buffered_def)
qed

lemma deliver_settles: "settles w (snd (deliver_sigchld K st w))"
proof -
  have "\<exists>es. w_trace (snd (deliver_sigchld K st w)) = w_trace w @ es \<and> es \<in> {[], [SysReaped (k_reap K (w_trace w))]}"
    by (simp add: deliver_sigchld_def sigchld_handler_def Let_def)
  then show ?thesis by (auto simp: settles_def buffered_def)
qed

interpretation flushing: session K "clean \<circ> snd" "flushed \<circ> snd" for K
proof unfold_locales
  show "(clean \<circ> snd) (st', w')" if "(flushed \<circ> snd) (st, w)" "sys_getline b w = (Some raw, w1)"
    "run_line K (cstr raw) st w1 = (go, st', w')" for st w b raw w1 go st' w'
    using run_line_clean [OF that(3)] settles_flushed [OF getline_settles [OF that(2)]] that(1) by simp
  show "(clean \<circ> snd) (st, emit (Print [NL]) w1)" if "(flushed \<circ> snd) (st, w)" "sys_getline b w = (None, w1)"
    for st w b w1
    using clean_extends [of w1] settles_flushed [OF getline_settles [OF that(2)]] that(1) by simp
  show "(flushed \<circ> snd) (deliver_sigchld K st w)" if "(flushed \<circ> snd) (st, w)" for st w
    using settles_flushed [OF deliver_settles] that by simp
  show "(flushed \<circ> snd) (show_prompt K st w)" if "(clean \<circ> snd) (st, w)" for st w
    using show_prompt_flushes that by simp
qed

text \<open>C15: whatever a session reads and the kernel answers, each of its forks finds the buffer of
  standard output empty: no child writes, by its \<open>exit\<close>, what the shell printed.\<close>

theorem no_output_twice:
  "case main K (w\<lparr>w_trace := []\<rparr>) of (code, st', w') \<Rightarrow> clean_forks [] (w_trace w')"
proof -
  obtain st1 w1 where i: "install_signal_handlers K shell_init (w\<lparr>w_trace := []\<rparr>) = (st1, w1)" by fastforce
  obtain st2 w2 where m: "main_loop K st1 w1 = (st2, w2)" by fastforce
  have "extends (w\<lparr>w_trace := []\<rparr>) w1"
    using i by (auto simp: install_signal_handlers_def ignore_signal_def Let_def trace_ext_def split: if_splits)
  then have "clean w1" by (rule clean_extends) (simp add: clean_def)
  then have "clean w2" using flushing.loop [of st1 w1 K] m by simp
  then show ?thesis using i m by (simp add: main_def clean_def)
qed

end
