(* ===== verification/Spec2Isabelle.thy ===== *)
theory Spec2Isabelle
  imports Sections Owned_History Lines Dataflow Keyboard Values Notices Output
begin

text \<open>
  A model of mysh, an interactive Unix shell in C (src/src/), and the theorems that make it
  correct. Every implementation file is modelled; the order of the theories is that of the calls.

  The program. \<open>main\<close> (main.c) reads a line, records it in the history (history.c), splits it
  into a pipeline of commands in place (parser.c), reads the bodies of its here-documents from
  the same input (heredoc.c), expands variables and patterns (expand.c), and then runs a single
  built-in in its own process (builtins.c) or forks the stages of the pipeline, wires them with
  pipes, and waits for them or records a background job (executor.c). The job table (jobs.c) is
  shared with the asynchronous SIGCHLD handler (signals.c), which is masked around each access.

  The model. C structs are records with the source's fields, fixed arrays are lists of their
  length, and each C function is one HOL function on explicit state, with a branch for each
  early return and each failing call. C ints are HOL integers in the range of \<open>is_int32\<close>, except
  where they are bit patterns: a wait status is a 32-bit word, read by the macros of wait.h. The
  outside is two records of Posix: \<open>world\<close> is what the process owns (descriptors with their
  close-on-exec flags, environment, working directory, signal mask and dispositions, the
  terminal's group, the input that is left, the trace of its calls), changed as POSIX documents
  each call; \<open>kernel\<close> is what the system decides (which calls fail, the pids, the statuses, what
  a pattern matches), a parameter of every definition that depends on it, as a function of the
  trace so far. Nothing is assumed of a kernel but what a theorem's hypotheses say.

  The theories, with the code they model:
  - Prelude: searches in fixed tables, the suffix a ring keeps, the collections \<open>table_simps\<close> and
    \<open>frame_simps\<close>, and the locale \<open>step_system\<close> of a step function with an invariant. Clib: the C
    library routines the shell computes with (\<open>strtok_r\<close>, \<open>snprintf\<close>, \<open>atoi\<close> and others).
  - History (history.c): the ring buffer, and its abstraction to the last 1000 lines; the locale
    \<open>recent_log\<close> has the laws of such a log and is interpreted on the ring.
  - Posix: signals, wait statuses, descriptors, the two records above, the system calls.
  - Jobs (jobs.c): the array of slots, and its abstraction to a map from ids to jobs; the locale
    \<open>job_ids\<close> gives that no id is ever handed out twice.
  - Parser (parser.c) on strings; Grammar: the language of lines by items, equal to the parser,
    and the parsing of what was printed. Line_Buffer and Inplace (parser.c again): the parser on
    the line's bytes, where both tokenizers write NULs and the structs hold pointers, refined to
    the parser on strings.
  - Shell_State (shell.h). Signals (signals.c): the handler, the masking, the dispositions.
  - Expand (expand.c): the growable buffer and the scan, equal to a reference on words; patterns,
    targets and the release. Heredoc (heredoc.c): the bodies and their descriptors.
  - Waiting (executor.c): status codes, the label of a pipeline, the wait for a process group.
    Builtins (builtins.c): each built-in and the dispatch. Executor (executor.c): redirection, the
    child up to its exec, the forking and wiring of the stages, foreground and background runs.
  - Repl (main.c): one line, the loop, the program; the locale \<open>session\<close> has what each step of the
    loop keeps, and is interpreted for soundness here, in Values for types, in Output for the buffer.
  - Interleave, Tracking, Sections: the shell and the handler as two interleaved threads over the
    job table. \<open>race_step\<close> interleaves the shell's actions with the ends of children and with runs
    of the handler; the critical sections of the code are lists of such actions.
  - Memory: a heap of blocks with malloc, realloc and free, where an access that C leaves undefined
    has no result. Owned_Words (expand.c) and Owned_History (history.c, and the loop of main.c as
    far as it allocates): the same functions as above on this heap, with pointers.
  - Dataflow: the programs of a pipeline, which are parameters, run side by side on bounded pipes
    from the descriptors that \<open>spawn_pipeline\<close> gave them. Keyboard: process groups and the signals of
    the terminal. Values: the types of what a session stores. Notices: from the end of a background
    job to the one notice of it before a prompt. Output: the buffer of standard output at a fork.
  - Lines, and the rest of this theory: whole lines of words that stand for themselves, from the
    bytes read to the programs started.

  What is shown. Every operation's invariant is kept (the ring, the job table, the shell between
  two lines: descriptors, mask, dispositions and terminal are as they were). The parser equals
  its grammar and stays inside its arrays; the expansion equals its reference; the history is the
  last 1000 lines; a label parses back to the words it shows. In a pipeline of n stages each
  stage's standard input and output are the right pipe ends, no process keeps another end, and
  the shell keeps none; therefore the programs never wait for each other in a circle, they all end
  if each ends on finite input, and the bytes arrive complete and in order. While the shell waits,
  the terminal's signals reach every program of the pipeline and not the shell. Each fork finds the
  buffer of standard output empty, and no child's end cuts the shell's input short. No line and no
  session leaks memory or uses a block after it was freed. What a session stores has its C type:
  ints in their range, strings without NUL. In every interleaving with the handler the table is
  one that a serial run computes, and a job that is shown as running has a process that runs or
  is still to be reaped.
  Errors are stated as results: each failing call's branch, and the cases in which the code does
  not do what it means to.

  Termination. No fuel is used: the loops over a line recurse on the characters left, the wait
  loops on the answers the kernel gives (a finite list: that it ends is that of the children),
  and the loop of \<open>main\<close> on the lines of input left, which each turn makes fewer. \<open>main\<close> is thus
  total, and returns with the input empty or after \<open>exit\<close>.

  The handler in the sequential model runs where \<open>unblock_sigchld\<close> restores the mask and while
  the shell waits for a line. That this loses nothing is the theorem on interleavings: the code
  touches the table only inside its sections.

  Parameters: the kernel's answers, among them whether a request for memory succeeds and what
  \<open>glob\<close> matches; in Owned_Words and Owned_History the allocator (which block is handed out, and
  when none is), and whether a child ends while the shell reads; in Dataflow the programs, the capacity of a pipe and the input of the first stage.

  Not modelled: a child that reads the shell's own input, or moves its offset when it exits; errors
  of \<open>close\<close>, \<open>dup2\<close> and \<open>sigprocmask\<close>, which the code ignores; what a program does
  after its exec, but for its reads and writes at the ends of the pipeline in Dataflow. The
  counters of the history and of the jobs are unbounded integers here: they grow by at most one
  with each line, and stay in the range of int in sessions of fewer than 2147483646 lines. The
  Makefile and the documents have no logic; where a document says something else than the code
  does, the manifest's findings name the place.
\<close>

section \<open>From the input line to its effect\<close>

lemma exit_line:
  assumes "\<And>n. k_malloc K (w_trace w) n" "is_int32 (last_status st)" "env_ok (w_env w)" "is_int32 c"
  shows "run_line K (''exit '' @ dec_int c @ [NL]) st w =
    (True, (recorded K (''exit '' @ dec_int c @ [NL]) st w)\<lparr>should_exit := True, last_status := c\<rparr>, w)"
proof -
  let ?ws = "[''exit'', dec_int c]"
  have line: "join '' '' ?ws @ [NL] = ''exit '' @ dec_int c @ [NL]" by simp
  have "inert ''exit''" by (rule inertI) (simp_all add: ordinary_def TOKEN_DELIMITERS_def)
  then have ws: "?ws \<noteq> []" "length ?ws < MAX_ARGS" "\<forall>w \<in> set ?ws. inert w" "is_builtin (hd ?ws)"
    by (simp_all add: MAX_ARGS_def dec_int_inert is_builtin_def)
  note arg = words_command_arg [OF ws(3,2)]
  have "run_builtin K (words_command ?ws) (recorded K (join '' '' ?ws @ [NL]) st w) w =
      (c, (recorded K (join '' '' ?ws @ [NL]) st w)\<lparr>should_exit := True\<rparr>, w)"
    using arg [of 0] arg [of 1] assms(4) by (intro exit_effect) simp_all
  from run_builtin_line [OF ws _ assms(1-3) this] show ?thesis
    unfolding line by (simp add: TOKEN_DELIMITERS_def)
qed

text \<open>C27: when the next input line is \<open>exit\<close> and a decimal int, the shell leaves its loop after
  that line with that number as its status, and reads no further input.\<close>

theorem exit_ends_session:
  assumes "w_stdin w = (''exit '' @ dec_int c @ [NL]) # rest" "is_int32 c"
    and "\<And>tr n. k_malloc K tr n" "is_int32 (last_status st)" "env_ok (w_env w)"
    and "restarts w" "main_loop K st w = (st', w')"
  shows "last_status st' = c \<and> w_stdin w' = rest"
proof -
  let ?line = "''exit '' @ dec_int c @ [NL]"
  obtain st1 w1 where s: "show_prompt K st w = (st1, w1)" by fastforce
  obtain st2 w2 where d: "deliver_sigchld K st1 w1 = (st2, w2)" by fastforce
  have prompt: "last_status st2 = last_status st" "w_env w2 = w_env w" "w_stdin w2 = w_stdin w"
    using s deliver_frame [OF d] unblock_frame [OF prod.collapse [symmetric]]
    by (auto simp: show_prompt_def Let_def case_prod_beta)
  have "restarts w1" using assms(6) show_prompt_disp [OF s] restarts_cong by blast
  then obtain w3 where g: "sys_getline (interrupts K w1) w2 = (Some ?line, w3)" "w_stdin w3 = rest" "w_env w3 = w_env w2"
    using prompt(3) assms(1) by (simp add: sys_getline_def Let_def)
  have "cstr ?line = ?line" by (intro cstr_id) simp
  moreover have "run_line K ?line st2 w3 =
      (True, (recorded K ?line st2 w3)\<lparr>should_exit := True, last_status := c\<rparr>, w3)"
    using assms(2-5) prompt g(3) by (intro exit_line) simp_all
  ultimately have "main_loop K st w = ((recorded K ?line st2 w3)\<lparr>should_exit := True, last_status := c\<rparr>, w3)"
    using s d g(1) by (subst main_loop.simps) simp
  then show ?thesis using assms(7) g(2) by auto
qed

theorem exit_ends_session_witness:
  "last_status (fst (main_loop sample_kernel shell_init
     (sample_world\<lparr>w_stdin := [''exit 3'' @ [NL], ''ls'' @ [NL]]\<rparr>))) = 3"
proof -
  have "dec_int 3 = ''3''" by code_simp
  then show ?thesis
    using exit_ends_session [of "sample_world\<lparr>w_stdin := [''exit 3'' @ [NL], ''ls'' @ [NL]]\<rparr>" 3 "[''ls'' @ [NL]]"
        sample_kernel shell_init, OF _ _ _ _ _ _ prod.collapse [symmetric]]
    by (simp add: sample_simps restarts_def shell_init_def is_int32_def env_ok_def)
qed



text \<open>C4: a line of at most 16 stages of plain words, none a built-in, whose forks succeed, starts
  one program for each stage with exactly the stage's words as its argument vector; its standard
  input is the pipe from the stage before, or the shell's, and its standard output the pipe to the
  stage behind, or the shell's; and the line's status is what the wait for them returns.\<close>

theorem line_runs_stages:
  assumes words: "wss \<noteq> []" "length wss \<le> 16"
      "\<forall>ws \<in> set wss. ws \<noteq> [] \<and> length ws \<le> 63 \<and> (\<forall>w \<in> set ws. inert w) \<and> \<not> is_builtin (hd ws)"
    and env: "\<And>n. k_malloc K (w_trace w) n" "is_int32 (last_status st)" "env_ok (w_env w)"
    and exec: "\<And>tr as. k_exec K tr as = None"
    and std: "std_open (w_fds w)" "snd (the (w_fds w ! 0)) = False" "snd (the (w_fds w ! 1)) = False"
  defines "line \<equiv> join '' | '' (map (join '' '') wss) @ [NL]"
  assumes run: "run_line K line st w = (go, st', w')" "last_status st' \<noteq> -1"
  shows "\<exists>p children st2. parse_pipeline line = Inr p \<and>
    execute_pipeline K p (recorded K line st w) w = (last_status st', children, st2, w') \<and>
    length children = length wss \<and>
    (\<forall>i < length wss. \<exists>u. children ! i = Execs (wss ! i) u \<and>
       w_fds u ! 0 = Some (if i = 0 then fst (the (w_fds w ! 0)) else PipeR (w_pipes w + i - 1), False) \<and>
       w_fds u ! 1 = Some (if i = length wss - 1 then fst (the (w_fds w ! 1)) else PipeW (w_pipes w + i), False))"
proof -
  obtain p where p: "parse_pipeline line = Inr p" "pipeline_inv p" "stages p = map words_command wss"
    "map argv (stages p) = wss" "\<not> pl_background p" "num_commands p = length wss"
    "run_line K line st w = (True, run_pipeline K p (recorded K line st w) w)"
    using run_words_line [of wss "[NL]" K w st, OF _ _ _ _ env] words
    unfolding line_def by (force simp: MAX_COMMANDS_def MAX_ARGS_def TOKEN_DELIMITERS_def)
  let ?st = "recorded K line st w"
  have ws: "ws \<noteq> []" "length ws < MAX_ARGS" "\<forall>w \<in> set ws. inert w" "\<not> is_builtin (hd ws)" if "ws \<in> set wss" for ws
    using that words(3) by (auto simp: MAX_ARGS_def)
  have name: "cmd_name (words_command ws) = hd ws" if "ws \<in> set wss" for ws
    using words_command_arg [OF ws(3,2) [OF that], of 0] ws(1) [OF that] by (simp add: hd_conv_nth)
  have r: "run_pipeline K p ?st w = (st', w')" using run(1) p(7) by simp
  have "commands p ! 0 = words_command (wss ! 0)"
    using arg_cong [OF p(3), of "\<lambda>xs. xs ! 0"] p(6) words(1) by (simp add: stages_def nth_append)
  then have nb: "\<not> is_builtin (cmd_name (commands p ! 0))"
    using name [OF nth_mem] ws(4) [OF nth_mem] words(1) by simp
  from r obtain children st1 where
    e: "execute_pipeline K p ?st w = (last_status st', children, st1, w')"
    by (cases rule: run_pipeline_cases) (use nb in auto)
  then obtain pids w2 where sp: "spawn_pipeline K p ?st (snd (block_sigchld w)) = (True, pids, children, w2)"
    by (cases rule: execute_cases) (use run(2) p(5) in auto)
  have ne: "stages p \<noteq> []" using p(3) words(1) by simp
  let ?w = "snd (block_sigchld w)"
  have std': "std_open (w_fds ?w)" "snd (the (w_fds ?w ! 0)) = False" "snd (the (w_fds ?w ! 1)) = False"
    using std by simp_all
  note f = spawn_pipeline_facts [OF std'(1) ne sp]
  have len: "length children = length wss" using f(1) p(3) by simp
  have "\<exists>u. children ! i = Execs (wss ! i) u \<and>
      w_fds u ! 0 = Some (if i = 0 then fst (the (w_fds w ! 0)) else PipeR (w_pipes w + i - 1), False) \<and>
      w_fds u ! 1 = Some (if i = length wss - 1 then fst (the (w_fds w ! 1)) else PipeW (w_pipes w + i), False)"
    if i: "i < length wss" for i
  proof -
    have cmd: "stages p ! i = words_command (wss ! i)" "i < length (stages p)" using p(3) i by simp_all
    obtain v where v: "children ! i = exec_child K (words_command (wss ! i)) ?st v"
      using f(7) [OF cmd(2)] unfolding cmd(1) by (auto simp: spawned_def)
    obtain u where u: "children ! i = Execs (c_argv (args (words_command (wss ! i)))) u"
      using exec_child_plain [of "words_command (wss ! i)" K ?st v] name [OF nth_mem] ws(4) [OF nth_mem] i exec v
      by auto
    have "heredoc_ok (w_fds ?w) (stages p ! i)" by (simp add: cmd(1) heredoc_ok_def)
    note s = stage_program_facts [OF std' p(2) sp cmd(2) this u]
    have "argv (stages p ! i) = wss ! i" using arg_cong [OF p(4), of "\<lambda>xs. xs ! i"] cmd(2) by simp
    then show ?thesis
      using s u p(3) i by (auto simp: cmd(1) stage_reads_def stage_writes_def pipe_in_def pipe_out_def)
  qed
  then show ?thesis using p(1) e len by blast
qed

text \<open>The line \<open>ls | wc\<close> run by the kernel of the examples.\<close>

definition sample_words :: "string list list" where
  "sample_words = [[''ls''], [''wc'']]"

lemma sample_words_ok:
  "\<forall>ws \<in> set sample_words. ws \<noteq> [] \<and> length ws \<le> 63 \<and> (\<forall>w \<in> set ws. inert w) \<and> \<not> is_builtin (hd ws)"
  by code_simp

lemma sample_line_text: "join '' | '' (map (join '' '') sample_words) @ [NL] = ''ls | wc'' @ [NL]"
  by (simp add: sample_words_def)

lemma sample_env:
  "k_malloc sample_kernel tr n" "is_int32 (last_status shell_init)" "env_ok (w_env sample_world)"
  "k_exec sample_kernel tr as = None" "std_open (w_fds sample_world)"
  "w_fds sample_world ! 0 = Some (Inherited 0, False)" "w_fds sample_world ! 1 = Some (Inherited 1, False)"
  by (simp_all add: sample_simps shell_init_def is_int32_def env_ok_def std_open_def valid_fd_def)

lemma sample_line_status:
  assumes "run_line sample_kernel (''ls | wc'' @ [NL]) shell_init sample_world = (go, st', w')"
  shows "last_status st' = 0"
proof -
  let ?st = "recorded sample_kernel (''ls | wc'' @ [NL]) shell_init sample_world"
  have words: "sample_words \<noteq> []" "length sample_words \<le> MAX_COMMANDS"
    "\<forall>ws \<in> set sample_words. ws \<noteq> [] \<and> length ws < MAX_ARGS \<and> (\<forall>w \<in> set ws. inert w)"
    "set [NL] \<subseteq> set TOKEN_DELIMITERS"
    using sample_words_ok by (auto simp: sample_words_def MAX_COMMANDS_def MAX_ARGS_def TOKEN_DELIMITERS_def)
  obtain p where p: "stages p = map words_command sample_words" "\<not> pl_background p"
    "num_commands p = length sample_words"
    "run_line sample_kernel (''ls | wc'' @ [NL]) shell_init sample_world =
       (True, run_pipeline sample_kernel p ?st sample_world)"
    by (rule run_words_line [OF words sample_env(1-3), unfolded sample_line_text])
  have r: "run_pipeline sample_kernel p ?st sample_world = (st', w')" using p(4) assms by simp
  have two: "num_commands p = 2" using p(3) by (simp add: sample_words_def)
  have spawn: "fst (spawn_pipeline sample_kernel p ?st (snd (block_sigchld sample_world)))"
    by (simp add: spawn_pipeline_def stages_def [symmetric] p(1) sample_words_def block_sigchld_def
        sample_simps sys_pipe_def lowest_free_def Let_def case_prod_beta)
  from r obtain children st1 where
    "execute_pipeline sample_kernel p ?st sample_world = (last_status st', children, st1, w')"
    by (cases rule: run_pipeline_cases) (use two in auto)
  then show ?thesis
  proof (cases rule: execute_cases)
    case (foreground pids w2 w3 st1 w4)
    then show ?thesis
      using wait_ended [OF _ foreground(4)] by (simp add: sample_kernel_def ended_def end_code_def)
  qed (use spawn p(2) in auto)
qed

theorem line_runs_stages_witness:
  "\<exists>p children st2 u w'. execute_pipeline sample_kernel p
       (recorded sample_kernel (''ls | wc'' @ [NL]) shell_init sample_world) sample_world = (0, children, st2, w') \<and>
     children ! 1 = Execs [''wc''] u \<and> w_fds u ! 0 = Some (PipeR 0, False)"
proof -
  obtain go st' w' where r: "run_line sample_kernel (''ls | wc'' @ [NL]) shell_init sample_world = (go, st', w')"
    by (metis prod_cases3)
  have cond: "sample_words \<noteq> []" "length sample_words \<le> 16" "last_status st' \<noteq> -1"
    "snd (the (w_fds sample_world ! 0)) = False" "snd (the (w_fds sample_world ! 1)) = False"
    using sample_line_status [OF r] sample_env(6,7) by (simp_all add: sample_words_def)
  obtain p children st2 where l:
    "execute_pipeline sample_kernel p (recorded sample_kernel (''ls | wc'' @ [NL]) shell_init sample_world)
       sample_world = (last_status st', children, st2, w')"
    "\<forall>i < length sample_words. \<exists>u. children ! i = Execs (sample_words ! i) u \<and>
       w_fds u ! 0 = Some (if i = 0 then fst (the (w_fds sample_world ! 0))
         else PipeR (w_pipes sample_world + i - 1), False)"
    using line_runs_stages [OF cond(1,2) sample_words_ok sample_env(1-5) cond(4,5) r [folded sample_line_text] cond(3)]
    unfolding sample_line_text by blast
  have "1 < length sample_words" "sample_words ! 1 = [''wc'']" "w_pipes sample_world = 0"
    by (simp_all add: sample_words_def sample_world_def)
  then obtain u where "children ! 1 = Execs [''wc''] u" "w_fds u ! 0 = Some (PipeR 0, False)"
    using l(2) by fastforce
  then show ?thesis using l(1) sample_line_status [OF r] by metis
qed

lemma spawn_single:
  assumes "stages p = [cmd]" "\<And>tr. \<exists>pid. k_fork K tr = Inr pid"
  shows "fst (spawn_pipeline K p st w)"
  using assms(2) [of "w_trace w"]
  by (auto simp: spawn_pipeline_def stages_def [symmetric] assms(1) Let_def case_prod_beta)

lemma single_stage_execs:
  assumes p: "stages p = [cmd]" "pipeline_inv p" and sp: "spawn_pipeline K p st w = (True, pids, children, w')"
    and std: "std_open (w_fds w)" "snd (the (w_fds w ! 0)) = False" "snd (the (w_fds w ! 1)) = False"
    and cmd: "0 \<le> heredoc_fd cmd" "heredoc_ok (w_fds w) cmd" "output_file cmd = None" "\<not> is_builtin (cmd_name cmd)"
    and exec: "\<And>tr as. k_exec K tr as = None"
  obtains u where "children = [Execs (argv cmd) u]"
    "w_fds u ! 0 = Some (fst (the (w_fds w ! nat (heredoc_fd cmd))), False)"
proof -
  note f = spawn_pipeline_facts [OF std(1) _ sp]
  have len: "length children = 1" "0 < length (stages p)" using f(1) p(1) by simp_all
  obtain v where v: "children ! 0 = exec_child K cmd st v"
    using f(7) [OF _ len(2)] p(1) by (auto simp: spawned_def)
  obtain u where u: "children ! 0 = Execs (c_argv (args cmd)) u"
    using exec_child_plain [of cmd K st v] cmd exec v by auto
  have "heredoc_ok (w_fds w) (stages p ! 0)" using cmd(2) by (simp add: p(1))
  note s = stage_program_facts [OF std p(2) sp len(2) this u]
  show thesis using s u len(1) p(1) cmd(1) by (intro that [of u]) (cases children; auto simp: stage_reads_def)+
qed



end
